(* ===== verification/Xv6_Base.thy ===== *)
theory Xv6_Base
  imports Main "HOL-Library.Word"
begin

unbundle bit_operations_syntax

text \<open>
  Prelude of the development.  It holds the vocabulary the component theories
  share: the machine types, the constants of \<open>param.h\<close>, the identities of the
  kernel's locks and sleep channels, the outcome type of a kernel routine with its
  state-passing combinators, the total-correctness predicate transformer \<open>wp\<close> with
  its rules (collected in \<open>wps\<close>), and generic lemmas on lists and words.

  A kernel routine is a function from the kernel state to an outcome.  C code that
  returns gives \<open>Done\<close> with the result and the new state; a call of \<open>panic\<close>
  gives \<open>Panicked\<close> with the message; a switch to the scheduler (\<open>sched\<close>, reached
  from \<open>sleep\<close>, \<open>yield\<close> and \<open>exit\<close>) gives \<open>Away\<close> with the state at that point; a
  spin on a lock another processor holds gives \<open>Spinning\<close>.
\<close>

named_theorems wps \<open>weakest precondition equations of the kernel routines\<close>
named_theorems param_defs \<open>the numeric constants of the sources\<close>

section \<open>Machine types\<close>

type_synonym byte = "8 word"
type_synonym u32 = "32 word"

section \<open>Constants of param.h\<close>

definition NPROC :: nat where [param_defs]: "NPROC = 64"

definition KSTACKSIZE :: nat where [param_defs]: "KSTACKSIZE = 4096"

definition NCPU :: nat where [param_defs]: "NCPU = 8"

definition NOFILE :: nat where [param_defs]: "NOFILE = 16"

definition NFILE :: nat where [param_defs]: "NFILE = 100"

definition NINODE :: nat where [param_defs]: "NINODE = 50"

definition NDEV :: nat where [param_defs]: "NDEV = 10"

definition ROOTDEV :: nat where [param_defs]: "ROOTDEV = 1"

definition MAXARG :: nat where [param_defs]: "MAXARG = 32"

definition MAXOPBLOCKS :: nat where [param_defs]: "MAXOPBLOCKS = 10"

definition LOGSIZE :: nat where [param_defs]: "LOGSIZE = MAXOPBLOCKS * 3"

definition NBUF :: nat where [param_defs]: "NBUF = MAXOPBLOCKS * 3"

definition FSSIZE :: nat where [param_defs]: "FSSIZE = 1000"

section \<open>Identities of locks and channels\<close>

text \<open>
  In C a lock and a sleep channel are addresses.  Distinct kernel objects have
  distinct addresses, so an address is modelled by the object it belongs to.
  \<open>ChUser\<close> is a channel a user program names through \<open>sys_mysleep\<close>.
\<close>

datatype sleepid = SlBuf nat | SlInode nat

datatype lockid = LkPtable | LkKmem | LkBcache | LkLog | LkIcache | LkFtable
  | LkCons | LkTicks | LkIde | LkPipe nat | LkSleep sleepid

datatype chan = ChSleep sleepid | ChBuf nat | ChLog | ChProc nat | ChTicks
  | ChPipeRead nat | ChPipeWrite nat | ChInput | ChUser u32

section \<open>Outcomes and the kernel state monad\<close>

datatype ('a, 's) outcome = Done 'a 's | Panicked string | Away 's | Spinning lockid

type_synonym ('s, 'a) kop = "'s \<Rightarrow> ('a, 's) outcome"

definition ret :: "'a \<Rightarrow> ('s, 'a) kop" where
  "ret a = (\<lambda>s. Done a s)"

definition panic :: "string \<Rightarrow> ('s, 'a) kop" where
  "panic msg = (\<lambda>s. Panicked msg)"

definition bindK :: "('s, 'a) kop \<Rightarrow> ('a \<Rightarrow> ('s, 'b) kop) \<Rightarrow> ('s, 'b) kop" where
  "bindK m f = (\<lambda>s. case m s of
      Done a s' \<Rightarrow> f a s'
    | Panicked e \<Rightarrow> Panicked e
    | Away s' \<Rightarrow> Away s'
    | Spinning l \<Rightarrow> Spinning l)"

abbreviation seqK :: "('s, 'a) kop \<Rightarrow> ('s, 'b) kop \<Rightarrow> ('s, 'b) kop" where
  "seqK m n \<equiv> bindK m (\<lambda>_. n)"

definition gets :: "('s \<Rightarrow> 'a) \<Rightarrow> ('s, 'a) kop" where
  "gets f = (\<lambda>s. Done (f s) s)"

definition modify :: "('s \<Rightarrow> 's) \<Rightarrow> ('s, unit) kop" where
  "modify f = (\<lambda>s. Done () (f s))"

definition whenK :: "bool \<Rightarrow> ('s, unit) kop \<Rightarrow> ('s, unit) kop" where
  "whenK b m = (if b then m else ret ())"

text \<open>
  Lifting of a routine that works on one component of the state: \<open>get\<close> selects the
  component and \<open>put\<close> stores it back.
\<close>

definition zoom :: "('s \<Rightarrow> 't) \<Rightarrow> ('t \<Rightarrow> 's \<Rightarrow> 's) \<Rightarrow> ('t, 'a) kop \<Rightarrow> ('s, 'a) kop" where
  "zoom get put m = (\<lambda>s. case m (get s) of
      Done a t \<Rightarrow> Done a (put t s)
    | Panicked e \<Rightarrow> Panicked e
    | Away t \<Rightarrow> Away (put t s)
    | Spinning l \<Rightarrow> Spinning l)"

section \<open>Total correctness\<close>

text \<open>
  \<open>wp m Q s\<close>: started in \<open>s\<close>, the routine \<open>m\<close> returns (it neither panics nor
  sleeps nor spins) and result and final state satisfy \<open>Q\<close>.
\<close>

definition wp :: "('s, 'a) kop \<Rightarrow> ('a \<Rightarrow> 's \<Rightarrow> bool) \<Rightarrow> 's \<Rightarrow> bool" where
  "wp m Q s \<longleftrightarrow> (case m s of Done a s' \<Rightarrow> Q a s' | _ \<Rightarrow> False)"

lemma wp_ret [simp, wps]: "wp (ret a) Q s \<longleftrightarrow> Q a s"
  by (simp add: wp_def ret_def)

lemma wp_panic [simp, wps]: "\<not> wp (panic e) Q s"
  by (simp add: wp_def panic_def)

lemma wp_bindK [simp, wps]: "wp (bindK m f) Q s \<longleftrightarrow> wp m (\<lambda>a. wp (f a) Q) s"
  by (simp add: wp_def bindK_def split: outcome.splits)

lemma wp_gets [simp, wps]: "wp (gets f) Q s \<longleftrightarrow> Q (f s) s"
  by (simp add: wp_def gets_def)

lemma wp_modify [simp, wps]: "wp (modify f) Q s \<longleftrightarrow> Q () (f s)"
  by (simp add: wp_def modify_def)

lemma wp_whenK [simp, wps]: "wp (whenK b m) Q s \<longleftrightarrow> (if b then wp m Q s else Q () s)"
  by (simp add: whenK_def)

lemma wp_if [simp, wps]: "wp (if b then m else n) Q s \<longleftrightarrow> (if b then wp m Q s else wp n Q s)"
  by simp

lemma wp_zoom [simp, wps]: "wp (zoom get put m) Q s \<longleftrightarrow> wp m (\<lambda>a t. Q a (put t s)) (get s)"
  by (simp add: wp_def zoom_def split: outcome.splits)

lemma wp_case_option [wps]:
  "wp (case x of None \<Rightarrow> m | Some a \<Rightarrow> f a) Q s \<longleftrightarrow>
     (case x of None \<Rightarrow> wp m Q s | Some a \<Rightarrow> wp (f a) Q s)"
  by (simp split: option.splits)

lemma wp_mono: "wp m Q s \<Longrightarrow> (\<And>a s'. Q a s' \<Longrightarrow> R a s') \<Longrightarrow> wp m R s"
  by (auto simp: wp_def split: outcome.splits)

lemma wp_DoneI: "m s = Done a s' \<Longrightarrow> Q a s' \<Longrightarrow> wp m Q s"
  by (simp add: wp_def)

lemma wp_Done: "wp m Q s \<longleftrightarrow> (\<exists>a s'. m s = Done a s' \<and> Q a s')"
  by (auto simp: wp_def split: outcome.splits)

lemma wpE: "wp m Q s \<Longrightarrow> (\<And>a s'. m s = Done a s' \<Longrightarrow> Q a s' \<Longrightarrow> P) \<Longrightarrow> P"
  by (auto simp: wp_Done)

lemma bindK_Done:
  "bindK m f s = Done b t \<longleftrightarrow> (\<exists>a s'. m s = Done a s' \<and> f a s' = Done b t)"
  by (auto simp: bindK_def split: outcome.splits)

text \<open>
  \<open>wpx m Q A s\<close>: the routine returns with \<open>Q\<close>, or switches away in a state that
  satisfies \<open>A\<close>.
\<close>

definition wpx :: "('s, 'a) kop \<Rightarrow> ('a \<Rightarrow> 's \<Rightarrow> bool) \<Rightarrow> ('s \<Rightarrow> bool) \<Rightarrow> 's \<Rightarrow> bool" where
  "wpx m Q A s \<longleftrightarrow> (case m s of Done a s' \<Rightarrow> Q a s' | Away s' \<Rightarrow> A s' | _ \<Rightarrow> False)"

lemma wpx_ret [simp, wps]: "wpx (ret a) Q A s \<longleftrightarrow> Q a s"
  by (simp add: wpx_def ret_def)

lemma wpx_panic [simp, wps]: "\<not> wpx (panic e) Q A s"
  by (simp add: wpx_def panic_def)

lemma wpx_bindK [simp, wps]: "wpx (bindK m f) Q A s \<longleftrightarrow> wpx m (\<lambda>a. wpx (f a) Q A) A s"
  by (simp add: wpx_def bindK_def split: outcome.splits)

lemma wpx_gets [simp, wps]: "wpx (gets f) Q A s \<longleftrightarrow> Q (f s) s"
  by (simp add: wpx_def gets_def)

lemma wpx_modify [simp, wps]: "wpx (modify f) Q A s \<longleftrightarrow> Q () (f s)"
  by (simp add: wpx_def modify_def)

lemma wpx_whenK [simp, wps]: "wpx (whenK b m) Q A s \<longleftrightarrow> (if b then wpx m Q A s else Q () s)"
  by (simp add: whenK_def)

lemma wpx_if [simp, wps]: "wpx (if b then m else n) Q A s \<longleftrightarrow> (if b then wpx m Q A s else wpx n Q A s)"
  by simp

lemma wpx_away [simp, wps]: "wpx (\<lambda>s. Away (f s)) Q A s \<longleftrightarrow> A (f s)"
  by (simp add: wpx_def)

lemma wpx_case_option [wps]:
  "wpx (case x of None \<Rightarrow> m | Some a \<Rightarrow> f a) Q A s \<longleftrightarrow>
     (case x of None \<Rightarrow> wpx m Q A s | Some a \<Rightarrow> wpx (f a) Q A s)"
  by (simp split: option.splits)

lemma wpx_wp: "wp m Q s \<Longrightarrow> wpx m Q A s"
  by (auto simp: wp_def wpx_def split: outcome.splits)

lemma wp_wpx: "wp m Q s \<longleftrightarrow> wpx m Q (\<lambda>_. False) s"
  by (auto simp: wp_def wpx_def split: outcome.splits)

lemma wpx_mono:
  "wpx m Q A s \<Longrightarrow> (\<And>a s'. Q a s' \<Longrightarrow> Q' a s') \<Longrightarrow> (\<And>s'. A s' \<Longrightarrow> A' s') \<Longrightarrow> wpx m Q' A' s"
  by (auto simp: wpx_def split: outcome.splits)

lemma wpx_AwayD: "wpx m (\<lambda>_ _. False) A s \<Longrightarrow> \<exists>s'. m s = Away s' \<and> A s'"
  by (auto simp: wpx_def split: outcome.splits)

lemma bindK_eqs:
  "m s = Done a s' \<Longrightarrow> bindK m f s = f a s'"
  "m s = Panicked e \<Longrightarrow> bindK m f s = Panicked e"
  "m s = Away s' \<Longrightarrow> bindK m f s = Away s'"
  by (simp_all add: bindK_def)

lemmas monad_simps = ret_def panic_def bindK_def gets_def modify_def whenK_def

section \<open>Lists\<close>

lemma take_map_nth: "n \<le> length xs \<Longrightarrow> take n xs = map ((!) xs) [0..<n]"
  by (simp add: list_eq_iff_nth_eq)

lemma nth_eq_updD: "i < length xs \<Longrightarrow> (xs[i := x]) ! j = (if i = j then x else xs ! j)"
  by simp

text \<open>The first index at or after \<open>i\<close> whose element satisfies \<open>P\<close>.\<close>

fun findix :: "('a \<Rightarrow> bool) \<Rightarrow> nat \<Rightarrow> 'a list \<Rightarrow> nat option" where
  "findix P i [] = None"
| "findix P i (x # xs) = (if P x then Some i else findix P (Suc i) xs)"

lemma findix_None: "findix P i xs = None \<longleftrightarrow> (\<forall>x \<in> set xs. \<not> P x)"
  by (induction xs arbitrary: i) auto

lemma findix_Some:
  "findix P i xs = Some j \<Longrightarrow>
     i \<le> j \<and> j < i + length xs \<and> P (xs ! (j - i)) \<and> (\<forall>k < j - i. \<not> P (xs ! k))"
proof (induction xs arbitrary: i)
  case Nil
  then show ?case by simp
next
  case (Cons x xs)
  show ?case
  proof (cases "P x")
    case True
    with Cons.prems show ?thesis by auto
  next
    case False
    with Cons.prems have "findix P (Suc i) xs = Some j" by simp
    note IH = Cons.IH [OF this]
    then have "j - i = Suc (j - Suc i)" by auto
    with IH False show ?thesis by (auto simp: less_Suc_eq_0_disj)
  qed
qed

lemma findix_SomeD [dest]:
  assumes "findix P 0 xs = Some j"
  shows "j < length xs" "P (xs ! j)" "\<And>k. k < j \<Longrightarrow> \<not> P (xs ! k)"
  using findix_Some [OF assms] by auto

lemma findix_eq_Some:
  assumes "j < length xs" "P (xs ! j)" "\<And>k. k < j \<Longrightarrow> \<not> P (xs ! k)"
  shows "findix P 0 xs = Some j"
proof (cases "findix P 0 xs")
  case None
  with assms show ?thesis by (auto simp: findix_None)
next
  case (Some k)
  with assms have "k = j" using findix_SomeD [OF Some] by (metis nat_neq_iff)
  with Some show ?thesis by simp
qed

section \<open>Words\<close>

lemma unat_u32_bound [simp]: "unat (x :: u32) < 4294967296"
  using unsigned_less [of x, where ?'a = nat] by simp

lemma unat_byte_bound [simp]: "unat (x :: byte) < 256"
  using unsigned_less [of x, where ?'a = nat] by simp

end
