(* ===== verification/Spinlock.thy ===== *)
theory Spinlock
  imports Xv6_Base
begin

unbundle bit_operations_syntax

text \<open>
  Spin locks and interrupt masking: \<open>spinlock.h\<close>, \<open>spinlock.c\<close>, and the routines of
  \<open>proc.c\<close> that find the executing processor and its process (\<open>mycpu\<close>, \<open>cpuid\<close>,
  \<open>myproc\<close>).  The record \<open>mach\<close> is what these routines read and write: the
  \<open>cpus\<close> array, the interrupt flag of the executing processor, the spin locks, and
  the stack words \<open>getcallerpcs\<close> walks.  \<open>lapicid\<close> is what the local APIC of the
  executing processor reports (\<open>lapic.c\<close> is not part of the sources).

  The second half is the multiprocessor view: every processor runs \<open>acquire\<close> and
  \<open>release\<close> one memory access at a time, interleaved in any order.
\<close>

section \<open>Processor and lock state\<close>

record spinlock =
  lk_locked :: nat
  lk_name :: string
  lk_cpu :: "nat option"
  lk_pcs :: "u32 list"

record cpu =
  apicid :: nat
  ncli :: int
  intena :: bool
  cproc :: "nat option"

record mach =
  lapicid :: nat
  cpus :: "cpu list"
  iflag :: bool
  locks :: "lockid \<Rightarrow> spinlock"
  stackw :: "u32 \<Rightarrow> u32"
  argp :: u32

definition KERNBASE :: u32 where [param_defs]: "KERNBASE = 0x80000000"

definition initlock :: "lockid \<Rightarrow> string \<Rightarrow> (mach, unit) kop" where
  "initlock l name = modify (\<lambda>m. m\<lparr>locks := (locks m)
     (l := (locks m l)\<lparr>lk_name := name, lk_locked := 0, lk_cpu := None\<rparr>)\<rparr>)"

definition readeflags_IF :: "(mach, bool) kop" where
  "readeflags_IF = gets iflag"

definition cli :: "(mach, unit) kop" where
  "cli = modify (\<lambda>m. m\<lparr>iflag := False\<rparr>)"

definition sti :: "(mach, unit) kop" where
  "sti = modify (\<lambda>m. m\<lparr>iflag := True\<rparr>)"

text \<open>The loop of \<open>mycpu\<close> over the \<open>cpus\<close> array: the first entry with the APIC id.\<close>

definition cpu_index :: "mach \<Rightarrow> nat option" where
  "cpu_index m = findix (\<lambda>c. apicid c = lapicid m) 0 (cpus m)"

definition mycpu :: "(mach, nat) kop" where
  "mycpu = bindK readeflags_IF (\<lambda>on.
     if on then panic (''mycpu called with interrupts enabled'' @ [CHR 0x0A])
     else bindK (gets cpu_index) (\<lambda>r. case r of
        Some i \<Rightarrow> ret i
      | None \<Rightarrow> panic (''unknown apicid'' @ [CHR 0x0A])))"

definition cpuid :: "(mach, nat) kop" where
  "cpuid = mycpu"

definition upd_cpu :: "nat \<Rightarrow> (cpu \<Rightarrow> cpu) \<Rightarrow> mach \<Rightarrow> mach" where
  "upd_cpu i f m = m\<lparr>cpus := (cpus m)[i := f (cpus m ! i)]\<rparr>"

definition pushcli :: "(mach, unit) kop" where
  "pushcli =
     bindK readeflags_IF (\<lambda>eflags.
     seqK cli (
     bindK mycpu (\<lambda>i.
     bindK (gets (\<lambda>m. ncli (cpus m ! i))) (\<lambda>n.
     seqK (whenK (n = 0) (modify (upd_cpu i (\<lambda>c. c\<lparr>intena := eflags\<rparr>))))
          (modify (upd_cpu i (\<lambda>c. c\<lparr>ncli := ncli c + 1\<rparr>)))))))"

definition popcli :: "(mach, unit) kop" where
  "popcli =
     bindK readeflags_IF (\<lambda>on.
     if on then panic ''popcli - interruptible''
     else bindK mycpu (\<lambda>i.
       seqK (modify (upd_cpu i (\<lambda>c. c\<lparr>ncli := ncli c - 1\<rparr>)))
       (bindK (gets (\<lambda>m. cpus m ! i)) (\<lambda>c.
          if ncli c < 0 then panic ''popcli''
          else whenK (ncli c = 0 \<and> intena c) sti))))"

definition myproc :: "(mach, nat option) kop" where
  "myproc =
     seqK pushcli (
     bindK mycpu (\<lambda>i.
     bindK (gets (\<lambda>m. cproc (cpus m ! i))) (\<lambda>p.
     seqK popcli (ret p))))"

section \<open>acquire and release\<close>

definition holding :: "lockid \<Rightarrow> (mach, bool) kop" where
  "holding l = bindK (gets (\<lambda>m. locks m l)) (\<lambda>lk.
     if lk_locked lk = 0 then ret False
     else bindK mycpu (\<lambda>i. ret (lk_cpu lk = Some i)))"

text \<open>\<open>getcallerpcs\<close>: the saved program counters along the frame pointer chain.\<close>

fun callerpcs :: "(u32 \<Rightarrow> u32) \<Rightarrow> u32 \<Rightarrow> nat \<Rightarrow> u32 list" where
  "callerpcs st ebp 0 = []"
| "callerpcs st ebp (Suc n) =
     (if ebp = 0 \<or> ebp < KERNBASE \<or> ebp = 0xffffffff then replicate (Suc n) 0
      else st (ebp + 4) # callerpcs st (st ebp) n)"

definition getcallerpcs :: "(u32 \<Rightarrow> u32) \<Rightarrow> u32 \<Rightarrow> u32 list" where
  "getcallerpcs st v = callerpcs st (v - 8) 10"

text \<open>The atomic exchange of 1 with the lock word: the old value and the new lock.\<close>

definition xchg_locked :: "spinlock \<Rightarrow> nat \<times> spinlock" where
  "xchg_locked lk = (lk_locked lk, lk\<lparr>lk_locked := 1\<rparr>)"

definition upd_lock :: "lockid \<Rightarrow> (spinlock \<Rightarrow> spinlock) \<Rightarrow> mach \<Rightarrow> mach" where
  "upd_lock l f m = m\<lparr>locks := (locks m)(l := f (locks m l))\<rparr>"

definition acquire :: "lockid \<Rightarrow> (mach, unit) kop" where
  "acquire l =
     seqK pushcli (
     bindK (holding l) (\<lambda>h.
     if h then panic ''acquire''
     else bindK (gets (\<lambda>m. fst (xchg_locked (locks m l)))) (\<lambda>old.
       seqK (modify (upd_lock l (\<lambda>lk. snd (xchg_locked lk)))) (
       if old \<noteq> 0 then (\<lambda>m. Spinning l)
       else bindK mycpu (\<lambda>i.
         modify (\<lambda>m. upd_lock l (\<lambda>lk. lk\<lparr>lk_cpu := Some i,
           lk_pcs := getcallerpcs (stackw m) (argp m)\<rparr>) m))))))"

definition release :: "lockid \<Rightarrow> (mach, unit) kop" where
  "release l =
     bindK (holding l) (\<lambda>h.
     if \<not> h then panic ''release''
     else seqK (modify (upd_lock l (\<lambda>lk. lk\<lparr>lk_pcs := (lk_pcs lk)[0 := 0], lk_cpu := None\<rparr>))) (
          seqK (modify (upd_lock l (\<lambda>lk. lk\<lparr>lk_locked := 0\<rparr>)))
               popcli))"

section \<open>Facts about the routines\<close>

lemmas mach_ops_defs = initlock_def readeflags_IF_def cli_def sti_def mycpu_def upd_cpu_def
  pushcli_def popcli_def myproc_def holding_def xchg_locked_def upd_lock_def

lemma cpu_index_Some:
  "cpu_index m = Some i \<Longrightarrow> i < length (cpus m) \<and> apicid (cpus m ! i) = lapicid m"
  by (auto simp: cpu_index_def)

lemma findix_upd_apicid [simp]:
  "i < length xs \<Longrightarrow> apicid y = apicid (xs ! i) \<Longrightarrow>
     findix (\<lambda>c. apicid c = a) k (xs[i := y]) = findix (\<lambda>c. apicid c = a) k xs"
proof (induction xs arbitrary: i k)
  case Nil
  then show ?case by simp
next
  case (Cons x xs)
  then show ?case by (cases i) auto
qed

lemma cpu_index_upd_cpu [simp]:
  "i < length (cpus m) \<Longrightarrow> apicid (f (cpus m ! i)) = apicid (cpus m ! i) \<Longrightarrow>
     cpu_index (upd_cpu i f m) = cpu_index m"
  by (simp add: cpu_index_def upd_cpu_def)

lemma cpu_index_simps [simp]:
  "cpu_index (m\<lparr>iflag := b\<rparr>) = cpu_index m"
  "cpu_index (m\<lparr>locks := ls\<rparr>) = cpu_index m"
  "cpu_index (upd_lock l g m) = cpu_index m"
  by (simp_all add: cpu_index_def upd_lock_def)

lemma upd_cpu_nth [simp]:
  "i < length (cpus m) \<Longrightarrow> cpus (upd_cpu i f m) ! j = (if j = i then f (cpus m ! i) else cpus m ! j)"
  by (simp add: upd_cpu_def)

lemma upd_simps [simp]:
  "length (cpus (upd_cpu i f m)) = length (cpus m)"
  "iflag (upd_cpu i f m) = iflag m" "locks (upd_cpu i f m) = locks m"
  "lapicid (upd_cpu i f m) = lapicid m"
  "cpus (upd_lock l g m) = cpus m" "iflag (upd_lock l g m) = iflag m"
  "lapicid (upd_lock l g m) = lapicid m"
  "locks (upd_lock l g m) k = (if k = l then g (locks m l) else locks m k)"
  by (simp_all add: upd_cpu_def upd_lock_def)

lemma wp_readeflags [wps]: "wp readeflags_IF Q m \<longleftrightarrow> Q (iflag m) m"
  by (simp add: readeflags_IF_def)

lemma wp_mycpu [wps]:
  "wp mycpu Q m \<longleftrightarrow> \<not> iflag m \<and> (\<exists>i. cpu_index m = Some i \<and> Q i m)"
  by (auto simp: mycpu_def readeflags_IF_def split: option.splits)

lemma wp_pushcli:
  assumes "cpu_index m = Some i"
  shows "wp pushcli Q m \<longleftrightarrow>
    Q () (upd_cpu i (\<lambda>c. c\<lparr>intena := if ncli c = 0 then iflag m else intena c,
                           ncli := ncli c + 1\<rparr>) (m\<lparr>iflag := False\<rparr>))"
proof -
  have i: "i < length (cpus m)" using cpu_index_Some [OF assms] by simp
  show ?thesis
    using assms i
    by (simp add: pushcli_def readeflags_IF_def cli_def wp_mycpu upd_cpu_def)
qed

lemma wp_popcli:
  assumes "cpu_index m = Some i" "\<not> iflag m" "ncli (cpus m ! i) > 0"
  shows "wp popcli Q m \<longleftrightarrow>
    (let m' = upd_cpu i (\<lambda>c. c\<lparr>ncli := ncli c - 1\<rparr>) m
     in Q () (if ncli (cpus m ! i) = 1 \<and> intena (cpus m ! i) then m'\<lparr>iflag := True\<rparr> else m'))"
proof -
  have i: "i < length (cpus m)" using cpu_index_Some [OF assms(1)] by simp
  show ?thesis
    using assms i
    by (auto simp: popcli_def readeflags_IF_def sti_def wp_mycpu upd_cpu_def Let_def whenK_def)
qed

lemma length_callerpcs [simp]: "length (callerpcs st ebp n) = n"
  by (induction st ebp n rule: callerpcs.induct) auto

section \<open>The lock discipline of one processor\<close>

text \<open>
  \<open>mach_inv H m\<close>: the executing processor is known, it holds exactly the locks \<open>H\<close>,
  every other lock is free, its \<open>pushcli\<close> depth is the number of locks held, and
  interrupts are off while it holds one.  \<open>curproc m\<close> is its process.
\<close>

definition mach_inv :: "lockid set \<Rightarrow> mach \<Rightarrow> bool" where
  "mach_inv H m \<longleftrightarrow> finite H \<and> (\<exists>i. cpu_index m = Some i \<and>
     ncli (cpus m ! i) = int (card H) \<and> (H \<noteq> {} \<longrightarrow> \<not> iflag m) \<and>
     (\<forall>l. if l \<in> H then lk_locked (locks m l) = 1 \<and> lk_cpu (locks m l) = Some i
          else lk_locked (locks m l) = 0))"

definition curproc :: "mach \<Rightarrow> nat option" where
  "curproc m = (case cpu_index m of Some i \<Rightarrow> cproc (cpus m ! i) | None \<Rightarrow> None)"

text \<open>Which processor executes, and which process each processor runs.\<close>

definition ident :: "mach \<Rightarrow> nat \<times> nat list \<times> nat option list" where
  "ident m = (lapicid m, map apicid (cpus m), map cproc (cpus m))"

lemma findix_map: "findix P k (map f xs) = findix (\<lambda>x. P (f x)) k xs"
  by (induction xs arbitrary: k) auto

lemma cpu_index_ident: "cpu_index m = findix (\<lambda>a. a = fst (ident m)) 0 (fst (snd (ident m)))"
  by (simp add: cpu_index_def ident_def findix_map)

lemma ident_cong:
  assumes "ident m' = ident m"
  shows "cpu_index m' = cpu_index m" "curproc m' = curproc m"
proof -
  show i: "cpu_index m' = cpu_index m" using assms by (simp add: cpu_index_ident)
  have len: "length (cpus m') = length (cpus m)"
    using assms by (simp add: ident_def) (metis length_map)
  have "cproc (cpus m' ! j) = cproc (cpus m ! j)" if "j < length (cpus m)" for j
    using assms that len by (simp add: ident_def) (metis nth_map)
  with i show "curproc m' = curproc m"
    by (auto simp: curproc_def dest: cpu_index_Some split: option.splits)
qed

lemma ident_simps [simp]:
  "ident (m\<lparr>iflag := b\<rparr>) = ident m" "ident (upd_lock l g m) = ident m"
  "i < length (cpus m) \<Longrightarrow> apicid (f (cpus m ! i)) = apicid (cpus m ! i) \<Longrightarrow>
     cproc (f (cpus m ! i)) = cproc (cpus m ! i) \<Longrightarrow> ident (upd_cpu i f m) = ident m"
  by (simp_all add: ident_def upd_lock_def upd_cpu_def map_update list_update_same_conv)

lemma mach_invE:
  assumes "mach_inv H m"
  obtains i where "finite H" "cpu_index m = Some i" "i < length (cpus m)"
    "ncli (cpus m ! i) = int (card H)" "H \<noteq> {} \<Longrightarrow> \<not> iflag m" "curproc m = cproc (cpus m ! i)"
    "\<And>l. l \<in> H \<Longrightarrow> lk_locked (locks m l) = 1 \<and> lk_cpu (locks m l) = Some i"
    "\<And>l. l \<notin> H \<Longrightarrow> lk_locked (locks m l) = 0"
proof -
  from assms obtain i where "finite H" "cpu_index m = Some i"
    "ncli (cpus m ! i) = int (card H)" "H \<noteq> {} \<longrightarrow> \<not> iflag m"
    "\<forall>l. if l \<in> H then lk_locked (locks m l) = 1 \<and> lk_cpu (locks m l) = Some i
         else lk_locked (locks m l) = 0"
    unfolding mach_inv_def by blast
  with cpu_index_Some that show thesis by (auto simp: curproc_def)
qed

lemma acquire_wp:
  assumes "mach_inv H m" "l \<notin> H"
    and Q: "\<And>m'. mach_inv (insert l H) m' \<Longrightarrow> curproc m' = curproc m \<Longrightarrow> ident m' = ident m \<Longrightarrow> Q () m'"
  shows "wp (acquire l) Q m"
proof -
  obtain i where i: "finite H" "cpu_index m = Some i" "i < length (cpus m)"
    "ncli (cpus m ! i) = int (card H)" "curproc m = cproc (cpus m ! i)"
    "\<And>l. l \<in> H \<Longrightarrow> lk_locked (locks m l) = 1 \<and> lk_cpu (locks m l) = Some i"
    "\<And>l. l \<notin> H \<Longrightarrow> lk_locked (locks m l) = 0"
    using assms(1) by (rule mach_invE) blast
  show ?thesis
    unfolding acquire_def using assms(2) i
    apply (simp add: wp_pushcli holding_def xchg_locked_def wp_mycpu)
    apply (rule Q)
      apply (auto simp: mach_inv_def curproc_def)
    done
qed

lemma release_wp:
  assumes "mach_inv H m" "l \<in> H"
    and Q: "\<And>m'. mach_inv (H - {l}) m' \<Longrightarrow> curproc m' = curproc m \<Longrightarrow> ident m' = ident m \<Longrightarrow> Q () m'"
  shows "wp (release l) Q m"
proof -
  obtain i where i: "finite H" "cpu_index m = Some i" "i < length (cpus m)"
    "ncli (cpus m ! i) = int (card H)" "\<not> iflag m" "curproc m = cproc (cpus m ! i)"
    "\<And>l. l \<in> H \<Longrightarrow> lk_locked (locks m l) = 1 \<and> lk_cpu (locks m l) = Some i"
    "\<And>l. l \<notin> H \<Longrightarrow> lk_locked (locks m l) = 0"
    using assms(1) by (rule mach_invE) (use assms(2) in blast)
  have c: "0 < card H" using i(1) assms(2) by (auto simp: card_gt_0_iff)
  have c1: "card (H - {l}) = card H - 1" using i(1) assms(2) by simp
  have emp: "H - {l} \<noteq> {} \<Longrightarrow> card H \<noteq> 1"
    using c1 i(1) by (metis card_0_eq diff_self_eq_0 finite_Diff)
  show ?thesis
    unfolding release_def using assms(2) i c
    apply (simp add: holding_def wp_mycpu wp_popcli Let_def)
    apply (intro conjI impI; rule Q)
         apply (use c1 emp in \<open>auto simp: mach_inv_def curproc_def of_nat_diff cpu_index_def upd_cpu_def upd_lock_def ident_def map_update list_update_same_conv\<close>)
    done
qed

lemma myproc_wp:
  assumes "mach_inv H m"
    and Q: "\<And>m'. mach_inv H m' \<Longrightarrow> curproc m' = curproc m \<Longrightarrow> ident m' = ident m \<Longrightarrow> Q (curproc m) m'"
  shows "wp myproc Q m"
proof -
  obtain i where i: "finite H" "cpu_index m = Some i" "i < length (cpus m)"
    "ncli (cpus m ! i) = int (card H)" "H \<noteq> {} \<Longrightarrow> \<not> iflag m" "curproc m = cproc (cpus m ! i)"
    "\<And>l. l \<in> H \<Longrightarrow> lk_locked (locks m l) = 1 \<and> lk_cpu (locks m l) = Some i"
    "\<And>l. l \<notin> H \<Longrightarrow> lk_locked (locks m l) = 0"
    using assms(1) by (rule mach_invE) blast
  show ?thesis
    unfolding myproc_def using i
    apply (simp add: wp_pushcli wp_mycpu wp_popcli Let_def)
    apply (intro conjI impI; rule Q [unfolded i(6)])
       apply (auto simp: mach_inv_def curproc_def cpu_index_def upd_cpu_def ident_def map_update list_update_same_conv)
    done
qed


section \<open>The interface the other components use\<close>

text \<open>
  A lock provider: an invariant indexed by the set of locks held, a process identity
  the lock operations do not change, and the laws of \<open>acq\<close> and \<open>rel\<close>.  A critical
  section over such a provider returns with the locks it started with.
\<close>

locale lock_provider =
  fixes acq :: "'l \<Rightarrow> ('m, unit) kop"
    and rel :: "'l \<Rightarrow> ('m, unit) kop"
    and inv :: "'l set \<Rightarrow> 'm \<Rightarrow> bool"
    and who :: "'m \<Rightarrow> 'p"
  assumes acq: "inv H m \<Longrightarrow> l \<notin> H \<Longrightarrow>
      wp (acq l) (\<lambda>_ m'. inv (insert l H) m' \<and> who m' = who m) m"
    and rel: "inv H m \<Longrightarrow> l \<in> H \<Longrightarrow>
      wp (rel l) (\<lambda>_ m'. inv (H - {l}) m' \<and> who m' = who m) m"
begin

lemma critical:
  assumes "inv H m" "l \<notin> H"
    and "\<And>m'. inv (insert l H) m' \<Longrightarrow> who m' = who m \<Longrightarrow>
      wp body (\<lambda>r m''. inv (insert l H) m'' \<and> who m'' = who m \<and> P r) m'"
  shows "wp (seqK (acq l) (bindK body (\<lambda>r. seqK (rel l) (ret r))))
    (\<lambda>r m'. inv H m' \<and> who m' = who m \<and> P r) m"
  unfolding wp_bindK
proof (rule wp_mono [OF acq [OF assms(1,2)]])
  fix a :: unit and m1 assume m1: "inv (insert l H) m1 \<and> who m1 = who m"
  show "wp body (\<lambda>r. wp (rel l) (\<lambda>_. wp (ret r) (\<lambda>r m'. inv H m' \<and> who m' = who m \<and> P r))) m1"
  proof (rule wp_mono [OF assms(3)])
    fix r m2 assume m2: "inv (insert l H) m2 \<and> who m2 = who m \<and> P r"
    have "insert l H - {l} = H" using assms(2) by simp
    with rel [of "insert l H" m2 l] m2
    have "wp (rel l) (\<lambda>_ m'. inv H m' \<and> who m' = who m2) m2" by simp
    then show "wp (rel l) (\<lambda>_. wp (ret r) (\<lambda>r m'. inv H m' \<and> who m' = who m \<and> P r)) m2"
      by (rule wp_mono) (use m2 in simp)
  qed (use m1 in auto)
qed

end

interpretation spin: lock_provider acquire release mach_inv ident
proof unfold_locales
  fix H m l assume "mach_inv H m" "l \<notin> H"
  then show "wp (acquire l) (\<lambda>_ m'. mach_inv (insert l H) m' \<and> ident m' = ident m) m"
    by (rule acquire_wp) simp
next
  fix H m l assume "mach_inv H m" "l \<in> H"
  then show "wp (release l) (\<lambda>_ m'. mach_inv (H - {l}) m' \<and> ident m' = ident m) m"
    by (rule release_wp) simp
qed


text \<open>
  The base of the kernel state: every component extends it with its own globals.
  \<open>onm\<close> runs a processor routine on it.
\<close>

record kst =
  km :: mach

definition onm :: "(mach, 'a) kop \<Rightarrow> ('x kst_scheme, 'a) kop" where
  "onm m = zoom km (\<lambda>t s. s\<lparr>km := t\<rparr>) m"

lemma wp_onm [wps]: "wp (onm m) Q s \<longleftrightarrow> wp m (\<lambda>a t. Q a (s\<lparr>km := t\<rparr>)) (km s)"
  by (simp add: onm_def)

lemma acquire_onm:
  assumes "mach_inv H (km s)" "l \<notin> H"
    and "\<And>m'. mach_inv (insert l H) m' \<Longrightarrow> curproc m' = curproc (km s) \<Longrightarrow> ident m' = ident (km s) \<Longrightarrow> Q () (s\<lparr>km := m'\<rparr>)"
  shows "wp (onm (acquire l)) Q s"
  unfolding wp_onm by (rule acquire_wp [OF assms(1,2)]) (rule assms(3))

lemma release_onm:
  assumes "mach_inv H (km s)" "l \<in> H"
    and "\<And>m'. mach_inv (H - {l}) m' \<Longrightarrow> curproc m' = curproc (km s) \<Longrightarrow> ident m' = ident (km s) \<Longrightarrow> Q () (s\<lparr>km := m'\<rparr>)"
  shows "wp (onm (release l)) Q s"
  unfolding wp_onm by (rule release_wp [OF assms(1,2)]) (rule assms(3))

lemma myproc_onm:
  assumes "mach_inv H (km s)"
    and "\<And>m'. mach_inv H m' \<Longrightarrow> curproc m' = curproc (km s) \<Longrightarrow> ident m' = ident (km s) \<Longrightarrow> Q (curproc (km s)) (s\<lparr>km := m'\<rparr>)"
  shows "wp (onm myproc) Q s"
  unfolding wp_onm by (rule myproc_wp [OF assms(1)]) (rule assms(2))

text \<open>The same rules for routines that may switch away.\<close>

lemma acquire_x:
  assumes "mach_inv H (km s)" "l \<notin> H"
    and "\<And>m'. mach_inv (insert l H) m' \<Longrightarrow> curproc m' = curproc (km s) \<Longrightarrow> ident m' = ident (km s) \<Longrightarrow> Q () (s\<lparr>km := m'\<rparr>)"
  shows "wpx (onm (acquire l)) Q A s"
  by (rule wpx_wp, rule acquire_onm [OF assms(1,2)], rule assms(3))

lemma release_x:
  assumes "mach_inv H (km s)" "l \<in> H"
    and "\<And>m'. mach_inv (H - {l}) m' \<Longrightarrow> curproc m' = curproc (km s) \<Longrightarrow> ident m' = ident (km s) \<Longrightarrow> Q () (s\<lparr>km := m'\<rparr>)"
  shows "wpx (onm (release l)) Q A s"
  by (rule wpx_wp, rule release_onm [OF assms(1,2)], rule assms(3))

lemma myproc_x:
  assumes "mach_inv H (km s)"
    and "\<And>m'. mach_inv H m' \<Longrightarrow> curproc m' = curproc (km s) \<Longrightarrow> ident m' = ident (km s) \<Longrightarrow> Q (curproc (km s)) (s\<lparr>km := m'\<rparr>)"
  shows "wpx (onm myproc) Q A s"
  by (rule wpx_wp, rule myproc_onm [OF assms(1)], rule assms(2))

lemma wpx_onm_wp: "wp m (\<lambda>a t. Q a (s\<lparr>km := t\<rparr>)) (km s) \<Longrightarrow> wpx (onm m) Q A s"
  by (rule wpx_wp) (simp add: wp_onm)

section \<open>Nesting of pushcli and popcli\<close>

fun repeatK :: "nat \<Rightarrow> ('s, unit) kop \<Rightarrow> ('s, unit) kop" where
  "repeatK 0 m = ret ()"
| "repeatK (Suc n) m = seqK m (repeatK n m)"

text \<open>The state after \<open>n\<close> calls of \<open>pushcli\<close> on processor \<open>i\<close>.\<close>

definition pushed :: "nat \<Rightarrow> nat \<Rightarrow> mach \<Rightarrow> mach" where
  "pushed n i m = (if n = 0 then m else
     upd_cpu i (\<lambda>c. c\<lparr>intena := if ncli c = 0 then iflag m else intena c, ncli := ncli c + int n\<rparr>)
       (m\<lparr>iflag := False\<rparr>))"

lemma pushed_0 [simp]: "pushed 0 i m = m"
  by (simp add: pushed_def)

lemma pushed_step:
  assumes "cpu_index m = Some i" "ncli (cpus m ! i) \<ge> 0"
  shows "wp pushcli (\<lambda>_ m'. m' = pushed (Suc n) i m) (pushed n i m)"
proof (cases "n = 0")
  case True
  with assms show ?thesis by (simp add: wp_pushcli pushed_def)
next
  case False
  have i: "i < length (cpus m)" using cpu_index_Some [OF assms(1)] by simp
  with assms False show ?thesis
    by (subst wp_pushcli [where i = i]) (auto simp: pushed_def upd_cpu_def cpu_index_def algebra_simps)
qed

lemma repeat_pushcli:
  assumes "cpu_index m = Some i" "ncli (cpus m ! i) \<ge> 0"
  shows "wp (repeatK k pushcli) (\<lambda>_ m'. m' = pushed (n + k) i m) (pushed n i m)"
proof (induction k arbitrary: n)
  case 0
  then show ?case by simp
next
  case (Suc k)
  show ?case
    using Suc.IH [of "Suc n"] by (auto intro!: wp_mono [OF pushed_step [OF assms]])
qed

text \<open>\<open>m'\<close> is \<open>m\<close> up to the saved interrupt flag of processor \<open>i\<close>.\<close>

definition restored :: "nat \<Rightarrow> mach \<Rightarrow> mach \<Rightarrow> bool" where
  "restored i m m' \<longleftrightarrow> iflag m' = iflag m \<and> locks m' = locks m \<and>
     length (cpus m') = length (cpus m) \<and>
     (\<forall>j. ncli (cpus m' ! j) = ncli (cpus m ! j) \<and> cproc (cpus m' ! j) = cproc (cpus m ! j) \<and>
          (j \<noteq> i \<longrightarrow> cpus m' ! j = cpus m ! j))"

lemma pushed_pop:
  assumes "cpu_index m = Some i" "0 \<le> ncli (cpus m ! i)" "0 < ncli (cpus m ! i) \<Longrightarrow> \<not> iflag m"
  shows "wp popcli (\<lambda>_ m'. if n = 0 then restored i m m' else m' = pushed n i m) (pushed (Suc n) i m)"
proof -
  have i: "i < length (cpus m)" using cpu_index_Some [OF assms(1)] by simp
  show ?thesis
    using i assms
    by (subst wp_popcli [where i = i])
       (auto simp: pushed_def upd_cpu_def cpu_index_def Let_def restored_def nth_list_update
          algebra_simps)
qed

lemma repeat_popcli:
  assumes "cpu_index m = Some i" "0 \<le> ncli (cpus m ! i)" "0 < ncli (cpus m ! i) \<Longrightarrow> \<not> iflag m"
  shows "wp (repeatK k popcli) (\<lambda>_ m'. restored i m m') (pushed k i m)"
proof (induction k)
  case 0
  show ?case by (simp add: restored_def)
next
  case (Suc k)
  show ?case
    unfolding repeatK.simps wp_bindK
  proof (rule wp_mono [OF pushed_pop [OF assms]])
    fix a :: unit and m'
    assume "if k = 0 then restored i m m' else m' = pushed k i m"
    then show "wp (repeatK k popcli) (\<lambda>_ m'. restored i m m') m'"
      using Suc.IH by (cases "k = 0") auto
  qed
qed

section \<open>Multiprocessor interleavings\<close>

text \<open>
  Each processor is, for each lock, outside (\<open>Idle\<close>), spinning in \<open>acquire\<close>
  (\<open>Spin\<close>), past the winning exchange but before \<open>lk->cpu\<close> is written (\<open>Won\<close>),
  inside (\<open>Crit\<close>), or between the two stores of \<open>release\<close> (\<open>Rel\<close>).
\<close>

datatype phase = Idle | Spin | Won | Crit | Rel

record smp =
  sm_lk :: "lockid \<Rightarrow> spinlock"
  sm_ph :: "nat \<Rightarrow> lockid \<Rightarrow> phase"

definition smp_init :: smp where
  "smp_init = \<lparr>sm_lk = (\<lambda>_. \<lparr>lk_locked = 0, lk_name = [], lk_cpu = None, lk_pcs = replicate 10 0\<rparr>),
               sm_ph = (\<lambda>_ _. Idle)\<rparr>"

definition smp_holding :: "smp \<Rightarrow> nat \<Rightarrow> lockid \<Rightarrow> bool" where
  "smp_holding s i l \<longleftrightarrow> lk_locked (sm_lk s l) \<noteq> 0 \<and> lk_cpu (sm_lk s l) = Some i"

definition smp_set :: "smp \<Rightarrow> nat \<Rightarrow> lockid \<Rightarrow> phase \<Rightarrow> (spinlock \<Rightarrow> spinlock) \<Rightarrow> smp" where
  "smp_set s i l ph f = s\<lparr>sm_lk := (sm_lk s)(l := f (sm_lk s l)),
                          sm_ph := (sm_ph s)(i := (sm_ph s i)(l := ph))\<rparr>"

inductive smp_step :: "smp \<Rightarrow> smp \<Rightarrow> bool" where
  enter: "sm_ph s i l = Idle \<Longrightarrow> \<not> smp_holding s i l \<Longrightarrow> smp_step s (smp_set s i l Spin id)"
| spin: "sm_ph s i l = Spin \<Longrightarrow> fst (xchg_locked (sm_lk s l)) \<noteq> 0 \<Longrightarrow>
     smp_step s (smp_set s i l Spin (\<lambda>lk. snd (xchg_locked lk)))"
| win: "sm_ph s i l = Spin \<Longrightarrow> fst (xchg_locked (sm_lk s l)) = 0 \<Longrightarrow>
     smp_step s (smp_set s i l Won (\<lambda>lk. snd (xchg_locked lk)))"
| owner: "sm_ph s i l = Won \<Longrightarrow>
     smp_step s (smp_set s i l Crit (\<lambda>lk. lk\<lparr>lk_cpu := Some i, lk_pcs := pcs\<rparr>))"
| disown: "sm_ph s i l = Crit \<Longrightarrow> smp_holding s i l \<Longrightarrow>
     smp_step s (smp_set s i l Rel (\<lambda>lk. lk\<lparr>lk_pcs := (lk_pcs lk)[0 := 0], lk_cpu := None\<rparr>))"
| unlock: "sm_ph s i l = Rel \<Longrightarrow>
     smp_step s (smp_set s i l Idle (\<lambda>lk. lk\<lparr>lk_locked := 0\<rparr>))"

inductive smp_reach :: "smp \<Rightarrow> bool" where
  smp_start: "smp_reach smp_init"
| smp_next: "smp_reach s \<Longrightarrow> smp_step s t \<Longrightarrow> smp_reach t"

abbreviation inside :: "phase \<Rightarrow> bool" where
  "inside p \<equiv> p = Won \<or> p = Crit \<or> p = Rel"

text \<open>
  The invariant: at most one processor is inside for a lock, the lock word is set
  exactly then, and \<open>lk->cpu\<close> names a processor exactly while that one is \<open>Crit\<close>.
\<close>

definition owned_by :: "spinlock \<Rightarrow> (nat \<Rightarrow> phase) \<Rightarrow> nat option \<Rightarrow> bool" where
  "owned_by lk ph own \<longleftrightarrow> (\<forall>i. inside (ph i) \<longleftrightarrow> own = Some i) \<and>
     (lk_locked lk = 0 \<longleftrightarrow> own = None) \<and> (\<forall>i. lk_cpu lk = Some i \<longleftrightarrow> ph i = Crit)"

definition lock_ok :: "spinlock \<Rightarrow> (nat \<Rightarrow> phase) \<Rightarrow> bool" where
  "lock_ok lk ph \<longleftrightarrow> (\<exists>own. owned_by lk ph own)"

definition smp_inv :: "smp \<Rightarrow> bool" where
  "smp_inv s \<longleftrightarrow> (\<forall>l. lock_ok (sm_lk s l) (\<lambda>i. sm_ph s i l))"

lemma smp_set_simps [simp]:
  "sm_lk (smp_set s i l ph f) k = (if k = l then f (sm_lk s l) else sm_lk s k)"
  "(\<lambda>j. sm_ph (smp_set s i l ph f) j k) =
     (if k = l then (\<lambda>j. sm_ph s j l)(i := ph) else (\<lambda>j. sm_ph s j k))"
  by (auto simp: smp_set_def)

lemma lock_okI: "owned_by lk ph own \<Longrightarrow> lock_ok lk ph"
  unfolding lock_ok_def by blast

lemma lock_ok_quiet:
  assumes "lock_ok lk ph" "\<not> inside (ph i)" "\<not> inside p"
  shows "lock_ok lk (ph(i := p))"
proof -
  obtain own where "owned_by lk ph own" using assms(1) lock_ok_def by blast
  with assms(2,3) show ?thesis by (intro lock_okI [of _ _ own]) (auto simp: owned_by_def)
qed

lemma lock_ok_locked:
  assumes "lock_ok lk ph" "lk_locked lk \<noteq> 0"
  shows "lock_ok (lk\<lparr>lk_locked := Suc 0\<rparr>) ph"
  using assms unfolding lock_ok_def owned_by_def by simp

lemma lock_ok_win:
  assumes "lock_ok lk ph" "lk_locked lk = 0"
  shows "lock_ok (lk\<lparr>lk_locked := Suc 0\<rparr>) (ph(i := Won))"
  using assms by (intro lock_okI [of _ _ "Some i"]) (auto simp: lock_ok_def owned_by_def)

lemma lock_ok_inside:
  assumes "lock_ok lk ph" "inside (ph i)"
  shows "owned_by lk ph (Some i)"
proof -
  obtain own where "owned_by lk ph own" using assms(1) lock_ok_def by blast
  moreover from this assms(2) have "own = Some i" unfolding owned_by_def by blast
  ultimately show ?thesis by simp
qed

lemma lock_ok_owner:
  assumes "lock_ok lk ph" "ph i = Won"
  shows "lock_ok (lk\<lparr>lk_cpu := Some i, lk_pcs := pcs\<rparr>) (ph(i := Crit))"
  using lock_ok_inside [OF assms(1), of i] assms(2)
  by (intro lock_okI [of _ _ "Some i"]) (auto simp: owned_by_def)

lemma lock_ok_disown:
  assumes "lock_ok lk ph" "ph i = Crit"
  shows "lock_ok (lk\<lparr>lk_pcs := pcs, lk_cpu := None\<rparr>) (ph(i := Rel))"
  using lock_ok_inside [OF assms(1), of i] assms(2)
  by (intro lock_okI [of _ _ "Some i"]) (auto simp: owned_by_def)

lemma lock_ok_unlock:
  assumes "lock_ok lk ph" "ph i = Rel"
  shows "lock_ok (lk\<lparr>lk_locked := 0\<rparr>) (ph(i := Idle))"
  using lock_ok_inside [OF assms(1), of i] assms(2)
  by (intro lock_okI [of _ _ None]) (auto simp: owned_by_def)

lemmas lock_ok_steps = lock_ok_quiet lock_ok_locked lock_ok_win lock_ok_owner lock_ok_disown
  lock_ok_unlock

lemma smp_inv_init: "smp_inv smp_init"
  by (auto simp: smp_inv_def smp_init_def lock_ok_def owned_by_def)

lemma smp_step_inv: "smp_step s t \<Longrightarrow> smp_inv s \<Longrightarrow> smp_inv t"
  by (induction rule: smp_step.induct)
     (auto simp: smp_inv_def xchg_locked_def intro!: lock_ok_steps)

lemma smp_reach_inv: "smp_reach s \<Longrightarrow> smp_inv s"
  by (induction rule: smp_reach.induct) (auto intro: smp_inv_init smp_step_inv)


inductive_cases smp_stepE: "smp_step s t"

text \<open>
  The sequential \<open>acquire\<close> of an uncontended lock leaves the lock record the steps
  \<open>enter\<close>, \<open>win\<close>, \<open>owner\<close> of the interleaved view leave.
\<close>

lemma acquire_lock_effect:
  assumes "mach_inv H m" "l \<notin> H" "cpu_index m = Some i"
  shows "wp (acquire l) (\<lambda>_ m'. locks m' = (locks m)(l := (snd (xchg_locked (locks m l)))
           \<lparr>lk_cpu := Some i, lk_pcs := getcallerpcs (stackw m) (argp m)\<rparr>)) m"
proof -
  from assms have i: "i < length (cpus m)" "lk_locked (locks m l) = 0"
    by (auto elim!: mach_invE)
  then show ?thesis
    using assms(3)
    by (simp add: acquire_def wp_pushcli holding_def xchg_locked_def wp_mycpu)
       (simp add: upd_lock_def upd_cpu_def)
qed

lemma acquire_held_panics:
  assumes "mach_inv H m" "l \<in> H"
  shows "acquire l m = Panicked ''acquire''"
proof -
  from assms obtain i where i: "cpu_index m = Some i" "i < length (cpus m)"
    "lk_locked (locks m l) = 1" "lk_cpu (locks m l) = Some i"
    by (auto elim!: mach_invE)
  from wp_pushcli [OF i(1), of "\<lambda>_ m'. m' = upd_cpu i (\<lambda>c. c\<lparr>intena := if ncli c = 0 then iflag m
       else intena c, ncli := ncli c + 1\<rparr>) (m\<lparr>iflag := False\<rparr>)"]
  obtain m' where "pushcli m = Done () m'" "cpu_index m' = Some i" "\<not> iflag m'" "locks m' = locks m"
    using i(1,2) by (auto simp: wp_Done)
  with i show ?thesis
    by (simp add: acquire_def holding_def mycpu_def readeflags_IF_def monad_simps)
qed

lemma release_free_panics:
  assumes "mach_inv H m" "l \<notin> H"
  shows "release l m = Panicked ''release''"
proof -
  from assms have "lk_locked (locks m l) = 0" by (auto elim!: mach_invE)
  then show ?thesis by (simp add: release_def holding_def monad_simps)
qed

section \<open>Properties\<close>

text \<open>
  C1.  Mutual exclusion.  In every state the processors can reach by interleaving the
  memory accesses of \<open>acquire\<close> and \<open>release\<close>, at most one processor is between the
  winning exchange of a lock and the store that frees it, and \<open>holding\<close> is true on a
  processor exactly while it is inside its critical section.
\<close>

theorem spinlock_mutual_exclusion:
  assumes "smp_reach s"
  shows "(inside (sm_ph s i l) \<and> inside (sm_ph s j l) \<longrightarrow> i = j) \<and>
         (smp_holding s i l \<longleftrightarrow> sm_ph s i l = Crit)"
proof -
  have ok: "lock_ok (sm_lk s l) (\<lambda>i. sm_ph s i l)"
    using smp_reach_inv [OF assms(1)] by (simp add: smp_inv_def)
  then obtain own where "owned_by (sm_lk s l) (\<lambda>i. sm_ph s i l) own"
    unfolding lock_ok_def by blast
  then show ?thesis unfolding owned_by_def smp_holding_def by (metis option.inject not_None_eq)
qed

lemma smp_reach_won: "smp_reach (smp_set (smp_set smp_init 1 LkLog Spin id) 1 LkLog Won (\<lambda>lk. snd (xchg_locked lk)))"
proof (rule smp_next)
  show "smp_reach (smp_set smp_init 1 LkLog Spin id)"
    by (rule smp_next [OF smp_start], rule smp_step.enter) (simp_all add: smp_init_def smp_holding_def)
  show "smp_step (smp_set smp_init 1 LkLog Spin id)
     (smp_set (smp_set smp_init 1 LkLog Spin id) 1 LkLog Won (\<lambda>lk. snd (xchg_locked lk)))"
    by (rule smp_step.win) (simp_all add: smp_init_def smp_set_def xchg_locked_def)
qed

theorem spinlock_mutual_exclusion_witness:
  "\<exists>s. smp_reach s \<and> inside (sm_ph s 1 LkLog) \<and> (\<forall>j. inside (sm_ph s j LkLog) \<longrightarrow> 1 = j) \<and>
       \<not> smp_holding s 1 LkLog"
proof -
  let ?s = "smp_set (smp_set smp_init 1 LkLog Spin id) 1 LkLog Won (\<lambda>lk. snd (xchg_locked lk))"
  have "sm_ph ?s 1 LkLog = Won" by (simp add: smp_set_def)
  with spinlock_mutual_exclusion [OF smp_reach_won, of 1 LkLog] smp_reach_won show ?thesis
    by (intro exI [of _ ?s]) auto
qed


definition demo_mach :: "bool \<Rightarrow> mach" where
  "demo_mach on = \<lparr>lapicid = 3, cpus = [\<lparr>apicid = 7, ncli = 0, intena = False, cproc = None\<rparr>,
       \<lparr>apicid = 3, ncli = 0, intena = False, cproc = Some 0\<rparr>],
     iflag = on, locks = (\<lambda>_. \<lparr>lk_locked = 0, lk_name = [], lk_cpu = None, lk_pcs = []\<rparr>),
     stackw = (\<lambda>_. 0), argp = 0\<rparr>"

lemma demo_mach_index [simp]: "cpu_index (demo_mach b) = Some 1"
  by (simp add: cpu_index_def demo_mach_def)

lemma demo_mach_inv [simp]: "mach_inv {} (demo_mach b)"
  by (simp add: mach_inv_def) (simp add: demo_mach_def)

lemma demo_mach_curproc [simp]: "curproc (demo_mach b) = Some 0"
  by (simp add: curproc_def) (simp add: demo_mach_def)


text \<open>
  C3.  Lock discipline of one processor.  Holding exactly the locks \<open>H\<close>, a processor
  acquires a further free lock and releases it again, ending with exactly \<open>H\<close>, the same
  processes on the processors and the interrupt depth matching \<open>H\<close>; acquiring a lock it already holds and
  releasing one it does not hold panic with the messages of the source.
\<close>

theorem lock_discipline:
  assumes "mach_inv H m"
  shows "if l \<in> H then acquire l m = Panicked ''acquire''
         else wp (acquire l) (\<lambda>_ m'. mach_inv (insert l H) m' \<and> ident m' = ident m \<and>
                wp (release l) (\<lambda>_ m''. mach_inv H m'' \<and> ident m'' = ident m) m') m \<and>
              release l m = Panicked ''release''"
proof (cases "l \<in> H")
  case True
  with assms show ?thesis by (simp add: acquire_held_panics)
next
  case False
  then have "insert l H - {l} = H" by simp
  with False show ?thesis
    using spin.acq [OF assms False] release_free_panics [OF assms False]
    by (auto elim!: wp_mono dest: spin.rel [of "insert l H" _ l])
qed

theorem lock_discipline_witness:
  "wp (acquire LkLog) (\<lambda>_ m'. mach_inv {LkLog} m' \<and> ident m' = ident (demo_mach True) \<and>
     wp (release LkLog) (\<lambda>_ m''. mach_inv {} m'' \<and> ident m'' = ident (demo_mach True)) m') (demo_mach True) \<and>
   release LkLog (demo_mach True) = Panicked ''release''"
  using lock_discipline [OF demo_mach_inv, of LkLog True] by simp

end
