(* ===== verification/Layout.thy ===== *)
theory Layout
  imports Xv6_Base
begin

unbundle bit_operations_syntax

text \<open>
  Little-endian integers inside blocks, and the on-disk layout.  The header \<open>fs.h\<close>, which
  the sources include, is not among them: its constants, the \<open>IBLOCK\<close>/\<open>BBLOCK\<close> macros and
  the layouts of \<open>struct superblock\<close>, \<open>struct dinode\<close> and \<open>struct dirent\<close> are a parameter
  \<open>G\<close> of the definitions that use them, and \<open>fsh_ok G\<close> collects what the code relies
  on: the sizes fit and storing a structure and loading it again gives it back.  \<open>xv6_fsh\<close> is
  a concrete instance.
\<close>

section \<open>Integers in byte sequences\<close>

definition le32 :: "u32 \<Rightarrow> byte list" where
  "le32 x = [ucast x, ucast (drop_bit 8 x), ucast (drop_bit 16 x), ucast (drop_bit 24 x)]"

definition un32 :: "byte list \<Rightarrow> u32" where
  "un32 bs = ucast (bs ! 0) OR push_bit 8 (ucast (bs ! 1)) OR push_bit 16 (ucast (bs ! 2)) OR
     push_bit 24 (ucast (bs ! 3))"

definition get32 :: "nat \<Rightarrow> byte list \<Rightarrow> u32" where
  "get32 off bs = un32 [bs ! off, bs ! (off + 1), bs ! (off + 2), bs ! (off + 3)]"

definition put32 :: "nat \<Rightarrow> u32 \<Rightarrow> byte list \<Rightarrow> byte list" where
  "put32 off x bs = take off bs @ le32 x @ drop (off + 4) bs"

definition le16 :: "16 word \<Rightarrow> byte list" where
  "le16 x = [ucast x, ucast (drop_bit 8 x)]"

definition un16 :: "byte list \<Rightarrow> 16 word" where
  "un16 bs = ucast (bs ! 0) OR push_bit 8 (ucast (bs ! 1))"

lemma length_le [simp]: "length (le32 x) = 4" "length (le16 y) = 2"
  by (simp_all add: le32_def le16_def)

lemma un32_le32 [simp]: "un32 (le32 x) = x"
proof (rule bit_word_eqI)
  fix n assume "n < LENGTH(32)"
  then consider "n < 8" | "8 \<le> n" "n < 16" | "16 \<le> n" "n < 24" | "24 \<le> n" "n < 32" by fastforce
  then show "bit (un32 (le32 x)) n = bit x n"
    by cases (auto simp: un32_def le32_def bit_simps numeral_2_eq_2 numeral_3_eq_3)
qed

lemma un16_le16 [simp]: "un16 (le16 x) = x"
proof (rule bit_word_eqI)
  fix n assume "n < LENGTH(16)"
  then consider "n < 8" | "8 \<le> n" "n < 16" by fastforce
  then show "bit (un16 (le16 x)) n = bit x n"
    by cases (auto simp: un16_def le16_def bit_simps)
qed

lemma length_put32 [simp]: "off + 4 \<le> length bs \<Longrightarrow> length (put32 off x bs) = length bs"
  by (simp add: put32_def)

lemma put32_nth:
  "off + 4 \<le> length bs \<Longrightarrow> put32 off x bs ! i = (if off \<le> i \<and> i < off + 4 then le32 x ! (i - off) else bs ! i)"
  by (auto simp: put32_def nth_append)

lemma le32_nths: "[le32 x ! 0, le32 x ! Suc 0, le32 x ! 2, le32 x ! 3] = le32 x"
  by (simp add: le32_def numeral_3_eq_3 numeral_2_eq_2)

lemma get32_put32 [simp]: "off + 4 \<le> length bs \<Longrightarrow> get32 off (put32 off x bs) = x"
  by (simp add: get32_def put32_nth le32_nths)

lemma get32_put32_other:
  "off + 4 \<le> length bs \<Longrightarrow> a + 4 \<le> off \<or> off + 4 \<le> a \<Longrightarrow> get32 a (put32 off x bs) = get32 a bs"
  by (auto simp: get32_def put32_nth)

section \<open>The structures of fs.h\<close>

record superblock =
  sb_size :: nat
  sb_nblocks :: nat
  sb_ninodes :: nat
  sb_nlog :: nat
  sb_logstart :: nat
  sb_inodestart :: nat
  sb_bmapstart :: nat

record dinode =
  di_type :: int
  di_major :: int
  di_minor :: int
  di_nlink :: int
  di_size :: nat
  di_addrs :: "nat list"

record dirent =
  de_inum :: nat
  de_name :: "byte list"

record fsh =
  BSIZE :: nat
  NDIRECT :: nat
  NINDIRECT :: nat
  MAXFILE :: nat
  DIRSIZ :: nat
  ROOTINO :: nat
  IPB :: nat
  BPB :: nat
  IBLOCK :: "nat \<Rightarrow> superblock \<Rightarrow> nat"
  BBLOCK :: "nat \<Rightarrow> superblock \<Rightarrow> nat"
  DESZ :: nat
  sb_dec :: "byte list \<Rightarrow> superblock"
  din_get :: "byte list \<Rightarrow> nat \<Rightarrow> dinode"
  din_put :: "nat \<Rightarrow> dinode \<Rightarrow> byte list \<Rightarrow> byte list"
  de_enc :: "dirent \<Rightarrow> byte list"
  de_dec :: "byte list \<Rightarrow> dirent"

text \<open>Values that fit the C fields.\<close>

definition short_ok :: "int \<Rightarrow> bool" where
  "short_ok x \<longleftrightarrow> - 32768 \<le> x \<and> x < 32768"

definition dinode_ok :: "fsh \<Rightarrow> dinode \<Rightarrow> bool" where
  "dinode_ok G d \<longleftrightarrow> short_ok (di_type d) \<and> short_ok (di_major d) \<and> short_ok (di_minor d) \<and> short_ok (di_nlink d) \<and>
     di_size d < 2 ^ 32 \<and> length (di_addrs d) = NDIRECT G + 1 \<and> (\<forall>a \<in> set (di_addrs d). a < 2 ^ 32)"

definition dirent_ok :: "fsh \<Rightarrow> dirent \<Rightarrow> bool" where
  "dirent_ok G e \<longleftrightarrow> de_inum e < 65536 \<and> length (de_name e) = DIRSIZ G"

definition fsh_ok :: "fsh \<Rightarrow> bool" where
  "fsh_ok G \<longleftrightarrow> 124 < BSIZE G \<and> NINDIRECT G * 4 = BSIZE G \<and> MAXFILE G = NDIRECT G + NINDIRECT G \<and> 0 < IPB G \<and>
     BPB G = BSIZE G * 8 \<and> 0 < DESZ G \<and> 0 < DIRSIZ G \<and>
     (\<forall>i sb. IBLOCK G i sb = i div IPB G + sb_inodestart sb) \<and>
     (\<forall>b sb. BBLOCK G b sb = b div BPB G + sb_bmapstart sb) \<and>
     (\<forall>bs i. length bs = BSIZE G \<and> i < IPB G \<longrightarrow> dinode_ok G (din_get G bs i)) \<and>
     (\<forall>bs i d. length bs = BSIZE G \<and> i < IPB G \<and> dinode_ok G d \<longrightarrow>
        length (din_put G i d bs) = BSIZE G \<and>
        (\<forall>j < IPB G. din_get G (din_put G i d bs) j = (if j = i then d else din_get G bs j))) \<and>
     (\<forall>e. dirent_ok G e \<longrightarrow> length (de_enc G e) = DESZ G \<and> de_dec G (de_enc G e) = e) \<and>
     (\<forall>bs. length bs = DESZ G \<longrightarrow> dirent_ok G (de_dec G bs) \<and> de_enc G (de_dec G bs) = bs)"


section \<open>A concrete layout\<close>

definition un16s :: "byte list \<Rightarrow> int" where
  "un16s bs = sint (un16 bs)"

fun un32s :: "nat \<Rightarrow> byte list \<Rightarrow> nat list" where
  "un32s 0 bs = []"
| "un32s (Suc n) bs = unat (un32 (take 4 bs)) # un32s n (drop 4 bs)"

definition dinode_enc :: "dinode \<Rightarrow> byte list" where
  "dinode_enc d = le16 (word_of_int (di_type d)) @ le16 (word_of_int (di_major d)) @
     le16 (word_of_int (di_minor d)) @ le16 (word_of_int (di_nlink d)) @ le32 (of_nat (di_size d)) @
     concat (map (\<lambda>a. le32 (of_nat a)) (di_addrs d))"

definition dinode_dec :: "byte list \<Rightarrow> dinode" where
  "dinode_dec bs = \<lparr>di_type = un16s (take 2 bs), di_major = un16s (take 2 (drop 2 bs)),
     di_minor = un16s (take 2 (drop 4 bs)), di_nlink = un16s (take 2 (drop 6 bs)),
     di_size = unat (un32 (take 4 (drop 8 bs))), di_addrs = un32s 13 (drop 12 bs)\<rparr>"

definition xv6_fsh :: fsh where
  "xv6_fsh = \<lparr>BSIZE = 512, NDIRECT = 12, NINDIRECT = 128, MAXFILE = 140, DIRSIZ = 14, ROOTINO = 1,
     IPB = 8, BPB = 4096, IBLOCK = (\<lambda>i sb. i div 8 + sb_inodestart sb), BBLOCK = (\<lambda>b sb. b div 4096 + sb_bmapstart sb),
     DESZ = 16,
     sb_dec = (\<lambda>bs. let f = un32s 7 bs in \<lparr>sb_size = f ! 0, sb_nblocks = f ! 1, sb_ninodes = f ! 2, sb_nlog = f ! 3,
        sb_logstart = f ! 4, sb_inodestart = f ! 5, sb_bmapstart = f ! 6\<rparr>),
     din_get = (\<lambda>bs i. dinode_dec (take 64 (drop (64 * i) bs))),
     din_put = (\<lambda>i d bs. take (64 * i) bs @ dinode_enc d @ drop (64 * i + 64) bs),
     de_enc = (\<lambda>e. le16 (of_nat (de_inum e)) @ de_name e),
     de_dec = (\<lambda>bs. \<lparr>de_inum = unat (un16 (take 2 bs)), de_name = drop 2 bs\<rparr>)\<rparr>"

lemma un16s_le16: "short_ok x \<Longrightarrow> un16s (le16 (word_of_int x)) = x"
  by (simp add: un16s_def short_ok_def int_word_sint)

lemma un16s_short: "short_ok (un16s bs)"
  using sint_greater_eq [of "un16 bs"] sint_less [of "un16 bs"] by (simp add: un16s_def short_ok_def)

lemma unat_of_nat32: "n < 2 ^ 32 \<Longrightarrow> unat (of_nat n :: u32) = n"
  by (simp add: unat_of_nat take_bit_nat_eq_self)

lemma unat_of_nat16: "n < 65536 \<Longrightarrow> unat (of_nat n :: 16 word) = n"
  by (simp add: unat_of_nat take_bit_nat_eq_self)

lemma un32s_le32: "\<forall>a \<in> set as. a < 2 ^ 32 \<Longrightarrow> n = length as \<Longrightarrow>
    un32s n (concat (map (\<lambda>a. le32 (of_nat a)) as) @ rest) = as"
  by (induction as arbitrary: n) (simp_all add: unat_of_nat32)

lemma un32s_ok: "length (un32s n bs) = n" "\<forall>a \<in> set (un32s n bs). a < 2 ^ 32"
  by (induction n arbitrary: bs) auto

lemma length_concat_le32: "length (concat (map (\<lambda>a. le32 (f a)) as)) = 4 * length as"
  by (induction as) auto

lemma length_dinode_enc: "length (di_addrs d) = 13 \<Longrightarrow> length (dinode_enc d) = 64"
  by (simp add: dinode_enc_def length_concat_le32)

lemma dinode_roundtrip: "dinode_ok xv6_fsh d \<Longrightarrow> dinode_dec (dinode_enc d) = d"
  using un32s_le32 [of "di_addrs d" 13 "[]"]
  by (simp add: dinode_dec_def dinode_enc_def dinode_ok_def xv6_fsh_def un16s_le16 unat_of_nat32)

lemma dinode_dec_ok: "dinode_ok xv6_fsh (dinode_dec bs)"
  using un32s_ok by (simp add: dinode_ok_def dinode_dec_def xv6_fsh_def un16s_short)

lemma le16_un16: "length bs = 2 \<Longrightarrow> le16 (un16 bs) = bs"
proof -
  assume "length bs = 2"
  then obtain a b where bs: "bs = [a, b]" by (auto simp: length_Suc_conv numeral_2_eq_2)
  have "(ucast (ucast a OR push_bit 8 (ucast b :: 16 word) :: 16 word) :: byte) = a"
    by (rule bit_word_eqI) (auto simp: bit_simps)
  moreover have "(ucast (drop_bit 8 (ucast a OR push_bit 8 (ucast b :: 16 word) :: 16 word)) :: byte) = b"
    by (rule bit_word_eqI) (auto simp: bit_simps dest: bit_imp_le_length)
  ultimately show ?thesis by (simp add: bs un16_def le16_def)
qed

lemma take_drop_slot:
  assumes "length e = 64" "length bs = 512" "i < 8" "j < 8"
  shows "take 64 (drop (64 * j) (take (64 * i) bs @ e @ drop (64 * i + 64) bs)) =
    (if j = i then e else take 64 (drop (64 * j) bs))"
proof -
  consider "j = i" | "j < i" | "i < j" by linarith
  then show ?thesis
  proof cases
    case 2
    then have "64 * j + 64 \<le> 64 * i" "64 \<le> 64 * i - 64 * j" by simp_all
    with assms 2 show ?thesis by (simp add: drop_take min_def)
  next
    case 3
    then have "64 * i + 64 \<le> 64 * j" by simp
    with assms 3 show ?thesis by (simp add: min_def)
  qed (use assms in \<open>simp add: min_def\<close>)
qed

theorem xv6_fsh_ok: "fsh_ok xv6_fsh"
proof -
  have put: "length (din_put xv6_fsh i d bs) = 512 \<and>
      (\<forall>j < 8. din_get xv6_fsh (din_put xv6_fsh i d bs) j = (if j = i then d else din_get xv6_fsh bs j))"
    if "length bs = 512" "i < 8" "dinode_ok xv6_fsh d" for bs i d
  proof -
    have e: "length (dinode_enc d) = 64" using that(3) by (intro length_dinode_enc) (simp add: dinode_ok_def xv6_fsh_def)
    with that show ?thesis
      using take_drop_slot [OF e that(1,2)] dinode_roundtrip [OF that(3)] by (simp add: xv6_fsh_def min_def)
  qed
  have get: "dinode_ok xv6_fsh (din_get xv6_fsh bs i)" for bs i
    using dinode_dec_ok by (simp add: xv6_fsh_def)
  have de: "length (de_enc xv6_fsh e) = 16 \<and> de_dec xv6_fsh (de_enc xv6_fsh e) = e" if "dirent_ok xv6_fsh e" for e
    using that by (simp add: xv6_fsh_def dirent_ok_def unat_of_nat16)
  have ed: "dirent_ok xv6_fsh (de_dec xv6_fsh bs) \<and> de_enc xv6_fsh (de_dec xv6_fsh bs) = bs" if "length bs = 16" for bs
    using that le16_un16 [of "take 2 bs"] unsigned_less [of "un16 (take 2 bs)", where ?'a = nat]
    by (simp add: xv6_fsh_def dirent_ok_def)
  show ?thesis
    unfolding fsh_ok_def using put get de ed by (auto simp: xv6_fsh_def)
qed

end
