(* ===== verification/Kalloc.thy ===== *)
theory Kalloc
  imports Spinlock Layout
begin

unbundle bit_operations_syntax

text \<open>
  The physical page allocator (\<open>kalloc.c\<close>).  Memory is a function from the kernel virtual address of
  a page to its 4096 bytes.  The free list is where the code has it: \<open>freelist\<close> is the address of the
  first free page and the first word of a free page is the address of the next.  \<open>kend\<close> is the linker
  symbol \<open>end\<close>, \<open>kdata\<close> the linker symbol \<open>data\<close>.

  The list in memory is shown to represent a list of distinct pages: \<open>kalloc\<close> takes the first,
  \<open>kfree\<close> puts its page in front, and the two initialisation phases leave exactly the pages of their
  ranges free.
\<close>

section \<open>Constants and state\<close>

definition PGSIZE :: u32 where [param_defs]: "PGSIZE = 4096"

definition PHYSTOP :: u32 where [param_defs]: "PHYSTOP = 0xE000000"

definition EXTMEM :: u32 where [param_defs]: "EXTMEM = 0x100000"

definition V2P :: "u32 \<Rightarrow> u32" where
  "V2P a = a - KERNBASE"

definition P2V :: "u32 \<Rightarrow> u32" where
  "P2V a = a + KERNBASE"

definition PGROUNDUP :: "u32 \<Rightarrow> u32" where
  "PGROUNDUP sz = (sz + PGSIZE - 1) AND NOT (PGSIZE - 1)"

definition PGROUNDDOWN :: "u32 \<Rightarrow> u32" where
  "PGROUNDDOWN a = a AND NOT (PGSIZE - 1)"

record mem_st = kst +
  ram :: "u32 \<Rightarrow> byte list"
  freelist :: u32
  use_lock :: bool
  kend :: u32
  kdata :: u32

lemma mem_km_last [simp]:
  "ram_update f (km_update g s) = km_update g (ram_update f s)"
  "freelist_update f' (km_update g s) = km_update g (freelist_update f' s)"
  "use_lock_update h (km_update g s) = km_update g (use_lock_update h s)"
  "kend_update k (km_update g s) = km_update g (kend_update k s)"
  "kdata_update k (km_update g s) = km_update g (kdata_update k s)"
  by (cases s; simp)+

section \<open>Operations\<close>

definition kmem_lock :: "('x mem_st_scheme, unit) kop" where
  "kmem_lock = bindK (gets use_lock) (\<lambda>u. whenK u (onm (acquire LkKmem)))"

definition kmem_unlock :: "('x mem_st_scheme, unit) kop" where
  "kmem_unlock = bindK (gets use_lock) (\<lambda>u. whenK u (onm (release LkKmem)))"

definition kfree :: "u32 \<Rightarrow> ('x mem_st_scheme, unit) kop" where
  "kfree v = bindK (gets (\<lambda>s. v mod PGSIZE \<noteq> 0 \<or> v < kend s \<or> V2P v \<ge> PHYSTOP)) (\<lambda>bad.
     if bad then panic ''kfree''
     else seqK (modify (\<lambda>s. s\<lparr>ram := (ram s)(v := replicate 4096 1)\<rparr>)) (
          seqK kmem_lock (
          seqK (modify (\<lambda>s. s\<lparr>ram := (ram s)(v := put32 0 (freelist s) (ram s v))\<rparr>)) (
          seqK (modify (\<lambda>s. s\<lparr>freelist := v\<rparr>))
          kmem_unlock))))"

definition kalloc :: "('x mem_st_scheme, u32) kop" where
  "kalloc = seqK kmem_lock (
     bindK (gets freelist) (\<lambda>r.
     seqK (whenK (r \<noteq> 0) (modify (\<lambda>s. s\<lparr>freelist := get32 0 (ram s r)\<rparr>))) (
     seqK kmem_unlock
     (ret r))))"

text \<open>The loop of \<open>freerange\<close> on the addresses \<open>p\<close> with \<open>p + PGSIZE <= vend\<close>.\<close>

function freerange_from :: "u32 \<Rightarrow> u32 \<Rightarrow> ('x mem_st_scheme, unit) kop" where
  "freerange_from p vend =
     (if unat p + 4096 \<le> unat vend then seqK (kfree p) (freerange_from (p + PGSIZE) vend) else ret ())"
  by pat_completeness auto
termination
proof (relation "measure (\<lambda>(p, vend). unat vend - unat p)")
  fix p vend :: u32 and s s' :: "'x mem_st_scheme" and a :: unit
  assume le: "unat p + 4096 \<le> unat vend"
  have "unat p + 4096 < 4294967296" by (rule le_less_trans [OF le unat_u32_bound])
  then have "unat (p + PGSIZE) = unat p + 4096" by (simp add: PGSIZE_def unat_word_ariths(1))
  with le show "((p + PGSIZE, vend), p, vend) \<in> measure (\<lambda>(p, vend). unat vend - unat p)" by simp
qed simp

declare freerange_from.simps [simp del]

definition freerange :: "u32 \<Rightarrow> u32 \<Rightarrow> ('x mem_st_scheme, unit) kop" where
  "freerange vstart vend = freerange_from (PGROUNDUP vstart) vend"

definition kinit1 :: "u32 \<Rightarrow> u32 \<Rightarrow> ('x mem_st_scheme, unit) kop" where
  "kinit1 vstart vend = seqK (onm (initlock LkKmem ''kmem'')) (
     seqK (modify (\<lambda>s. s\<lparr>use_lock := False\<rparr>)) (freerange vstart vend))"

definition kinit2 :: "u32 \<Rightarrow> u32 \<Rightarrow> ('x mem_st_scheme, unit) kop" where
  "kinit2 vstart vend = seqK (freerange vstart vend) (modify (\<lambda>s. s\<lparr>use_lock := True\<rparr>))"

section \<open>The free list\<close>

fun flist :: "(u32 \<Rightarrow> byte list) \<Rightarrow> u32 \<Rightarrow> u32 list \<Rightarrow> bool" where
  "flist m h [] \<longleftrightarrow> h = 0"
| "flist m h (x # xs) \<longleftrightarrow> h = x \<and> x \<noteq> 0 \<and> flist m (get32 0 (m x)) xs"

definition page_ok :: "u32 \<Rightarrow> u32 \<Rightarrow> bool" where
  "page_ok e v \<longleftrightarrow> v mod PGSIZE = 0 \<and> e \<le> v \<and> V2P v < PHYSTOP"

definition kmem_inv :: "u32 list \<Rightarrow> 'x mem_st_scheme \<Rightarrow> bool" where
  "kmem_inv xs s \<longleftrightarrow> flist (ram s) (freelist s) xs \<and> distinct xs \<and> 0 < kend s \<and> (\<forall>x \<in> set xs. page_ok (kend s) x)"

lemma kmem_inv_km [simp]: "kmem_inv xs (km_update f s) = kmem_inv xs s"
  by (simp add: kmem_inv_def)

lemma flist_upd [simp]: "v \<notin> set xs \<Longrightarrow> flist (m(v := d)) h xs = flist m h xs"
  by (induction xs arbitrary: h) auto

lemma page_ok_nz: "page_ok e v \<Longrightarrow> 0 < e \<Longrightarrow> v \<noteq> 0"
  by (auto simp: page_ok_def)

text \<open>A page after \<open>kfree\<close>: junk, with the link in its first word.\<close>

definition freed :: "u32 \<Rightarrow> 'x mem_st_scheme \<Rightarrow> 'x mem_st_scheme" where
  "freed v s = s\<lparr>ram := (ram s)(v := put32 0 (freelist s) (replicate 4096 1)), freelist := v\<rparr>"

lemma freed_inv:
  assumes "kmem_inv xs s" "page_ok (kend s) v" "v \<notin> set xs"
  shows "kmem_inv (v # xs) (freed v s)"
  using assms by (auto simp: kmem_inv_def freed_def page_ok_nz)

lemma kmem_lock_wp:
  assumes "mach_inv H (km s)" "use_lock s \<longrightarrow> LkKmem \<notin> H"
    and "\<And>m'. mach_inv (if use_lock s then insert LkKmem H else H) m' \<Longrightarrow> curproc m' = curproc (km s) \<Longrightarrow> ident m' = ident (km s) \<Longrightarrow> Q () (s\<lparr>km := m'\<rparr>)"
  shows "wp kmem_lock Q s"
  using assms(1,2) assms(3) [of "km s"] unfolding kmem_lock_def by (auto intro!: acquire_onm [OF assms(1)] assms(3))

lemma kmem_unlock_wp:
  assumes "mach_inv (if use_lock s then insert LkKmem H else H) (km s)" "use_lock s \<longrightarrow> LkKmem \<notin> H"
    and "\<And>m'. mach_inv H m' \<Longrightarrow> curproc m' = curproc (km s) \<Longrightarrow> ident m' = ident (km s) \<Longrightarrow> Q () (s\<lparr>km := m'\<rparr>)"
  shows "wp kmem_unlock Q s"
proof (cases "use_lock s")
  case True
  have "mach_inv (insert LkKmem H) (km s)" using assms(1) True by simp
  then show ?thesis unfolding kmem_unlock_def using True assms(2) by (auto intro!: release_onm [of "insert LkKmem H"] assms(3))
next
  case False
  then show ?thesis unfolding kmem_unlock_def using assms(1) assms(3) [of "km s"] by simp
qed

lemma kfree_wp:
  assumes "mach_inv H (km s)" "use_lock s \<longrightarrow> LkKmem \<notin> H" "page_ok (kend s) v"
    and Q: "\<And>m'. mach_inv H m' \<Longrightarrow> curproc m' = curproc (km s) \<Longrightarrow> ident m' = ident (km s) \<Longrightarrow> Q () ((freed v s)\<lparr>km := m'\<rparr>)"
  shows "wp (kfree v) Q s"
  unfolding kfree_def wp_bindK wp_gets
  using assms(2,3)
  by (simp add: page_ok_def not_le not_less)
     (rule kmem_lock_wp [of H], use assms(1) in simp, simp, simp,
      rule kmem_unlock_wp [of _ H], use Q [unfolded freed_def] in simp_all)

text \<open>The state after \<open>kalloc\<close> took the first page.\<close>

definition taken :: "'x mem_st_scheme \<Rightarrow> 'x mem_st_scheme" where
  "taken s = (if freelist s = 0 then s else s\<lparr>freelist := get32 0 (ram s (freelist s))\<rparr>)"

lemma kalloc_wp:
  assumes "mach_inv H (km s)" "use_lock s \<longrightarrow> LkKmem \<notin> H"
    and Q: "\<And>m'. mach_inv H m' \<Longrightarrow> curproc m' = curproc (km s) \<Longrightarrow> ident m' = ident (km s) \<Longrightarrow> Q (freelist s) ((taken s)\<lparr>km := m'\<rparr>)"
  shows "wp kalloc Q s"
proof -
  have Q0: "Q 0 (s\<lparr>km := m'\<rparr>)" if "freelist s = 0" "mach_inv H m'" "curproc m' = curproc (km s)" "ident m' = ident (km s)" for m'
    using Q [of m'] that by (simp add: taken_def)
  have Q1: "Q (freelist s) (s\<lparr>freelist := get32 0 (ram s (freelist s)), km := m'\<rparr>)"
    if "freelist s \<noteq> 0" "mach_inv H m'" "curproc m' = curproc (km s)" "ident m' = ident (km s)" for m'
    using Q [of m'] that by (simp add: taken_def)
  show ?thesis
    unfolding kalloc_def wp_bindK wp_gets
    using assms(2) by (intro kmem_lock_wp [OF assms(1)]) (auto intro!: kmem_unlock_wp [of _ H] Q0 Q1 split: if_splits)
qed

lemma taken_inv: "kmem_inv xs s \<Longrightarrow> kmem_inv (tl xs) (taken s)"
  by (cases xs) (auto simp: kmem_inv_def taken_def)

lemma kmem_head: "kmem_inv xs s \<Longrightarrow> freelist s = (case xs of [] \<Rightarrow> 0 | x # _ \<Rightarrow> x)"
  by (cases xs) (auto simp: kmem_inv_def)

lemma taken_simps [simp]:
  "km (taken s) = km s" "ram (taken s) = ram s" "kend (taken s) = kend s" "kdata (taken s) = kdata s" "use_lock (taken s) = use_lock s"
  "mem_st.more (taken s) = mem_st.more s"
  by (simp_all add: taken_def)

lemma freed_simps [simp]:
  "km (freed v s) = km s" "ram (freed v s) = (ram s)(v := put32 0 (freelist s) (replicate 4096 1))"
  "kend (freed v s) = kend s" "use_lock (freed v s) = use_lock s" "mem_st.more (freed v s) = mem_st.more s"
  by (simp_all add: freed_def)

section \<open>Page arithmetic\<close>

lemma unat_PGROUNDDOWN: "unat (PGROUNDDOWN a) = unat a div 4096 * 4096"
proof -
  have "PGROUNDDOWN a = push_bit 12 (drop_bit 12 a)"
  proof -
    have m: "(PGSIZE - 1 :: u32) = mask 12" by (simp add: PGSIZE_def mask_eq_exp_minus_1)
    show ?thesis unfolding PGROUNDDOWN_def m by (rule bit_word_eqI) (auto simp: bit_simps)
  qed
  also have "\<dots> = drop_bit 12 a * 4096" by (simp add: push_bit_eq_mult)
  finally have "PGROUNDDOWN a = drop_bit 12 a * 4096" .
  moreover have "unat (drop_bit 12 a) = unat a div 4096" by (simp add: drop_bit_eq_div unat_div_distrib)
  moreover have "unat a div 4096 * 4096 < 4294967296" using unat_u32_bound [of a] div_times_less_eq_dividend [of "unat a" 4096] by linarith
  ultimately show ?thesis by (simp add: unat_word_ariths(2))
qed

lemma mod_PGSIZE: "(a :: u32) mod PGSIZE = 0 \<longleftrightarrow> 4096 dvd unat a"
proof -
  have "unat (a mod PGSIZE) = unat a mod 4096" by (simp add: PGSIZE_def unat_mod_distrib)
  then show ?thesis by (simp add: word_unat_eq_iff dvd_eq_mod_eq_0)
qed

lemma PGROUNDUP_bounds:
  assumes "unat a + 4095 < 2 ^ 32"
  shows "PGROUNDUP a mod PGSIZE = 0" "unat a \<le> unat (PGROUNDUP a)" "unat (PGROUNDUP a) < unat a + 4096"
proof -
  have "a + PGSIZE - 1 = a + 4095" by (simp add: PGSIZE_def)
  then have "PGROUNDUP a = PGROUNDDOWN (a + 4095)" unfolding PGROUNDUP_def PGROUNDDOWN_def by (rule arg_cong)
  moreover have "unat (a + 4095) = unat a + 4095" using assms by (simp add: unat_word_ariths(1))
  ultimately have u: "unat (PGROUNDUP a) = (unat a + 4095) div 4096 * 4096" by (simp add: unat_PGROUNDDOWN)
  then show "PGROUNDUP a mod PGSIZE = 0" by (simp add: mod_PGSIZE)
  show "unat a \<le> unat (PGROUNDUP a)" "unat (PGROUNDUP a) < unat a + 4096"
    unfolding u using div_mult_mod_eq [of "unat a + 4095" 4096] mod_less_divisor [of 4096 "unat a + 4095"] by linarith+
qed

text \<open>The pages \<open>freerange\<close> frees.\<close>

definition pages_in :: "u32 \<Rightarrow> u32 \<Rightarrow> u32 set" where
  "pages_in p e = {v. v mod PGSIZE = 0 \<and> p \<le> v \<and> unat v + 4096 \<le> unat e}"

lemma pages_in_step:
  assumes "p mod PGSIZE = 0" "unat p + 4096 \<le> unat e"
  shows "pages_in p e = insert p (pages_in (p + PGSIZE) e)" "p \<notin> pages_in (p + PGSIZE) e"
    "(p + PGSIZE) mod PGSIZE = 0" "unat (p + PGSIZE) = unat p + 4096"
proof -
  have "unat p + 4096 < 4294967296" by (rule le_less_trans [OF assms(2) unat_u32_bound])
  then show u: "unat (p + PGSIZE) = unat p + 4096" by (simp add: PGSIZE_def unat_word_ariths(1))
  then show "(p + PGSIZE) mod PGSIZE = 0" "p \<notin> pages_in (p + PGSIZE) e"
    using assms(1) by (simp_all add: mod_PGSIZE pages_in_def word_le_nat_alt)
  have "unat p + 4096 \<le> unat v" if "4096 dvd unat v" "unat p \<le> unat v" "unat v \<noteq> unat p" for v :: u32
  proof -
    have "4096 dvd unat v - unat p" using that(1) assms(1) by (simp add: mod_PGSIZE dvd_diff_nat)
    moreover have "0 < unat v - unat p" using that by simp
    ultimately have "4096 \<le> unat v - unat p" by (rule dvd_imp_le)
    then show ?thesis by simp
  qed
  note far = this
  show "pages_in p e = insert p (pages_in (p + PGSIZE) e)"
  proof (rule set_eqI)
    fix v
    show "v \<in> pages_in p e \<longleftrightarrow> v \<in> insert p (pages_in (p + PGSIZE) e)"
      using far [of v] assms u word_unat_eq_iff [of v p]
      by (auto simp: pages_in_def mod_PGSIZE word_le_nat_alt simp del: word_unat_eq_iff)
  qed
qed

lemma freerange_from_wp:
  assumes "mach_inv H (km s)" "use_lock s \<longrightarrow> LkKmem \<notin> H" "kmem_inv xs s" "p mod PGSIZE = 0" "kend s \<le> p"
    and "\<forall>v \<in> pages_in p e. V2P v < PHYSTOP \<and> v \<notin> set xs"
  shows "wp (freerange_from p e) (\<lambda>_ t. \<exists>ys. kmem_inv ys t \<and> set ys = set xs \<union> pages_in p e \<and>
     mach_inv H (km t) \<and> use_lock t = use_lock s \<and> kend t = kend s) s"
  using assms
proof (induction p e arbitrary: xs s rule: freerange_from.induct)
  case (1 p e)
  show ?case
  proof (cases "unat p + 4096 \<le> unat e")
    case True
    note st = pages_in_step [OF "1.prems"(4) True]
    have pin: "p \<in> pages_in p e" using st(1) by simp
    have ok: "page_ok (kend s) p" using "1.prems"(4-6) pin by (simp add: page_ok_def)
    have ge: "kend s \<le> p + PGSIZE" using "1.prems"(5) st(4) by (simp add: word_le_nat_alt)
    have "wp (kfree p) (\<lambda>_. wp (freerange_from (p + PGSIZE) e) (\<lambda>_ t. \<exists>ys. kmem_inv ys t \<and> set ys = set xs \<union> pages_in p e \<and>
       mach_inv H (km t) \<and> use_lock t = use_lock s \<and> kend t = kend s)) s"
    proof (rule kfree_wp [OF "1.prems"(1,2) ok])
      fix m' assume m: "mach_inv H m'"
      have inv: "kmem_inv (p # xs) ((freed p s)\<lparr>km := m'\<rparr>)"
        using freed_inv [OF "1.prems"(3) ok] "1.prems"(6) pin by simp
      show "wp (freerange_from (p + PGSIZE) e) (\<lambda>_ t. \<exists>ys. kmem_inv ys t \<and> set ys = set xs \<union> pages_in p e \<and>
         mach_inv H (km t) \<and> use_lock t = use_lock s \<and> kend t = kend s) ((freed p s)\<lparr>km := m'\<rparr>)"
        by (rule wp_mono [OF "1.IH" [OF True _ _ inv]])
           (use m "1.prems" st ge in \<open>auto simp: freed_def\<close>)
    qed
    then show ?thesis using True by (subst freerange_from.simps) simp
  next
    case False
    then have "pages_in p e = {}" by (auto simp: pages_in_def word_le_nat_alt)
    with False "1.prems" show ?thesis by (subst freerange_from.simps) auto
  qed
qed

section \<open>The allocator as an interface\<close>

text \<open>Repeated allocation, as the builders of page tables and address spaces use it.\<close>

fun alloc_many :: "('s, u32) kop \<Rightarrow> nat \<Rightarrow> ('s, u32 list) kop" where
  "alloc_many alloc 0 = ret []"
| "alloc_many alloc (Suc n) = bindK alloc (\<lambda>r. bindK (alloc_many alloc n) (\<lambda>rs. ret (r # rs)))"

locale page_allocator =
  fixes alloc :: "('s, u32) kop" and free :: "u32 \<Rightarrow> ('s, unit) kop"
    and avail :: "u32 list \<Rightarrow> 's \<Rightarrow> bool" and page :: "'s \<Rightarrow> u32 \<Rightarrow> bool"
  assumes alloc_law: "avail xs s \<Longrightarrow> wp alloc (\<lambda>r t. r = (if xs = [] then 0 else hd xs) \<and> avail (tl xs) t \<and> page t = page s) s"
    and free_law: "avail xs s \<Longrightarrow> page s v \<Longrightarrow> v \<notin> set xs \<Longrightarrow> wp (free v) (\<lambda>_ t. avail (v # xs) t \<and> page t = page s) s"
    and avail_ok: "avail xs s \<Longrightarrow> distinct xs \<and> 0 \<notin> set xs \<and> (\<forall>x \<in> set xs. page s x)"
begin

lemma alloc_many_take:
  "avail xs s \<Longrightarrow> wp (alloc_many alloc n) (\<lambda>rs t. rs = take n xs @ replicate (n - length xs) 0 \<and> avail (drop n xs) t \<and> page t = page s) s"
proof (induction n arbitrary: xs s)
  case (Suc n)
  show ?case unfolding alloc_many.simps wp_bindK
  proof (rule wp_mono [OF alloc_law [OF Suc.prems]])
    fix r t assume r: "r = (if xs = [] then 0 else hd xs) \<and> avail (tl xs) t \<and> page t = page s"
    then have t: "avail (tl xs) t" by simp
    show "wp (alloc_many alloc n) (\<lambda>rs. wp (ret (r # rs)) (\<lambda>rs t. rs = take (Suc n) xs @ replicate (Suc n - length xs) 0 \<and>
        avail (drop (Suc n) xs) t \<and> page t = page s)) t"
      by (rule wp_mono [OF Suc.IH [OF t]]) (use r in \<open>cases xs; auto\<close>)
  qed
qed simp

lemma free_then_alloc:
  assumes "avail xs s" "page s v" "v \<notin> set xs"
  shows "wp (seqK (free v) alloc) (\<lambda>r t. r = v \<and> avail xs t) s"
  unfolding wp_bindK
proof (rule wp_mono [OF free_law [OF assms]])
  fix a t assume "avail (v # xs) t \<and> page t = page s"
  then show "wp alloc (\<lambda>r t. r = v \<and> avail xs t) t" by (intro wp_mono [OF alloc_law [of "v # xs" t]]) auto
qed

lemma never_twice:
  assumes "avail xs s"
  shows "wp (alloc_many alloc n) (\<lambda>rs t. rs = take n xs @ replicate (n - length xs) 0 \<and>
     distinct (filter (\<lambda>r. r \<noteq> 0) rs) \<and> avail (drop n xs) t \<and> set (drop n xs) \<inter> set rs = {}) s"
proof -
  have x: "distinct xs" "0 \<notin> set xs" using avail_ok [OF assms] by auto
  then have "0 \<notin> set (take n xs)" "0 \<notin> set (drop n xs)" by (meson in_set_takeD in_set_dropD)+
  moreover from this have "filter (\<lambda>r. r \<noteq> 0) (take n xs) = take n xs" by (auto simp: filter_id_conv)
  ultimately show ?thesis
    using set_take_disj_set_drop_if_distinct [OF x(1), of n n] x(1)
    by (intro wp_mono [OF alloc_many_take [OF assms, of n]]) auto
qed

end

text \<open>The allocator with no lock held.\<close>

definition kpages :: "u32 list \<Rightarrow> 'x mem_st_scheme \<Rightarrow> bool" where
  "kpages xs s \<longleftrightarrow> kmem_inv xs s \<and> mach_inv {} (km s)"

interpretation kp: page_allocator kalloc kfree kpages "\<lambda>s. page_ok (kend s)"
proof
  fix xs and s :: "'x mem_st_scheme" assume a: "kpages xs s"
  then have inv: "kmem_inv xs s" "mach_inv {} (km s)" by (auto simp: kpages_def)
  show "wp kalloc (\<lambda>r t. r = (if xs = [] then 0 else hd xs) \<and> kpages (tl xs) t \<and> page_ok (kend t) = page_ok (kend s)) s"
    by (rule kalloc_wp [OF inv(2)]) (use taken_inv [OF inv(1)] kmem_head [OF inv(1)] in \<open>auto simp: kpages_def split: list.splits\<close>)
  show "distinct xs \<and> 0 \<notin> set xs \<and> (\<forall>x \<in> set xs. page_ok (kend s) x)"
    using inv(1) page_ok_nz by (auto simp: kmem_inv_def)
  fix v assume v: "page_ok (kend s) v" "v \<notin> set xs"
  show "wp (kfree v) (\<lambda>_ t. kpages (v # xs) t \<and> page_ok (kend t) = page_ok (kend s)) s"
    by (rule kfree_wp [OF inv(2) _ v(1)]) (use freed_inv [OF inv(1) v] in \<open>auto simp: kpages_def\<close>)
qed

section \<open>Properties\<close>

text \<open>
  C18.  No page is handed out twice: the non-null results of any number of \<open>kalloc\<close> calls are distinct
  pages that were free, and the pages still free are \<open>kmem_inv\<close>'s list without them; with
  the list empty \<open>kalloc\<close> returns 0.
\<close>

theorem kalloc_distinct:
  assumes "kpages xs s"
  shows "wp (alloc_many kalloc n) (\<lambda>rs t. rs = take n xs @ replicate (n - length xs) 0 \<and>
     distinct (filter (\<lambda>r. r \<noteq> 0) rs) \<and> kpages (drop n xs) t \<and> set (drop n xs) \<inter> set rs = {}) s"
  by (rule kp.never_twice [OF assms])

text \<open>A kernel that ends at \<open>0x80200000\<close> and has one page free.\<close>

definition mem0 :: mem_st where
  "mem0 = \<lparr>km = demo_mach True, ram = (\<lambda>_. replicate 4096 0), freelist = 0, use_lock = False, kend = 0x80200000, kdata = 0x80108000\<rparr>"

lemma mem0_kpages: "kpages [] mem0"
  by (simp add: kpages_def kmem_inv_def mem0_def)

lemma demo_page: "kpages [0x80300000] (freed 0x80300000 mem0)"
proof -
  have "page_ok (kend mem0) 0x80300000" by (simp add: mem0_def page_ok_def V2P_def param_defs)
  from freed_inv [OF _ this] mem0_kpages show ?thesis by (simp add: kpages_def)
qed

theorem kalloc_distinct_witness:
  "wp (alloc_many kalloc 2) (\<lambda>rs t. rs = take 2 [0x80300000] @ replicate (2 - length [0x80300000 :: u32]) 0 \<and>
     distinct (filter (\<lambda>r. r \<noteq> 0) rs) \<and> kpages (drop 2 [0x80300000]) t \<and> set (drop 2 [0x80300000]) \<inter> set rs = {}) (freed 0x80300000 mem0)"
  by (rule kalloc_distinct) (rule demo_page)

section \<open>Initialisation\<close>

lemma pages_in_roundup:
  assumes "unat a + 4095 < 2 ^ 32"
  shows "pages_in (PGROUNDUP a) e = pages_in a e"
proof -
  note r = PGROUNDUP_bounds [OF assms]
  have "unat (PGROUNDUP a) \<le> unat v" if "4096 dvd unat v" "unat a \<le> unat v" for v :: u32
  proof (rule ccontr)
    assume n: "\<not> unat (PGROUNDUP a) \<le> unat v"
    then have "4096 dvd unat (PGROUNDUP a) - unat v" using r(1) that(1) by (simp add: mod_PGSIZE dvd_diff_nat)
    then have "4096 \<le> unat (PGROUNDUP a) - unat v" using n by (intro dvd_imp_le) auto
    with r(3) that(2) show False by linarith
  qed
  moreover have "unat a \<le> unat v" if "unat (PGROUNDUP a) \<le> unat v" for v :: u32 using r(2) that by (rule order_trans)
  ultimately show ?thesis by (auto simp: pages_in_def mod_PGSIZE word_le_nat_alt)
qed

lemma pages_in_split:
  assumes "b mod PGSIZE = 0" "a \<le> b" "b \<le> c"
  shows "pages_in a c = pages_in a b \<union> pages_in b c" "pages_in a b \<inter> pages_in b c = {}"
proof -
  have "unat v + 4096 \<le> unat b" if "4096 dvd unat v" "unat v < unat b" for v :: u32
  proof -
    have "4096 dvd unat b - unat v" using that assms(1) by (simp add: mod_PGSIZE dvd_diff_nat)
    then have "4096 \<le> unat b - unat v" using that(2) by (intro dvd_imp_le) auto
    then show ?thesis using that(2) by linarith
  qed
  note near = this
  have le: "unat a \<le> unat b" "unat b \<le> unat c" using assms(2,3) by (simp_all add: word_le_nat_alt)
  show "pages_in a c = pages_in a b \<union> pages_in b c"
  proof (rule set_eqI)
    fix v
    show "v \<in> pages_in a c \<longleftrightarrow> v \<in> pages_in a b \<union> pages_in b c"
      using near [of v] le by (cases "unat v < unat b") (auto simp: pages_in_def mod_PGSIZE word_le_nat_alt)
  qed
  show "pages_in a b \<inter> pages_in b c = {}" by (auto simp: pages_in_def word_le_nat_alt)
qed

lemma freerange_wp:
  assumes "kpages xs s" "unat a + 4095 < 2 ^ 32" "kend s \<le> a" "\<forall>v \<in> pages_in a e. V2P v < PHYSTOP \<and> v \<notin> set xs"
  shows "wp (freerange a e) (\<lambda>_ t. \<exists>ys. kpages ys t \<and> set ys = set xs \<union> pages_in a e \<and> kend t = kend s \<and> use_lock t = use_lock s) s"
proof -
  note r = PGROUNDUP_bounds [OF assms(2)]
  have "kend s \<le> PGROUNDUP a" using assms(3) r(2) by (simp add: word_le_nat_alt)
  with assms r(1) show ?thesis unfolding freerange_def
    by (intro wp_mono [OF freerange_from_wp [of "{}" s xs "PGROUNDUP a" e]]) (auto simp: kpages_def pages_in_roundup)
qed

lemma initlock_mach: "mach_inv H (km s) \<Longrightarrow> l \<notin> H \<Longrightarrow>
  (\<And>m'. mach_inv H m' \<Longrightarrow> Q () (s\<lparr>km := m'\<rparr>)) \<Longrightarrow> wp (onm (initlock l nm)) Q s"
  by (auto simp: wp_onm initlock_def mach_inv_def cpu_index_def)

text \<open>
  C19.  The two phases of initialisation leave on the free list exactly the pages that lie wholly between
  the end of the kernel and the top of the memory, each once, with locking on.
\<close>

theorem kinit_frees_all:
  assumes "mach_inv {} (km s)" "freelist s = 0" "0 < kend s" "kend s \<le> a" "a \<le> b" "b \<le> c"
    and "b mod PGSIZE = 0" "KERNBASE \<le> a" "c \<le> P2V PHYSTOP"
  shows "wp (seqK (kinit1 a b) (kinit2 b c)) (\<lambda>_ t. \<exists>xs. kmem_inv xs t \<and> set xs = pages_in a c \<and> use_lock t) s"
proof -
  have top: "unat c \<le> 0x8E000000" using assms(9) by (simp add: word_le_nat_alt P2V_def param_defs)
  have le: "unat a \<le> unat b" "unat b \<le> unat c" "0x80000000 \<le> unat a" using assms(5,6,8) by (simp_all add: word_le_nat_alt param_defs)
  have over: "unat a + 4095 < 2 ^ 32" "unat b + 4095 < 2 ^ 32" using top le by simp_all
  have phys: "V2P v < PHYSTOP" if "v \<in> pages_in a c" for v
  proof -
    have "0x80000000 \<le> unat v" "unat v < 0x8E000000" using that top le by (auto simp: pages_in_def word_le_nat_alt)
    then show ?thesis by (simp add: V2P_def param_defs word_less_nat_alt unat_sub word_le_nat_alt)
  qed
  note sp = pages_in_split [OF assms(7,5,6)]
  show ?thesis unfolding kinit1_def kinit2_def wp_bindK
  proof (rule initlock_mach [OF assms(1)], simp)
    fix m assume m: "mach_inv {} m"
    let ?s = "s\<lparr>use_lock := False, km := m\<rparr>"
    have k: "kpages [] ?s" using m assms(2,3) by (simp add: kpages_def kmem_inv_def)
    have "wp (freerange a b) (\<lambda>_. wp (freerange b c) (\<lambda>_. wp (modify (use_lock_update (\<lambda>_. True)))
       (\<lambda>_ t. \<exists>xs. kmem_inv xs t \<and> set xs = pages_in a c \<and> use_lock t))) ?s"
    proof (rule wp_mono [OF freerange_wp [OF k over(1)]])
      fix u t assume "\<exists>ys. kpages ys t \<and> set ys = set [] \<union> pages_in a b \<and> kend t = kend ?s \<and> use_lock t = use_lock ?s"
      then obtain ys where y: "kpages ys t" "set ys = pages_in a b" "kend t = kend s" by auto
      have "kend t \<le> b" using assms(4,5) y(3) by simp
      then show "wp (freerange b c) (\<lambda>_. wp (modify (use_lock_update (\<lambda>_. True)))
         (\<lambda>_ t. \<exists>xs. kmem_inv xs t \<and> set xs = pages_in a c \<and> use_lock t)) t"
        by (rule_tac wp_mono [OF freerange_wp [OF y(1) over(2)]])
           (use y sp phys in \<open>auto simp: kpages_def kmem_inv_def\<close>)
    qed (use assms(4) sp phys in auto)
    then show "wp (modify (use_lock_update (\<lambda>_. False))) (\<lambda>_. wp (freerange a b) (\<lambda>_. wp (freerange b c)
       (\<lambda>_. wp (modify (use_lock_update (\<lambda>_. True))) (\<lambda>_ t. \<exists>xs. kmem_inv xs t \<and> set xs = pages_in a c \<and> use_lock t)))) (s\<lparr>km := m\<rparr>)"
      by simp
  qed
qed

theorem kinit_frees_all_witness:
  "wp (seqK (kinit1 0x80200100 0x80400000) (kinit2 0x80400000 0x8E000000))
     (\<lambda>_ t. \<exists>xs. kmem_inv xs t \<and> set xs = pages_in 0x80200100 0x8E000000 \<and> use_lock t) mem0"
  by (rule kinit_frees_all) (simp_all add: mem0_def P2V_def param_defs)

end
