(* ===== verification/Proc.thy ===== *)
theory Proc
  imports Kalloc
begin

text \<open>
  The process table and the switching of processes: \<open>proc.h\<close>, the trap frame of
  \<open>x86.h\<close>, and from \<open>proc.c\<close> the routines that move a process between its states
  (\<open>sched\<close>, \<open>yield\<close>, \<open>sleep\<close>, \<open>wakeup\<close>, \<open>kill\<close>, \<open>scheduler\<close> and the two system
  calls \<open>mysleep\<close>, \<open>mywakeup\<close> built on them); from \<open>vm.c\<close> the switch of the address
  space (\<open>switchuvm\<close>, \<open>switchkvm\<close>).

  A process is its index in \<open>ptable.proc\<close>.  \<open>swtch\<close> leaves the code of the process:
  \<open>sched\<close> ends in the outcome \<open>Away\<close>, and what the process does when it is resumed is
  a routine of its own (\<open>sched_resume\<close>, \<open>sleep_resume\<close>).
\<close>

section \<open>Processes\<close>

record trapframe =
  tf_edi :: u32
  tf_esi :: u32
  tf_ebp :: u32
  tf_oesp :: u32
  tf_ebx :: u32
  tf_edx :: u32
  tf_ecx :: u32
  tf_eax :: u32
  tf_gs :: "16 word"
  tf_fs :: "16 word"
  tf_es :: "16 word"
  tf_ds :: "16 word"
  tf_trapno :: u32
  tf_err :: u32
  tf_eip :: u32
  tf_cs :: "16 word"
  tf_eflags :: u32
  tf_esp :: u32
  tf_ss :: "16 word"

record kcontext =
  cx_edi :: u32
  cx_esi :: u32
  cx_ebx :: u32
  cx_ebp :: u32
  cx_eip :: u32

datatype procstate = UNUSED | EMBRYO | SLEEPING | RUNNABLE | RUNNING | ZOMBIE

record proc =
  p_sz :: u32
  p_pgdir :: u32
  p_kstack :: u32
  p_state :: procstate
  p_pid :: int
  p_parent :: "nat option"
  p_tf :: trapframe
  p_context :: kcontext
  p_chan :: "chan option"
  p_killed :: bool
  p_ofile :: "nat option list"
  p_cwd :: "nat option"
  p_name :: string
  p_isThread :: bool

record pt_st = mem_st +
  procs :: "proc list"
  initproc :: "nat option"
  nextpid :: int
  kpgdir :: u32
  cr3 :: u32
  esp0 :: u32

definition upd_proc :: "nat \<Rightarrow> (proc \<Rightarrow> proc) \<Rightarrow> 'x pt_st_scheme \<Rightarrow> 'x pt_st_scheme" where
  "upd_proc i f s = s\<lparr>procs := (procs s)[i := f (procs s ! i)]\<rparr>"

definition pinit :: "('x pt_st_scheme, unit) kop" where
  "pinit = onm (initlock LkPtable ''ptable'')"

section \<open>Switching\<close>

definition switchkvm :: "('x pt_st_scheme, unit) kop" where
  "switchkvm = modify (\<lambda>s. s\<lparr>cr3 := V2P (kpgdir s)\<rparr>)"

definition switchuvm :: "nat \<Rightarrow> ('x pt_st_scheme, unit) kop" where
  "switchuvm p = bindK (gets (\<lambda>s. procs s ! p)) (\<lambda>pr.
     if p_kstack pr = 0 then panic ''switchuvm: no kstack''
     else if p_pgdir pr = 0 then panic ''switchuvm: no pgdir''
     else seqK (onm pushcli) (
          seqK (modify (\<lambda>s. s\<lparr>esp0 := p_kstack pr + of_nat KSTACKSIZE, cr3 := V2P (p_pgdir pr)\<rparr>))
          (onm popcli)))"

definition set_cproc :: "nat option \<Rightarrow> ('x pt_st_scheme, unit) kop" where
  "set_cproc p = onm (bindK mycpu (\<lambda>i. modify (upd_cpu i (\<lambda>c. c\<lparr>cproc := p\<rparr>))))"

definition sched :: "('x pt_st_scheme, unit) kop" where
  "sched = bindK (onm myproc) (\<lambda>po. case po of
     None \<Rightarrow> panic ''null dereference''
   | Some p \<Rightarrow>
     bindK (onm (holding LkPtable)) (\<lambda>h.
     if \<not> h then panic ''sched ptable.lock''
     else bindK (onm (bindK mycpu (\<lambda>i. gets (\<lambda>m. ncli (cpus m ! i))))) (\<lambda>n.
     if n \<noteq> 1 then panic ''sched locks''
     else bindK (gets (\<lambda>s. p_state (procs s ! p))) (\<lambda>st.
     if st = RUNNING then panic ''sched running''
     else bindK (onm readeflags_IF) (\<lambda>on.
     if on then panic ''sched interruptible''
     else (\<lambda>s. Away s))))))"

text \<open>After \<open>swtch\<close> returns, \<open>sched\<close> restores the saved \<open>intena\<close>.\<close>

definition sched_resume :: "bool \<Rightarrow> ('x pt_st_scheme, unit) kop" where
  "sched_resume saved = onm (bindK mycpu (\<lambda>i. modify (upd_cpu i (\<lambda>c. c\<lparr>intena := saved\<rparr>))))"

definition yield :: "('x pt_st_scheme, unit) kop" where
  "yield =
     seqK (onm (acquire LkPtable)) (
     bindK (onm myproc) (\<lambda>po. case po of
       None \<Rightarrow> panic ''null dereference''
     | Some p \<Rightarrow>
       seqK (modify (upd_proc p (\<lambda>pr. pr\<lparr>p_state := RUNNABLE\<rparr>))) (
       seqK sched
       (onm (release LkPtable)))))"

definition sleep :: "chan option \<Rightarrow> lockid option \<Rightarrow> ('x pt_st_scheme, unit) kop" where
  "sleep ch lk = bindK (onm myproc) (\<lambda>po. case po of
     None \<Rightarrow> panic ''sleep''
   | Some p \<Rightarrow> (case lk of
       None \<Rightarrow> panic ''sleep without lk''
     | Some l \<Rightarrow>
       seqK (whenK (l \<noteq> LkPtable) (seqK (onm (acquire LkPtable)) (onm (release l)))) (
       seqK (modify (upd_proc p (\<lambda>pr. pr\<lparr>p_chan := ch\<rparr>))) (
       seqK (modify (upd_proc p (\<lambda>pr. pr\<lparr>p_state := SLEEPING\<rparr>))) sched))))"

definition sleep_resume :: "nat \<Rightarrow> lockid \<Rightarrow> bool \<Rightarrow> ('x pt_st_scheme, unit) kop" where
  "sleep_resume p l saved =
     seqK (sched_resume saved) (
     seqK (modify (upd_proc p (\<lambda>pr. pr\<lparr>p_chan := None\<rparr>)))
     (whenK (l \<noteq> LkPtable) (seqK (onm (release LkPtable)) (onm (acquire l)))))"

definition wake :: "chan option \<Rightarrow> proc \<Rightarrow> proc" where
  "wake ch p = (if p_state p = SLEEPING \<and> p_chan p = ch then p\<lparr>p_state := RUNNABLE\<rparr> else p)"

definition wakeup1 :: "chan option \<Rightarrow> ('x pt_st_scheme, unit) kop" where
  "wakeup1 ch = modify (\<lambda>s. s\<lparr>procs := map (wake ch) (procs s)\<rparr>)"

definition wakeup :: "chan option \<Rightarrow> ('x pt_st_scheme, unit) kop" where
  "wakeup ch =
     seqK (onm (acquire LkPtable)) (
     seqK (wakeup1 ch)
     (onm (release LkPtable)))"

definition kill :: "int \<Rightarrow> ('x pt_st_scheme, int) kop" where
  "kill pid =
     seqK (onm (acquire LkPtable)) (
     bindK (gets (\<lambda>s. findix (\<lambda>p. p_pid p = pid) 0 (procs s))) (\<lambda>r. case r of
       Some i \<Rightarrow>
         seqK (modify (upd_proc i (\<lambda>p. p\<lparr>p_killed := True\<rparr>))) (
         bindK (gets (\<lambda>s. p_state (procs s ! i))) (\<lambda>st.
         seqK (whenK (st = SLEEPING) (modify (upd_proc i (\<lambda>p. p\<lparr>p_state := RUNNABLE\<rparr>)))) (
         seqK (onm (release LkPtable))
         (ret 0))))
     | None \<Rightarrow> seqK (onm (release LkPtable)) (ret (-1))))"

section \<open>The scheduler\<close>

text \<open>
  One pass of the \<open>for\<close> loop from index \<open>p\<close>, up to the next \<open>swtch\<close>: the index of the
  process switched to, or \<open>None\<close> at the end of the table.  \<open>n\<close> counts the entries left.
\<close>

fun scheduler_scan :: "nat \<Rightarrow> nat \<Rightarrow> ('x pt_st_scheme, nat option) kop" where
  "scheduler_scan 0 p = ret None"
| "scheduler_scan (Suc n) p = bindK (gets (\<lambda>s. p_state (procs s ! p))) (\<lambda>st.
     if st \<noteq> RUNNABLE then scheduler_scan n (Suc p)
     else seqK (set_cproc (Some p)) (
          seqK (switchuvm p) (
          seqK (modify (upd_proc p (\<lambda>pr. pr\<lparr>p_state := RUNNING\<rparr>)))
          (ret (Some p)))))"

text \<open>
  \<open>scheduler_from p\<close> continues the loop at \<open>p\<close> with \<open>ptable.lock\<close> held and releases
  it at the end of the table; \<open>scheduler_enter\<close> is the start of a round,
  \<open>scheduler_back p\<close> what follows the \<open>swtch\<close> that ran process \<open>p\<close>.
\<close>

definition scheduler_from :: "nat \<Rightarrow> ('x pt_st_scheme, nat option) kop" where
  "scheduler_from p = bindK (gets (\<lambda>s. length (procs s))) (\<lambda>np.
     bindK (scheduler_scan (np - p) p) (\<lambda>r. case r of
       None \<Rightarrow> seqK (onm (release LkPtable)) (ret None)
     | Some q \<Rightarrow> ret (Some q)))"

definition scheduler_enter :: "('x pt_st_scheme, nat option) kop" where
  "scheduler_enter = seqK (onm sti) (seqK (onm (acquire LkPtable)) (scheduler_from 0))"

definition scheduler_back :: "nat \<Rightarrow> ('x pt_st_scheme, nat option) kop" where
  "scheduler_back p = seqK switchkvm (seqK (set_cproc None) (scheduler_from (Suc p)))"


section \<open>Facts about the routines\<close>

lemma upd_proc_simps [simp]:
  "length (procs (upd_proc i f s)) = length (procs s)"
  "km (upd_proc i f s) = km s" "initproc (upd_proc i f s) = initproc s"
  "nextpid (upd_proc i f s) = nextpid s" "pt_st.more (upd_proc i f s) = pt_st.more s"
  "i < length (procs s) \<Longrightarrow> procs (upd_proc i f s) ! j = (if j = i then f (procs s ! i) else procs s ! j)"
  by (simp_all add: upd_proc_def)

text \<open>Updates of other fields move inside the update of the machine state.\<close>

lemma pt_km_last [simp]:
  "procs_update f (km_update g s) = km_update g (procs_update f s)"
  "initproc_update f' (km_update g s) = km_update g (initproc_update f' s)"
  "nextpid_update h (km_update g s) = km_update g (nextpid_update h s)"
  "cr3_update k (km_update g s) = km_update g (cr3_update k s)"
  "kpgdir_update k (km_update g s) = km_update g (kpgdir_update k s)"
  "esp0_update k (km_update g s) = km_update g (esp0_update k s)"
  by (cases s; simp)+

lemma wake_simps [simp]:
  "p_pid (wake ch p) = p_pid p" "p_parent (wake ch p) = p_parent p" "p_chan (wake ch p) = p_chan p"
  "p_kstack (wake ch p) = p_kstack p" "p_pgdir (wake ch p) = p_pgdir p"
  "p_killed (wake ch p) = p_killed p"
  by (simp_all add: wake_def)

lemma wakeup_wp:
  assumes "mach_inv H (km s)" "LkPtable \<notin> H"
    and Q: "\<And>m'. mach_inv H m' \<Longrightarrow> curproc m' = curproc (km s) \<Longrightarrow> ident m' = ident (km s) \<Longrightarrow>
        Q () (s\<lparr>procs := map (wake ch) (procs s), km := m'\<rparr>)"
  shows "wp (wakeup ch) Q s"
  unfolding wakeup_def wakeup1_def wp_bindK
proof (rule acquire_onm [OF assms(1,2)])
  fix m assume m: "mach_inv (insert LkPtable H) m" "curproc m = curproc (km s)" "ident m = ident (km s)"
  have H: "insert LkPtable H - {LkPtable} = H" using assms(2) by simp
  show "wp (modify (\<lambda>s. s\<lparr>procs := map (wake ch) (procs s)\<rparr>)) (\<lambda>_. wp (onm (release LkPtable)) Q) (s\<lparr>km := m\<rparr>)"
    unfolding wp_modify
    by (rule release_onm [of "insert LkPtable H"]) (use m H Q in auto)
qed

lemma mach_inv_ncli:
  assumes "mach_inv H m" "cpu_index m = Some i"
  shows "ncli (cpus m ! i) = int (card H)" "H \<noteq> {} \<Longrightarrow> \<not> iflag m"
    "l \<in> H \<Longrightarrow> lk_locked (locks m l) = 1 \<and> lk_cpu (locks m l) = Some i"
  using assms by (auto elim!: mach_invE)

text \<open>
  \<open>sched\<close> with only \<open>ptable.lock\<close> held and a process that is no longer \<open>RUNNING\<close>
  passes its four checks and switches away; only the processor's saved interrupt flag
  may have changed.
\<close>

lemma holding_inv:
  assumes "mach_inv H m" "H \<noteq> {}"
  shows "wp (holding l) (\<lambda>h m'. h = (l \<in> H) \<and> m' = m) m"
  using assms by (cases "l \<in> H") (auto elim!: mach_invE simp: holding_def wp_mycpu)

lemma sched_wpx:
  assumes "mach_inv {LkPtable} (km s)" "curproc (km s) = Some p" "p_state (procs s ! p) \<noteq> RUNNING"
    and A: "\<And>m'. mach_inv {LkPtable} m' \<Longrightarrow> curproc m' = Some p \<Longrightarrow> ident m' = ident (km s) \<Longrightarrow> A (s\<lparr>km := m'\<rparr>)"
  shows "wpx sched Q A s"
  unfolding sched_def wpx_bindK
  apply (rule myproc_x [OF assms(1)])
  subgoal premises prems for m
  proof -
    from prems(1) obtain i where i: "cpu_index m = Some i" by (rule mach_invE)
    have hold: "wp (holding LkPtable) (\<lambda>h m'. h \<and> m' = m) m"
      using holding_inv [OF prems(1), of LkPtable] by simp
    show ?thesis
      unfolding assms(2) option.case wpx_bindK
      by (rule wpx_onm_wp, simp, rule wp_mono [OF hold])
         (use i A [of m] prems assms(2,3) mach_inv_ncli [OF prems(1) i] in
            \<open>auto intro!: wpx_onm_wp simp: wp_mycpu wp_readeflags\<close>)
  qed
  done

text \<open>What \<open>sleep\<close> leaves when the process gives up the processor.\<close>

lemma sleep_wpx:
  assumes "mach_inv {l} (km s)" "curproc (km s) = Some p" "p < length (procs s)"
    and A: "\<And>m'. mach_inv {LkPtable} m' \<Longrightarrow> curproc m' = Some p \<Longrightarrow> ident m' = ident (km s) \<Longrightarrow>
      A (s\<lparr>procs := (procs s)[p := (procs s ! p)\<lparr>p_chan := ch, p_state := SLEEPING\<rparr>], km := m'\<rparr>)"
  shows "wpx (sleep ch (Some l)) Q A s"
proof -
  let ?P = "\<lambda>s'. \<exists>m'. mach_inv {LkPtable} m' \<and> curproc m' = Some p \<and> ident m' = ident (km s) \<and> s' = s\<lparr>km := m'\<rparr>"
  have lock: "wpx (whenK (l \<noteq> LkPtable) (seqK (onm (acquire LkPtable)) (onm (release l)))) (\<lambda>_. ?P) A (s\<lparr>km := m\<rparr>)"
    if "mach_inv {l} m" "curproc m = Some p" "ident m = ident (km s)" for m
    using that
    by (cases "l = LkPtable") (auto intro!: acquire_x [of "{l}"] release_x [of "{LkPtable, l}"] simp: insert_Diff_if)
  show ?thesis
    unfolding sleep_def wpx_bindK
    by (rule myproc_x [OF assms(1)], unfold assms(2) option.case wpx_bindK,
        rule wpx_mono [OF lock], assumption, assumption, assumption, unfold wpx_modify)
       (use assms(3) A in \<open>auto intro!: sched_wpx simp: upd_proc_def\<close>)
qed

lemma yield_wpx:
  assumes "mach_inv {} (km s)" "curproc (km s) = Some p" "p < length (procs s)"
    and A: "\<And>m'. mach_inv {LkPtable} m' \<Longrightarrow> curproc m' = Some p \<Longrightarrow> ident m' = ident (km s) \<Longrightarrow>
      A (s\<lparr>procs := (procs s)[p := (procs s ! p)\<lparr>p_state := RUNNABLE\<rparr>], km := m'\<rparr>)"
  shows "wpx yield Q A s"
  unfolding yield_def wpx_bindK
  by (rule acquire_x [OF assms(1)], simp, rule myproc_x, simp, simp add: assms(2), rule sched_wpx)
     (use assms(3) A in \<open>auto simp: upd_proc_def assms(2)\<close>)


section \<open>kill\<close>

definition mark_killed :: "proc \<Rightarrow> proc" where
  "mark_killed p = p\<lparr>p_killed := True, p_state := if p_state p = SLEEPING then RUNNABLE else p_state p\<rparr>"

lemma mark_killed_simps [simp]:
  "p_pid (mark_killed p) = p_pid p" "p_killed (mark_killed p)" "p_kstack (mark_killed p) = p_kstack p"
  "p_pgdir (mark_killed p) = p_pgdir p" "p_chan (mark_killed p) = p_chan p"
  "p_state (mark_killed p) = (if p_state p = SLEEPING then RUNNABLE else p_state p)"
  by (simp_all add: mark_killed_def)

lemma kill_wp:
  assumes "mach_inv H (km s)" "LkPtable \<notin> H"
    and None: "\<And>m'. \<forall>p \<in> set (procs s). p_pid p \<noteq> pid \<Longrightarrow> mach_inv H m' \<Longrightarrow>
        curproc m' = curproc (km s) \<Longrightarrow> ident m' = ident (km s) \<Longrightarrow> Q (-1) (s\<lparr>km := m'\<rparr>)"
    and Some: "\<And>i m'. i < length (procs s) \<Longrightarrow> p_pid (procs s ! i) = pid \<Longrightarrow>
        (\<forall>k < i. p_pid (procs s ! k) \<noteq> pid) \<Longrightarrow> mach_inv H m' \<Longrightarrow>
        curproc m' = curproc (km s) \<Longrightarrow> ident m' = ident (km s) \<Longrightarrow>
        Q 0 (s\<lparr>procs := (procs s)[i := mark_killed (procs s ! i)],
           km := m'\<rparr>)"
  shows "wp (kill pid) Q s"
proof -
  have H: "insert LkPtable H - {LkPtable} = H" using assms(2) by simp
  show ?thesis
  proof (cases "findix (\<lambda>p. p_pid p = pid) 0 (procs s)")
    case None
    then have "\<forall>p \<in> set (procs s). p_pid p \<noteq> pid" by (simp add: findix_None)
    with None H show ?thesis
      unfolding kill_def wp_bindK
      by (intro acquire_onm [OF assms(1,2)]) (auto intro!: release_onm [of "insert LkPtable H"] assms(3))
  next
    case (Some i)
    then have i: "i < length (procs s)" "p_pid (procs s ! i) = pid" "\<forall>k < i. p_pid (procs s ! k) \<noteq> pid"
      by auto
    have upd: "x\<lparr>p_killed := True, p_state := p_state x\<rparr> = x\<lparr>p_killed := True\<rparr>" for x :: proc
      by simp
    show ?thesis
      unfolding kill_def wp_bindK
      using Some i H assms(4) [OF i]
      by (intro acquire_onm [OF assms(1,2)])
         (auto simp: upd_proc_def upd mark_killed_def intro!: release_onm [of "insert LkPtable H"])
  qed
qed

section \<open>Choosing a process to run\<close>

definition set_slot :: "nat option \<Rightarrow> mach \<Rightarrow> mach \<Rightarrow> bool" where
  "set_slot p m m' \<longleftrightarrow> (\<exists>i. cpu_index m = Some i \<and>
     ident m' = (lapicid m, map apicid (cpus m), (map cproc (cpus m))[i := p]))"

lemma set_slot_curproc:
  assumes "set_slot p m m'"
  shows "cpu_index m' = cpu_index m" "curproc m' = p"
proof -
  from assms obtain i where i: "cpu_index m = Some i"
    "ident m' = (lapicid m, map apicid (cpus m), (map cproc (cpus m))[i := p])"
    unfolding set_slot_def by blast
  show ci: "cpu_index m' = cpu_index m" using i(2) by (simp add: cpu_index_ident [of m'] cpu_index_ident [of m] ident_def)
  have "length (cpus m') = length (cpus m)" using i(2) by (simp add: ident_def) (metis length_map)
  moreover have "map cproc (cpus m') = (map cproc (cpus m))[i := p]" using i(2) by (simp add: ident_def)
  moreover have "i < length (cpus m)" using cpu_index_Some [OF i(1)] by simp
  ultimately have "cproc (cpus m' ! i) = p" by (metis length_map nth_list_update_eq nth_map)
  with ci i(1) show "curproc m' = p" by (simp add: curproc_def)
qed

lemma set_slot_ident: "set_slot p m m' \<Longrightarrow> ident m'' = ident m' \<Longrightarrow> set_slot p m m''"
  by (auto simp: set_slot_def)

lemma set_cproc_wp:
  assumes "mach_inv H (km s)" "H \<noteq> {}"
    and Q: "\<And>m'. mach_inv H m' \<Longrightarrow> set_slot p (km s) m' \<Longrightarrow> Q () (s\<lparr>km := m'\<rparr>)"
  shows "wp (set_cproc p) Q s"
proof -
  from assms(1) obtain i where i: "cpu_index (km s) = Some i" "i < length (cpus (km s))"
    by (auto elim: mach_invE)
  have "mach_inv H (upd_cpu i (\<lambda>c. c\<lparr>cproc := p\<rparr>) (km s))"
    using assms(1) i by (auto simp: mach_inv_def)
  moreover have "set_slot p (km s) (upd_cpu i (\<lambda>c. c\<lparr>cproc := p\<rparr>) (km s))"
    using i by (simp add: set_slot_def ident_def upd_cpu_def map_update list_update_same_conv)
  ultimately show ?thesis
    using i mach_inv_ncli [OF assms(1) i(1)] assms(2) Q
    by (simp add: set_cproc_def wp_onm wp_mycpu)
qed

lemma pushpop:
  assumes "mach_inv H m"
    and Q: "\<And>m'. mach_inv H m' \<Longrightarrow> ident m' = ident m \<Longrightarrow> Q () m'"
  shows "wp pushcli (\<lambda>_. wp popcli Q) m"
proof -
  have "wp myproc (\<lambda>_ m'. mach_inv H m' \<and> ident m' = ident m) m"
    by (rule myproc_wp [OF assms(1)]) simp
  then have "wp pushcli (\<lambda>_. wp popcli (\<lambda>_ m'. mach_inv H m' \<and> ident m' = ident m)) m"
    by (auto simp: myproc_def wp_mycpu elim!: wp_mono)
  then show ?thesis by (auto elim!: wp_mono intro: Q)
qed

lemma switchuvm_wp:
  assumes "mach_inv H (km s)" "p_kstack (procs s ! p) \<noteq> 0" "p_pgdir (procs s ! p) \<noteq> 0"
    and Q: "\<And>m'. mach_inv H m' \<Longrightarrow> ident m' = ident (km s) \<Longrightarrow>
      Q () (s\<lparr>esp0 := p_kstack (procs s ! p) + of_nat KSTACKSIZE, cr3 := V2P (p_pgdir (procs s ! p)), km := m'\<rparr>)"
  shows "wp (switchuvm p) Q s"
  using assms(2,3) by (simp add: switchuvm_def wp_onm) (rule pushpop [OF assms(1)], rule Q)


text \<open>A process that can run, or run again, has a kernel stack and a page directory.\<close>

definition live :: "proc \<Rightarrow> bool" where
  "live p \<longleftrightarrow> p_state p = RUNNABLE \<or> p_state p = SLEEPING \<or> p_state p = RUNNING"

definition live_ok :: "proc list \<Rightarrow> bool" where
  "live_ok ps \<longleftrightarrow> (\<forall>p \<in> set ps. live p \<longrightarrow> p_kstack p \<noteq> 0 \<and> p_pgdir p \<noteq> 0)"

definition picked :: "nat \<Rightarrow> 'x pt_st_scheme \<Rightarrow> mach \<Rightarrow> 'x pt_st_scheme" where
  "picked q s m = s\<lparr>esp0 := p_kstack (procs s ! q) + of_nat KSTACKSIZE, cr3 := V2P (p_pgdir (procs s ! q)),
     procs := (procs s)[q := (procs s ! q)\<lparr>p_state := RUNNING\<rparr>], km := m\<rparr>"

definition first_runnable :: "nat \<Rightarrow> proc list \<Rightarrow> nat \<Rightarrow> bool" where
  "first_runnable p ps q \<longleftrightarrow> p \<le> q \<and> q < length ps \<and> p_state (ps ! q) = RUNNABLE \<and>
     (\<forall>k. p \<le> k \<and> k < q \<longrightarrow> p_state (ps ! k) \<noteq> RUNNABLE)"

definition none_runnable :: "nat \<Rightarrow> proc list \<Rightarrow> bool" where
  "none_runnable p ps \<longleftrightarrow> (\<forall>k. p \<le> k \<and> k < length ps \<longrightarrow> p_state (ps ! k) \<noteq> RUNNABLE)"

lemma runnable_step:
  assumes "p < length ps" "p_state (ps ! p) \<noteq> RUNNABLE"
  shows "first_runnable (Suc p) ps q \<Longrightarrow> first_runnable p ps q"
    "none_runnable (Suc p) ps \<Longrightarrow> none_runnable p ps"
  using assms unfolding first_runnable_def none_runnable_def
  by (metis Suc_leD le_eq_less_or_eq not_less_eq_eq Suc_leI)+

lemma scheduler_scan_wp:
  assumes "mach_inv {LkPtable} (km s)" "live_ok (procs s)" "n = length (procs s) - p"
    and "none_runnable p (procs s) \<Longrightarrow> Q None s"
    and "\<And>q m'. first_runnable p (procs s) q \<Longrightarrow> mach_inv {LkPtable} m' \<Longrightarrow>
        set_slot (Some q) (km s) m' \<Longrightarrow> Q (Some q) (picked q s m')"
  shows "wp (scheduler_scan n p) Q s"
  using assms(3,4,5)
proof (induction n arbitrary: p)
  case 0
  then have "none_runnable p (procs s)" unfolding none_runnable_def by (metis diff_is_0_eq leD le_trans)
  with 0 show ?case by simp
next
  case (Suc n)
  then have p: "p < length (procs s)" by simp
  show ?case
  proof (cases "p_state (procs s ! p) = RUNNABLE")
    case False
    have "wp (scheduler_scan n (Suc p)) Q s"
      using Suc.prems by (intro Suc.IH) (auto dest: runnable_step [OF p False])
    with False show ?thesis by simp
  next
    case True
    have live: "p_kstack (procs s ! p) \<noteq> 0" "p_pgdir (procs s ! p) \<noteq> 0"
      using assms(2) p True by (auto simp: live_ok_def live_def)
    have first: "first_runnable p (procs s) p" using p True by (auto simp: first_runnable_def)
    show ?thesis
      using True live
      by (auto intro!: set_cproc_wp [OF assms(1)] switchuvm_wp [of "{LkPtable}"] Suc.prems(3) [OF first, unfolded picked_def]
            simp: upd_proc_def) (erule (1) set_slot_ident)
  qed
qed

lemma scheduler_from_wp:
  assumes "mach_inv {LkPtable} (km s)" "live_ok (procs s)"
    and "\<And>m'. none_runnable p (procs s) \<Longrightarrow> mach_inv {} m' \<Longrightarrow> ident m' = ident (km s) \<Longrightarrow> Q None (s\<lparr>km := m'\<rparr>)"
    and "\<And>q m'. first_runnable p (procs s) q \<Longrightarrow> mach_inv {LkPtable} m' \<Longrightarrow>
        set_slot (Some q) (km s) m' \<Longrightarrow> Q (Some q) (picked q s m')"
  shows "wp (scheduler_from p) Q s"
  unfolding scheduler_from_def wp_bindK wp_gets
  by (rule scheduler_scan_wp [OF assms(1,2) refl])
     (auto intro!: release_onm [OF assms(1)] assms(3,4))

lemma mach_inv_iflag: "mach_inv {} (m\<lparr>iflag := b\<rparr>) = mach_inv {} m"
  by (simp add: mach_inv_def)

lemma scheduler_enter_wp:
  assumes "mach_inv {} (km s)" "live_ok (procs s)"
    and "\<And>m'. none_runnable 0 (procs s) \<Longrightarrow> mach_inv {} m' \<Longrightarrow> ident m' = ident (km s) \<Longrightarrow> Q None (s\<lparr>km := m'\<rparr>)"
    and "\<And>q m'. first_runnable 0 (procs s) q \<Longrightarrow> mach_inv {LkPtable} m' \<Longrightarrow>
        set_slot (Some q) (km s) m' \<Longrightarrow> Q (Some q) (picked q s m')"
  shows "wp scheduler_enter Q s"
proof -
  have slot: "set_slot (Some q) (km s) m''" if "set_slot (Some q) m' m''" "ident m' = ident (km s)" for q m' m''
    using that ident_cong(1) [OF that(2)] by (simp add: set_slot_def ident_def)
  show ?thesis
    using assms(1) unfolding scheduler_enter_def wp_bindK wp_onm sti_def wp_modify
    apply -
    apply (rule acquire_wp [of "{}"])
      apply (simp add: mach_inv_iflag)
     apply simp
    apply (rule scheduler_from_wp)
    using assms(2,3,4) slot by (simp_all add: picked_def)
qed


lemma scheduler_back_wp:
  assumes "mach_inv {LkPtable} (km s)" "live_ok (procs s)"
    and "\<And>m'. none_runnable (Suc p) (procs s) \<Longrightarrow> mach_inv {} m' \<Longrightarrow> set_slot None (km s) m' \<Longrightarrow>
        Q None (s\<lparr>cr3 := V2P (kpgdir s), km := m'\<rparr>)"
    and "\<And>q m1 m'. first_runnable (Suc p) (procs s) q \<Longrightarrow> set_slot None (km s) m1 \<Longrightarrow> mach_inv {LkPtable} m' \<Longrightarrow>
        set_slot (Some q) m1 m' \<Longrightarrow> Q (Some q) (picked q s m')"
  shows "wp (scheduler_back p) Q s"
  unfolding scheduler_back_def wp_bindK switchkvm_def wp_modify
  apply (rule set_cproc_wp [of "{LkPtable}"])
    apply (simp add: assms(1))
   apply simp
  apply (rule scheduler_from_wp)
     apply (simp_all add: assms(2))
   apply (rule assms(3), assumption, assumption, erule (1) set_slot_ident)
  using assms(4) by (simp add: picked_def)

section \<open>Processors and processes\<close>

text \<open>
  The kernel seen at the granularity of the sections \<open>ptable.lock\<close> protects (one at a
  time, by the mutual exclusion of the lock).  Between two sections any processor may
  come next, with any interrupt state: \<open>between H s m\<close> says that \<open>m\<close> is a machine with the
  processors and current processes of \<open>s\<close> whose executing processor holds just \<open>H\<close>.
\<close>

definition between :: "lockid set \<Rightarrow> 'x pt_st_scheme \<Rightarrow> mach \<Rightarrow> bool" where
  "between H s m \<longleftrightarrow> mach_inv H m \<and> snd (ident m) = snd (ident (km s))"

inductive pstep :: "pt_st \<Rightarrow> pt_st \<Rightarrow> bool" where
  p_enter: "between {} s m \<Longrightarrow> curproc m = None \<Longrightarrow> scheduler_enter (s\<lparr>km := m\<rparr>) = Done r t \<Longrightarrow> pstep s t"
| p_yield: "between {} s m \<Longrightarrow> curproc m = Some p \<Longrightarrow> yield (s\<lparr>km := m\<rparr>) = Away t \<Longrightarrow>
     scheduler_back p t = Done r u \<Longrightarrow> pstep s u"
| p_sleep: "between {l} s m \<Longrightarrow> curproc m = Some p \<Longrightarrow> sleep ch (Some l) (s\<lparr>km := m\<rparr>) = Away t \<Longrightarrow>
     scheduler_back p t = Done r u \<Longrightarrow> pstep s u"
| p_wakeup: "between H s m \<Longrightarrow> LkPtable \<notin> H \<Longrightarrow> wakeup ch (s\<lparr>km := m\<rparr>) = Done r t \<Longrightarrow> pstep s t"
| p_kill: "between H s m \<Longrightarrow> LkPtable \<notin> H \<Longrightarrow> kill pid (s\<lparr>km := m\<rparr>) = Done r t \<Longrightarrow> pstep s t"

definition sched_ok :: "proc list \<Rightarrow> nat option list \<Rightarrow> bool" where
  "sched_ok ps cs \<longleftrightarrow> live_ok ps \<and>
     (\<forall>i < length cs. \<forall>p. cs ! i = Some p \<longrightarrow> p < length ps \<and> p_state (ps ! p) = RUNNING) \<and>
     (\<forall>p < length ps. p_state (ps ! p) = RUNNING \<longrightarrow> (\<exists>i < length cs. cs ! i = Some p)) \<and>
     (\<forall>i < length cs. \<forall>j < length cs. cs ! i = cs ! j \<and> cs ! i \<noteq> None \<longrightarrow> i = j)"

abbreviation sched_inv :: "'x pt_st_scheme \<Rightarrow> bool" where
  "sched_inv s \<equiv> sched_ok (procs s) (map cproc (cpus (km s)))"

lemma sched_okD:
  assumes "sched_ok ps cs"
  shows "live_ok ps" "\<And>i p. i < length cs \<Longrightarrow> cs ! i = Some p \<Longrightarrow> p < length ps \<and> p_state (ps ! p) = RUNNING"
    "\<And>p. p < length ps \<Longrightarrow> p_state (ps ! p) = RUNNING \<Longrightarrow> \<exists>i < length cs. cs ! i = Some p"
    "\<And>i j. i < length cs \<Longrightarrow> j < length cs \<Longrightarrow> cs ! i = cs ! j \<Longrightarrow> cs ! i \<noteq> None \<Longrightarrow> i = j"
  using assms unfolding sched_ok_def by auto

lemma live_ok_upd:
  assumes "live_ok ps" "live (ps ! p) \<or> \<not> live pr" "p < length ps"
    "p_kstack pr = p_kstack (ps ! p)" "p_pgdir pr = p_pgdir (ps ! p)"
  shows "live_ok (ps[p := pr])"
  using assms unfolding live_ok_def
  by (auto dest!: set_update_subset_insert [THEN subsetD])

lemma sched_ok_leave:
  assumes ok: "sched_ok ps cs" and i: "i < length cs" "cs ! i = Some p" and pr: "p_state pr \<noteq> RUNNING"
    "p_kstack pr = p_kstack (ps ! p)" "p_pgdir pr = p_pgdir (ps ! p)"
  shows "sched_ok (ps[p := pr]) (cs[i := None])"
proof -
  note D = sched_okD [OF ok]
  have p: "p < length ps" "p_state (ps ! p) = RUNNING" using D(2) [OF i] by auto
  have "live_ok (ps[p := pr])"
    by (rule live_ok_upd [OF D(1)]) (use p pr in \<open>auto simp: live_def\<close>)
  moreover have "q < length ps \<and> p_state (ps[p := pr] ! q) = RUNNING"
    if "j < length cs" "cs[i := None] ! j = Some q" for j q
  proof -
    have j: "j \<noteq> i" "cs ! j = Some q" using that i(1) by (auto simp: nth_list_update split: if_splits)
    with D(4) [OF that(1) i(1)] i(2) have "q \<noteq> p" by auto
    with D(2) [OF that(1) j(2)] show ?thesis by simp
  qed
  moreover have "\<exists>j < length cs. cs[i := None] ! j = Some q"
    if "q < length ps" "p_state (ps[p := pr] ! q) = RUNNING" for q
  proof -
    note qp = that
    have q: "q \<noteq> p" "p_state (ps ! q) = RUNNING" using that pr(1) p by (auto simp: nth_list_update split: if_splits)
    then obtain j where "j < length cs" "cs ! j = Some q" using D(3) qp(1) by blast
    then show ?thesis using i(2) q(1) by (intro exI [of _ j], cases "i = j") auto
  qed
  moreover have "k = j" if "k < length cs" "j < length cs" "cs[i := None] ! k = cs[i := None] ! j"
    "cs[i := None] ! k \<noteq> None" for k j
    using that i(1) D(4) [of k j] by (auto simp: nth_list_update split: if_splits)
  ultimately show ?thesis unfolding sched_ok_def length_list_update by blast
qed

lemma sched_ok_enter:
  assumes ok: "sched_ok ps cs" and i: "i < length cs" "cs ! i = None"
    and q: "q < length ps" "p_state (ps ! q) = RUNNABLE"
  shows "sched_ok (ps[q := (ps ! q)\<lparr>p_state := RUNNING\<rparr>]) (cs[i := Some q])" (is "sched_ok ?ps ?cs")
proof -
  note D = sched_okD [OF ok]
  have nq: "cs ! j \<noteq> Some q" if "j < length cs" for j using D(2) [OF that] q(2) by fastforce
  have "live_ok ?ps"
    by (rule live_ok_upd [OF D(1)]) (use q in \<open>auto simp: live_def\<close>)
  moreover have "p < length ps \<and> p_state (?ps ! p) = RUNNING" if "j < length cs" "?cs ! j = Some p" for j p
    using that i(1) D(2) [of j p] q(1) by (auto simp: nth_list_update split: if_splits)
  moreover have "\<exists>j < length cs. ?cs ! j = Some p" if pq: "p < length ps" "p_state (?ps ! p) = RUNNING" for p
  proof (cases "p = q")
    case True
    with i show ?thesis by (intro exI [of _ i]) auto
  next
    case False
    then obtain j where "j < length cs" "cs ! j = Some p" using D(3) [OF pq(1)] pq(2) by auto
    then show ?thesis using i(2) by (intro exI [of _ j], cases "i = j") auto
  qed
  moreover have "k = j" if "k < length cs" "j < length cs" "?cs ! k = ?cs ! j" "?cs ! k \<noteq> None" for k j
    using that i(1) D(4) [of k j] nq by (auto simp: nth_list_update split: if_splits)
  ultimately show ?thesis unfolding sched_ok_def length_list_update by blast
qed

lemma sched_ok_keep:
  assumes "sched_ok ps cs" "length ps' = length ps"
    and "\<And>p. p < length ps \<Longrightarrow> (p_state (ps' ! p) = RUNNING) = (p_state (ps ! p) = RUNNING) \<and>
       (live (ps' ! p) \<longrightarrow> live (ps ! p)) \<and> p_kstack (ps' ! p) = p_kstack (ps ! p) \<and> p_pgdir (ps' ! p) = p_pgdir (ps ! p)"
  shows "sched_ok ps' cs"
proof -
  note D = sched_okD [OF assms(1)]
  have "live_ok ps'"
    using D(1) assms(2,3) unfolding live_ok_def all_set_conv_all_nth by metis
  moreover have "p < length ps' \<and> p_state (ps' ! p) = RUNNING \<longleftrightarrow> p < length ps \<and> p_state (ps ! p) = RUNNING" for p
    using assms(2,3) by auto
  ultimately show ?thesis using D unfolding sched_ok_def by blast
qed


lemma set_slot_between:
  assumes "set_slot v m m'"
  obtains i where "i < length (cpus m)" "cproc (cpus m ! i) = curproc m"
    "map cproc (cpus m') = (map cproc (cpus m))[i := v]"
proof -
  from assms obtain i where i: "cpu_index m = Some i" "map cproc (cpus m') = (map cproc (cpus m))[i := v]"
    by (auto simp: set_slot_def ident_def)
  show ?thesis by (rule that [of i]) (use cpu_index_Some [OF i(1)] i in \<open>simp_all add: curproc_def\<close>)
qed

lemma sched_inv_left:
  assumes "sched_ok ps (map cproc (cpus m))" "curproc m = Some p" "set_slot None m m'"
    and "p_state pr \<noteq> RUNNING" "p_kstack pr = p_kstack (ps ! p)" "p_pgdir pr = p_pgdir (ps ! p)"
  shows "sched_ok (ps[p := pr]) (map cproc (cpus m'))"
proof -
  from set_slot_between [OF assms(3)] obtain i where i: "i < length (cpus m)"
    "cproc (cpus m ! i) = Some p" "map cproc (cpus m') = (map cproc (cpus m))[i := None]"
    using assms(2) by metis
  then show ?thesis using sched_ok_leave [OF assms(1) _ _ assms(4-6), of i] by simp
qed

lemma sched_inv_picked:
  assumes "sched_ok (procs s) (map cproc (cpus m))" "curproc m = None" "set_slot (Some q) m m'"
    and "first_runnable k (procs s) q"
  shows "sched_inv (picked q s m')"
proof -
  from set_slot_between [OF assms(3)] obtain i where i: "i < length (cpus m)"
    "cproc (cpus m ! i) = None" "map cproc (cpus m') = (map cproc (cpus m))[i := Some q]"
    using assms(2) by metis
  then show ?thesis
    using sched_ok_enter [OF assms(1), of i q] assms(4) by (simp add: first_runnable_def picked_def)
qed

lemma scheduler_back_inv:
  assumes "sched_ok ps (map cproc (cpus (km s)))" "mach_inv {LkPtable} (km s)" "curproc (km s) = Some p"
    and "procs s = ps[p := pr]" "p_state pr \<noteq> RUNNING" "live (ps ! p)" "p < length ps"
    and "p_kstack pr = p_kstack (ps ! p)" "p_pgdir pr = p_pgdir (ps ! p)"
  shows "wp (scheduler_back p) (\<lambda>_. sched_inv) s"
proof (rule scheduler_back_wp [OF assms(2)])
  show "live_ok (procs s)"
    unfolding assms(4) by (rule live_ok_upd [OF sched_okD(1) [OF assms(1)]]) (use assms in auto)
next
  fix m' assume "set_slot None (km s) m'"
  from sched_inv_left [OF assms(1,3) this assms(5,8,9)] show "sched_inv (s\<lparr>cr3 := V2P (kpgdir s), km := m'\<rparr>)"
    by (simp add: assms(4))
next
  fix q m1 m' assume q: "first_runnable (Suc p) (procs s) q" "set_slot None (km s) m1" "set_slot (Some q) m1 m'"
  show "sched_inv (picked q s m')"
    by (rule sched_inv_picked [OF _ _ q(3,1)])
       (use sched_inv_left [OF assms(1,3) q(2) assms(5,8,9)] set_slot_curproc [OF q(2)] assms(4) in simp_all)
qed


lemma curproc_running:
  assumes "sched_ok ps (map cproc (cpus m))" "curproc m = Some p"
  shows "p < length ps" "p_state (ps ! p) = RUNNING" "live (ps ! p)"
proof -
  from assms(2) obtain i where "i < length (cpus m)" "cproc (cpus m ! i) = Some p"
    using cpu_index_Some by (force simp: curproc_def split: option.splits)
  with sched_okD(2) [OF assms(1), of i p] show "p < length ps" "p_state (ps ! p) = RUNNING" by simp_all
  then show "live (ps ! p)" by (simp add: live_def)
qed

lemma between_cprocs: "between H s m \<Longrightarrow> map cproc (cpus m) = map cproc (cpus (km s))"
  "between H s m \<Longrightarrow> mach_inv H m"
  by (auto simp: between_def ident_def)

lemma ident_cprocs: "ident m' = ident m \<Longrightarrow> map cproc (cpus m') = map cproc (cpus m)"
  by (simp add: ident_def)

lemma AwayD: "wpx m (\<lambda>_ _. False) A s \<Longrightarrow> m s = Away t \<Longrightarrow> A t"
  by (simp add: wpx_def)

lemma DoneD: "wp m Q s \<Longrightarrow> m s = Done a t \<Longrightarrow> Q a t"
  by (simp add: wp_def)

lemma leave_inv:
  assumes "sched_inv s" "between H s m" "curproc m = Some p" "opn (s\<lparr>km := m\<rparr>) = Away t"
    and wpx: "wpx opn (\<lambda>_ _. False) (\<lambda>t. mach_inv {LkPtable} (km t) \<and> ident (km t) = ident m \<and>
        procs t = (procs s)[p := pr]) (s\<lparr>km := m\<rparr>)"
    and pr: "p_state pr \<noteq> RUNNING" "p_kstack pr = p_kstack (procs s ! p)" "p_pgdir pr = p_pgdir (procs s ! p)"
    and bk: "scheduler_back p t = Done r u"
  shows "sched_inv u"
proof -
  have t: "mach_inv {LkPtable} (km t)" "ident (km t) = ident m" "procs t = (procs s)[p := pr]"
    using AwayD [OF wpx assms(4)] by auto
  have ok: "sched_ok (procs s) (map cproc (cpus m))" using assms(1) between_cprocs [OF assms(2)] by simp
  have "wp (scheduler_back p) (\<lambda>_. sched_inv) t"
    by (rule scheduler_back_inv [of "procs s" _ _ pr])
       (use ok t pr curproc_running [OF ok assms(3)] ident_cprocs [OF t(2)] ident_cong(2) [OF t(2)] assms(3) in auto)
  from DoneD [OF this bk] show ?thesis .
qed

lemma pstep_inv: "pstep s t \<Longrightarrow> sched_inv s \<Longrightarrow> sched_inv t"
proof (induction rule: pstep.induct)
  case (p_enter s m r t)
  have ok: "sched_ok (procs s) (map cproc (cpus m))"
    using p_enter.prems between_cprocs [OF p_enter(1)] by simp
  have "wp scheduler_enter (\<lambda>_. sched_inv) (s\<lparr>km := m\<rparr>)"
    by (rule scheduler_enter_wp)
       (use between_cprocs(2) [OF p_enter(1)] ok sched_okD(1) [OF ok] p_enter(2) in
         \<open>auto dest: ident_cprocs intro!: sched_inv_picked [of _ m]\<close>)
  from DoneD [OF this p_enter(3)] show ?case .
next
  case (p_yield s m p t r u)
  note ok = curproc_running [OF p_yield.prems [folded between_cprocs(1) [OF p_yield(1)]] p_yield(2)]
  show ?case
    by (rule leave_inv [where opn = yield and pr = "(procs s ! p)\<lparr>p_state := RUNNABLE\<rparr>", OF p_yield.prems p_yield(1,2,3) _ _ _ _ p_yield(4)])
       (use between_cprocs(2) [OF p_yield(1)] p_yield(2) ok in \<open>auto intro!: yield_wpx [where p = p]\<close>)
next
  case (p_sleep l s m p ch t r u)
  note ok = curproc_running [OF p_sleep.prems [folded between_cprocs(1) [OF p_sleep(1)]] p_sleep(2)]
  let ?pr = "(procs s ! p)\<lparr>p_chan := ch, p_state := SLEEPING\<rparr>"
  have "wpx (sleep ch (Some l)) (\<lambda>_ _. False) (\<lambda>t. mach_inv {LkPtable} (km t) \<and> ident (km t) = ident m \<and>
      procs t = (procs s)[p := ?pr]) (s\<lparr>km := m\<rparr>)"
    by (rule sleep_wpx [where p = p])
       (use between_cprocs(2) [OF p_sleep(1)] p_sleep(2) ok(1) in simp_all)
  from leave_inv [where opn = "sleep ch (Some l)" and pr = ?pr, OF p_sleep.prems p_sleep(1,2,3) this _ _ _ p_sleep(4)]
  show ?case by simp
next
  case (p_wakeup H s m ch r t)
  have ok: "sched_ok (map (wake ch) (procs s)) (map cproc (cpus m))"
    unfolding between_cprocs(1) [OF p_wakeup(1)]
    by (rule sched_ok_keep [OF p_wakeup.prems]) (auto simp: wake_def live_def)
  have "wp (wakeup ch) (\<lambda>_. sched_inv) (s\<lparr>km := m\<rparr>)"
    by (rule wakeup_wp [of H]) (use between_cprocs(2) [OF p_wakeup(1)] p_wakeup(2) ok in \<open>auto dest!: ident_cprocs\<close>)
  from DoneD [OF this p_wakeup(3)] show ?case .
next
  case (p_kill H s m pid r t)
  have ok: "sched_ok ((procs s)[i := mark_killed (procs s ! i)]) (map cproc (cpus m))" if "i < length (procs s)" for i
    unfolding between_cprocs(1) [OF p_kill(1)]
    using that by (intro sched_ok_keep [OF p_kill.prems]) (auto simp: live_def nth_list_update)
  have "wp (kill pid) (\<lambda>_. sched_inv) (s\<lparr>km := m\<rparr>)"
    using ok p_kill.prems [folded between_cprocs(1) [OF p_kill(1)]]
    by (intro kill_wp [of H]) (use between_cprocs(2) [OF p_kill(1)] p_kill(2) in \<open>auto dest!: ident_cprocs\<close>)
  from DoneD [OF this p_kill(3)] show ?case .
qed


lemma psteps_inv: "pstep\<^sup>*\<^sup>* s t \<Longrightarrow> sched_inv s \<Longrightarrow> sched_inv t"
  by (induction rule: rtranclp_induct) (auto intro: pstep_inv)

section \<open>Properties\<close>


text \<open>A small table for the examples: process 0 runs on processor 1, process 1 is \<open>st\<close>.\<close>

definition demo_proc :: "procstate \<Rightarrow> int \<Rightarrow> chan option \<Rightarrow> proc" where
  "demo_proc st pid ch = \<lparr>p_sz = 4096, p_pgdir = 0x8dff0000, p_kstack = 0x8dfff000, p_state = st, p_pid = pid,
     p_parent = None, p_tf = undefined, p_context = undefined, p_chan = ch, p_killed = False, p_ofile = replicate NOFILE None,
     p_cwd = None, p_name = ''init'', p_isThread = False\<rparr>"

definition demo_pt :: "procstate \<Rightarrow> chan option \<Rightarrow> pt_st" where
  "demo_pt st ch = \<lparr>km = demo_mach True, ram = (\<lambda>_. replicate 4096 0), freelist = 0, use_lock = True, kend = 0x80200000, kdata = 0x80108000,
     procs = [demo_proc RUNNING 1 None, demo_proc st 2 ch],
     initproc = Some 0, nextpid = 3, kpgdir = 0x80400000, cr3 = 0, esp0 = 0\<rparr>"

lemma demo_pt_simps [simp]:
  "km (demo_pt st ch) = demo_mach True" "length (procs (demo_pt st ch)) = 2"
  "procs (demo_pt st ch) = [demo_proc RUNNING 1 None, demo_proc st 2 ch]"
  by (simp_all add: demo_pt_def)

lemma demo_proc_simps [simp]:
  "p_state (demo_proc st pid ch) = st" "p_pid (demo_proc st pid ch) = pid" "p_chan (demo_proc st pid ch) = ch"
  "p_kstack (demo_proc st pid ch) \<noteq> 0" "p_pgdir (demo_proc st pid ch) \<noteq> 0"
  by (simp_all add: demo_proc_def)

lemma demo_cprocs: "map cproc (cpus (demo_mach b)) = [None, Some 0]"
  by (simp add: demo_mach_def)

lemma demo_sched_inv: "st \<noteq> RUNNING \<Longrightarrow> sched_inv (demo_pt st ch)"
  by (auto simp: sched_ok_def live_ok_def demo_cprocs less_Suc_eq numeral_2_eq_2)

lemma demo_kill: "\<exists>t. pstep (demo_pt SLEEPING ch) t \<and> p_state (procs t ! 1) = RUNNABLE \<and> length (procs t) = 2"
proof -
  have "wp (kill 2) (\<lambda>_ t. p_state (procs t ! 1) = RUNNABLE \<and> length (procs t) = 2) (demo_pt SLEEPING ch)"
    by (rule kill_wp [of "{}"]) (auto simp: less_Suc_eq numeral_2_eq_2)
  then obtain r t where "kill 2 (demo_pt SLEEPING ch) = Done r t" "p_state (procs t ! 1) = RUNNABLE" "length (procs t) = 2"
    by (auto simp: wp_Done)
  then show ?thesis
    by (intro exI [of _ t] conjI pstep.p_kill [of "{}" _ "demo_mach True" 2 r]) (simp_all add: between_def demo_pt_def)
qed





text \<open>
  C14.  \<open>kill\<close> marks the first process with the given pid as killed, makes it runnable if it
  sleeps, and reports 0; with no such process it changes nothing and reports -1.
\<close>

theorem kill_spec:
  assumes "mach_inv H (km s)" "LkPtable \<notin> H"
  shows "wp (kill pid) (\<lambda>r u. mach_inv H (km u) \<and> curproc (km u) = curproc (km s) \<and>
     (case findix (\<lambda>p. p_pid p = pid) 0 (procs s) of
        None \<Rightarrow> r = -1 \<and> procs u = procs s
      | Some i \<Rightarrow> r = 0 \<and> procs u = (procs s)[i := (procs s ! i)\<lparr>p_killed := True,
          p_state := if p_state (procs s ! i) = SLEEPING then RUNNABLE else p_state (procs s ! i)\<rparr>])) s"
proof -
  have "findix (\<lambda>p. p_pid p = pid) 0 (procs s) = Some i"
    if "i < length (procs s)" "p_pid (procs s ! i) = pid" "\<forall>k<i. p_pid (procs s ! k) \<noteq> pid" for i
    using that by (intro findix_eq_Some) auto
  then show ?thesis
    by (intro kill_wp [OF assms]) (simp_all add: findix_None [THEN iffD2] mark_killed_def)
qed

theorem kill_spec_witness:
  "\<exists>u. kill 2 (demo_pt SLEEPING (Some ChInput)) = Done 0 u \<and> p_state (procs u ! 1) = RUNNABLE \<and> p_killed (procs u ! 1)"
  using kill_spec [of "{}" "demo_pt SLEEPING (Some ChInput)" 2] by (auto simp: wp_Done)



end
