(* ===== verification/Sleeplock.thy ===== *)
theory Sleeplock
  imports Proc
begin

text \<open>
  Sleep locks (\<open>sleeplock.h\<close>, \<open>sleeplock.c\<close>).  The state adds one record per sleep lock;
  its protecting spin lock is \<open>LkSleep\<close> of the same identity and its sleep channel
  \<open>ChSleep\<close>.  \<open>acquiresleep\<close> of a held lock switches away; \<open>acquiresleep_resume\<close> is the
  rest of the call once the process is scheduled again.
\<close>

record sleeplock =
  sl_locked :: nat
  sl_name :: string
  sl_pid :: int

record sl_st = pt_st +
  slocks :: "sleepid \<Rightarrow> sleeplock"

definition upd_slock :: "sleepid \<Rightarrow> (sleeplock \<Rightarrow> sleeplock) \<Rightarrow> 'x sl_st_scheme \<Rightarrow> 'x sl_st_scheme" where
  "upd_slock l f s = s\<lparr>slocks := (slocks s)(l := f (slocks s l))\<rparr>"

definition initsleeplock :: "sleepid \<Rightarrow> string \<Rightarrow> ('x sl_st_scheme, unit) kop" where
  "initsleeplock l name =
     seqK (onm (initlock (LkSleep l) ''sleep lock''))
     (modify (upd_slock l (\<lambda>k. k\<lparr>sl_name := name, sl_locked := 0, sl_pid := 0\<rparr>)))"

text \<open>The \<open>while\<close> loop and what follows it, entered with the spin lock held.\<close>

definition acquiresleep_loop :: "sleepid \<Rightarrow> ('x sl_st_scheme, unit) kop" where
  "acquiresleep_loop l = bindK (gets (\<lambda>s. sl_locked (slocks s l))) (\<lambda>n.
     if n \<noteq> 0 then sleep (Some (ChSleep l)) (Some (LkSleep l))
     else seqK (modify (upd_slock l (\<lambda>k. k\<lparr>sl_locked := 1\<rparr>))) (
          bindK (onm myproc) (\<lambda>po. case po of
            None \<Rightarrow> panic ''null dereference''
          | Some p \<Rightarrow>
              seqK (modify (\<lambda>s. upd_slock l (\<lambda>k. k\<lparr>sl_pid := p_pid (procs s ! p)\<rparr>) s))
              (onm (release (LkSleep l))))))"

definition acquiresleep :: "sleepid \<Rightarrow> ('x sl_st_scheme, unit) kop" where
  "acquiresleep l = seqK (onm (acquire (LkSleep l))) (acquiresleep_loop l)"

definition acquiresleep_resume :: "nat \<Rightarrow> bool \<Rightarrow> sleepid \<Rightarrow> ('x sl_st_scheme, unit) kop" where
  "acquiresleep_resume p saved l =
     seqK (sleep_resume p (LkSleep l) saved) (acquiresleep_loop l)"

definition releasesleep :: "sleepid \<Rightarrow> ('x sl_st_scheme, unit) kop" where
  "releasesleep l =
     seqK (onm (acquire (LkSleep l))) (
     seqK (modify (upd_slock l (\<lambda>k. k\<lparr>sl_locked := 0, sl_pid := 0\<rparr>))) (
     seqK (wakeup (Some (ChSleep l)))
     (onm (release (LkSleep l)))))"

definition holdingsleep :: "sleepid \<Rightarrow> ('x sl_st_scheme, nat) kop" where
  "holdingsleep l =
     seqK (onm (acquire (LkSleep l))) (
     bindK (gets (\<lambda>s. sl_locked (slocks s l))) (\<lambda>r.
     seqK (onm (release (LkSleep l)))
     (ret r)))"

lemma sl_km_last [simp]:
  "slocks_update f (km_update g s) = km_update g (slocks_update f s)"
  "procs_update h (slocks_update f s) = slocks_update f (procs_update h s)"
  by (cases s; simp)+

lemma upd_slock_simps [simp]:
  "km (upd_slock l f s) = km s" "procs (upd_slock l f s) = procs s"
  "slocks (upd_slock l f s) k = (if k = l then f (slocks s l) else slocks s k)"
  by (simp_all add: upd_slock_def)

section \<open>Rules\<close>

lemma acquiresleep_loop_wp:
  assumes "mach_inv {LkSleep l} (km s)" "curproc (km s) = Some p" "sl_locked (slocks s l) = 0"
    and Q: "\<And>m'. mach_inv {} m' \<Longrightarrow> curproc m' = Some p \<Longrightarrow> ident m' = ident (km s) \<Longrightarrow>
      Q () (s\<lparr>slocks := (slocks s)(l := (slocks s l)\<lparr>sl_locked := 1, sl_pid := p_pid (procs s ! p)\<rparr>), km := m'\<rparr>)"
  shows "wp (acquiresleep_loop l) Q s"
  using assms(2,3) unfolding acquiresleep_loop_def wp_bindK wp_gets
  by (auto intro!: myproc_onm [OF assms(1)] myproc_onm [of "{LkSleep l}"] release_onm [of "{LkSleep l}"] Q
       simp: upd_slock_def assms(1) simp del: One_nat_def)

lemma acquiresleep_wp:
  assumes "mach_inv {} (km s)" "curproc (km s) = Some p" "sl_locked (slocks s l) = 0"
    and Q: "\<And>m'. mach_inv {} m' \<Longrightarrow> curproc m' = Some p \<Longrightarrow> ident m' = ident (km s) \<Longrightarrow>
      Q () (s\<lparr>slocks := (slocks s)(l := (slocks s l)\<lparr>sl_locked := 1, sl_pid := p_pid (procs s ! p)\<rparr>), km := m'\<rparr>)"
  shows "wp (acquiresleep l) Q s"
  unfolding acquiresleep_def wp_bindK
  by (rule acquire_onm [OF assms(1)], simp, rule acquiresleep_loop_wp) (use assms(2,3) Q in \<open>auto simp del: One_nat_def\<close>)

lemma acquiresleep_wpx:
  assumes "mach_inv {} (km s)" "curproc (km s) = Some p" "p < length (procs s)" "sl_locked (slocks s l) \<noteq> 0"
    and A: "\<And>m'. mach_inv {LkPtable} m' \<Longrightarrow> curproc m' = Some p \<Longrightarrow> ident m' = ident (km s) \<Longrightarrow>
      A (s\<lparr>procs := (procs s)[p := (procs s ! p)\<lparr>p_chan := Some (ChSleep l), p_state := SLEEPING\<rparr>], km := m'\<rparr>)"
  shows "wpx (acquiresleep l) Q A s"
  using assms(4) unfolding acquiresleep_def acquiresleep_loop_def wpx_bindK
  by (intro acquire_x [OF assms(1)]) (auto intro!: sleep_wpx [of "LkSleep l", where p = p] A simp: assms(2,3))

lemma releasesleep_wp:
  assumes "mach_inv {} (km s)"
    and Q: "\<And>m'. mach_inv {} m' \<Longrightarrow> curproc m' = curproc (km s) \<Longrightarrow> ident m' = ident (km s) \<Longrightarrow>
      Q () (s\<lparr>procs := map (wake (Some (ChSleep l))) (procs s),
              slocks := (slocks s)(l := (slocks s l)\<lparr>sl_locked := 0, sl_pid := 0\<rparr>), km := m'\<rparr>)"
  shows "wp (releasesleep l) Q s"
  unfolding releasesleep_def wp_bindK
  by (rule acquire_onm [OF assms(1)])
     (auto intro!: wakeup_wp [of "{LkSleep l}"] release_onm [of "{LkSleep l}"] Q simp: upd_slock_def)

lemma holdingsleep_wp:
  assumes "mach_inv {} (km s)"
    and Q: "\<And>m'. mach_inv {} m' \<Longrightarrow> curproc m' = curproc (km s) \<Longrightarrow> ident m' = ident (km s) \<Longrightarrow>
      Q (sl_locked (slocks s l)) (s\<lparr>km := m'\<rparr>)"
  shows "wp (holdingsleep l) Q s"
  unfolding holdingsleep_def wp_bindK
  by (rule acquire_onm [OF assms(1)])
     (auto intro!: release_onm [of "{LkSleep l}"] Q)


lemma sched_resume_wp:
  assumes "mach_inv H (km s)" "H \<noteq> {}"
    and Q: "\<And>m'. mach_inv H m' \<Longrightarrow> curproc m' = curproc (km s) \<Longrightarrow> ident m' = ident (km s) \<Longrightarrow> Q () (s\<lparr>km := m'\<rparr>)"
  shows "wp (sched_resume saved) Q s"
proof -
  from assms(1) obtain i where i: "cpu_index (km s) = Some i" "i < length (cpus (km s))"
    by (auto elim: mach_invE)
  let ?m = "upd_cpu i (\<lambda>c. c\<lparr>intena := saved\<rparr>) (km s)"
  have "mach_inv H ?m" using assms(1) i by (auto simp: mach_inv_def)
  moreover have "ident ?m = ident (km s)"
    using i by (simp add: ident_def upd_cpu_def map_update list_update_same_conv)
  ultimately have "Q () (s\<lparr>km := ?m\<rparr>)" using Q ident_cong(2) by blast
  then show ?thesis
    using i mach_inv_ncli [OF assms(1) i(1)] assms(2) by (simp add: sched_resume_def wp_onm wp_mycpu)
qed

lemma sleep_resume_wp:
  assumes "mach_inv {LkPtable} (km s)" "l \<noteq> LkPtable"
    and Q: "\<And>m'. mach_inv {l} m' \<Longrightarrow> curproc m' = curproc (km s) \<Longrightarrow> ident m' = ident (km s) \<Longrightarrow>
      Q () (s\<lparr>procs := (procs s)[p := (procs s ! p)\<lparr>p_chan := None\<rparr>], km := m'\<rparr>)"
  shows "wp (sleep_resume p l saved) Q s"
  using assms(2) unfolding sleep_resume_def wp_bindK
  by (intro sched_resume_wp [OF assms(1)])
     (auto intro!: release_onm [of "{LkPtable}"] acquire_onm [of "{}"] Q simp: upd_proc_def)

section \<open>Exclusion\<close>

text \<open>
  Processes calling \<open>acquiresleep\<close> and \<open>releasesleep\<close> in any order; \<open>W l\<close> is the set of
  processes that have returned from an acquisition of \<open>l\<close> and not yet released it.
\<close>

definition runs :: "lockid set \<Rightarrow> nat \<Rightarrow> 'x sl_st_scheme \<Rightarrow> mach \<Rightarrow> bool" where
  "runs H p s m \<longleftrightarrow> mach_inv H m \<and> curproc m = Some p \<and> p < length (procs s)"

inductive sl_step :: "sl_st \<Rightarrow> (sleepid \<Rightarrow> nat set) \<Rightarrow> sl_st \<Rightarrow> (sleepid \<Rightarrow> nat set) \<Rightarrow> bool" where
  sl_take: "runs {} p s m \<Longrightarrow> acquiresleep l (s\<lparr>km := m\<rparr>) = Done () t \<Longrightarrow> sl_step s W t (W(l := insert p (W l)))"
| sl_wait: "runs {} p s m \<Longrightarrow> acquiresleep l (s\<lparr>km := m\<rparr>) = Away t \<Longrightarrow> sl_step s W t W"
| sl_again: "runs {LkPtable} p s m \<Longrightarrow> acquiresleep_resume p b l (s\<lparr>km := m\<rparr>) = Done () t \<Longrightarrow>
     sl_step s W t (W(l := insert p (W l)))"
| sl_await: "runs {LkPtable} p s m \<Longrightarrow> acquiresleep_resume p b l (s\<lparr>km := m\<rparr>) = Away t \<Longrightarrow> sl_step s W t W"
| sl_drop: "runs {} p s m \<Longrightarrow> p \<in> W l \<Longrightarrow> releasesleep l (s\<lparr>km := m\<rparr>) = Done () t \<Longrightarrow>
     sl_step s W t (W(l := W l - {p}))"

inductive sl_reach :: "sl_st \<Rightarrow> (sleepid \<Rightarrow> nat set) \<Rightarrow> bool" where
  sl_start: "(\<And>l. sl_locked (slocks s l) = 0) \<Longrightarrow> sl_reach s (\<lambda>_. {})"
| sl_next: "sl_reach s W \<Longrightarrow> sl_step s W t V \<Longrightarrow> sl_reach t V"

definition sl_inv :: "'x sl_st_scheme \<Rightarrow> (sleepid \<Rightarrow> nat set) \<Rightarrow> bool" where
  "sl_inv s W \<longleftrightarrow> (\<forall>l. (sl_locked (slocks s l) = 0 \<and> W l = {}) \<or> (sl_locked (slocks s l) = 1 \<and> (\<exists>p. W l = {p})))"

lemma acquiresleep_loop_wpx:
  assumes "mach_inv {LkSleep l} (km s)" "curproc (km s) = Some p" "p < length (procs s)"
  shows "wpx (acquiresleep_loop l)
     (\<lambda>_ t. sl_locked (slocks s l) = 0 \<and> slocks t = (slocks s)(l := (slocks s l)\<lparr>sl_locked := 1, sl_pid := p_pid (procs s ! p)\<rparr>))
     (\<lambda>t. slocks t = slocks s) s"
proof (cases "sl_locked (slocks s l) = 0")
  case True
  show ?thesis by (rule wpx_wp, rule acquiresleep_loop_wp [OF assms(1,2) True]) (use True in simp)
next
  case False
  then show ?thesis
    by (simp add: acquiresleep_loop_def) (rule sleep_wpx [OF assms], simp)
qed

lemma acquiresleep_any:
  assumes "runs {} p s m"
  shows "wpx (acquiresleep l)
     (\<lambda>_ t. sl_locked (slocks s l) = 0 \<and> slocks t = (slocks s)(l := (slocks s l)\<lparr>sl_locked := 1, sl_pid := p_pid (procs s ! p)\<rparr>))
     (\<lambda>t. slocks t = slocks s) (s\<lparr>km := m\<rparr>)"
  using assms unfolding acquiresleep_def wpx_bindK runs_def
  by (intro acquire_x [of "{}"]) (auto intro!: wpx_mono [OF acquiresleep_loop_wpx])

lemma acquiresleep_resume_any:
  assumes "runs {LkPtable} p s m"
  shows "wpx (acquiresleep_resume p b l)
     (\<lambda>_ t. sl_locked (slocks s l) = 0 \<and> slocks t = (slocks s)(l := (slocks s l)\<lparr>sl_locked := 1, sl_pid := p_pid (procs s ! p)\<rparr>))
     (\<lambda>t. slocks t = slocks s) (s\<lparr>km := m\<rparr>)"
  using assms unfolding acquiresleep_resume_def wpx_bindK runs_def
  by (intro wpx_wp [OF sleep_resume_wp]) (auto intro!: wpx_mono [OF acquiresleep_loop_wpx])

lemma wpx_DoneD: "wpx m Q A s \<Longrightarrow> m s = Done a t \<Longrightarrow> Q a t"
  and wpx_AwayE: "wpx m Q A s \<Longrightarrow> m s = Away t \<Longrightarrow> A t"
  by (simp_all add: wpx_def)

lemma sl_step_inv: "sl_step s W t V \<Longrightarrow> sl_inv s W \<Longrightarrow> sl_inv t V"
proof (induction rule: sl_step.induct)
  case (sl_take p s m l t W)
  from wpx_DoneD [OF acquiresleep_any sl_take(2), OF sl_take(1)] sl_take.prems show ?case
    by (auto simp: sl_inv_def)
next
  case (sl_wait p s m l t W)
  from wpx_AwayE [OF acquiresleep_any sl_wait(2), OF sl_wait(1)] sl_wait.prems show ?case
    by (auto simp: sl_inv_def)
next
  case (sl_again p s m b l t W)
  from wpx_DoneD [OF acquiresleep_resume_any sl_again(2), OF sl_again(1)] sl_again.prems show ?case
    by (auto simp: sl_inv_def)
next
  case (sl_await p s m b l t W)
  from wpx_AwayE [OF acquiresleep_resume_any sl_await(2), OF sl_await(1)] sl_await.prems show ?case
    by (auto simp: sl_inv_def)
next
  case (sl_drop p s m W l t)
  have "wp (releasesleep l) (\<lambda>_ t. slocks t = (slocks s)(l := (slocks s l)\<lparr>sl_locked := 0, sl_pid := 0\<rparr>)) (s\<lparr>km := m\<rparr>)"
    by (rule releasesleep_wp) (use sl_drop(1) in \<open>simp_all add: runs_def\<close>)
  from DoneD [OF this sl_drop(3)] sl_drop.prems sl_drop(2) show ?case by (fastforce simp: sl_inv_def)
qed

lemma sl_reach_inv: "sl_reach s W \<Longrightarrow> sl_inv s W"
  by (induction rule: sl_reach.induct) (auto simp: sl_inv_def [of _ "\<lambda>_. {}"] intro: sl_step_inv)


section \<open>Properties\<close>

text \<open>
  C16.  Exclusion of sleep locks.  However processes interleave \<open>acquiresleep\<close>, its
  resumption after a sleep, and \<open>releasesleep\<close>, a sleep lock has at most one owner, and it
  is marked locked exactly while it has one.
\<close>

theorem sleeplock_exclusion:
  assumes "sl_reach s W"
  shows "(p \<in> W l \<and> q \<in> W l \<longrightarrow> p = q) \<and> (sl_locked (slocks s l) = 0 \<longleftrightarrow> W l = {})"
proof -
  have "(sl_locked (slocks s l) = 0 \<and> W l = {}) \<or> (sl_locked (slocks s l) = 1 \<and> (\<exists>p. W l = {p}))"
    using sl_reach_inv [OF assms] unfolding sl_inv_def by blast
  then show ?thesis by auto
qed

definition demo_sl :: sl_st where
  "demo_sl = \<lparr>km = demo_mach True, ram = (\<lambda>_. replicate 4096 0), freelist = 0, use_lock = True, kend = 0x80200000, kdata = 0x80108000,
     procs = [demo_proc RUNNING 1 None, demo_proc RUNNABLE 2 None],
     initproc = Some 0, nextpid = 3, kpgdir = 0x80400000, cr3 = 0, esp0 = 0,
     slocks = (\<lambda>_. \<lparr>sl_locked = 0, sl_name = [], sl_pid = 0\<rparr>)\<rparr>"

theorem sleeplock_exclusion_witness:
  "\<exists>s W. sl_reach s W \<and> 0 \<in> W (SlBuf 3) \<and> (\<forall>q \<in> W (SlBuf 3). 0 = q) \<and> sl_locked (slocks s (SlBuf 3)) \<noteq> 0"
proof -
  have r: "runs {} 0 demo_sl (demo_mach True)" by (simp add: runs_def) (simp add: demo_sl_def)
  have "wp (acquiresleep (SlBuf 3)) (\<lambda>_ _. True) demo_sl"
    by (rule acquiresleep_wp [where p = 0]) (simp_all add: demo_sl_def)
  then obtain t where t: "acquiresleep (SlBuf 3) demo_sl = Done () t" by (auto simp: wp_Done)
  have "sl_reach demo_sl (\<lambda>_. {})" by (rule sl_start) (simp add: demo_sl_def)
  then have "sl_reach t ((\<lambda>_. {})(SlBuf 3 := {0}))"
    by (rule sl_next) (use sl_take [OF r, of "SlBuf 3" t "\<lambda>_. {}"] t in \<open>simp add: demo_sl_def\<close>)
  then show ?thesis
    using sleeplock_exclusion [of t "(\<lambda>_. {})(SlBuf 3 := {0})" 0 "SlBuf 3"] by force
qed

text \<open>
  C17.  A process that finds a sleep lock taken goes to sleep on it without touching it, and the
  owner's \<open>releasesleep\<close> leaves the lock free and that process runnable; a free lock is taken at
  once, recording the pid of the caller.
\<close>

theorem sleeplock_handoff:
  assumes "mach_inv {} (km s)" "curproc (km s) = Some p" "p < length (procs s)"
  shows "if sl_locked (slocks s l) = 0
    then wp (acquiresleep l) (\<lambda>_ t. mach_inv {} (km t) \<and> procs t = procs s \<and>
           slocks t = (slocks s)(l := (slocks s l)\<lparr>sl_locked := 1, sl_pid := p_pid (procs s ! p)\<rparr>)) s
    else \<exists>t. acquiresleep l s = Away t \<and> slocks t = slocks s \<and> mach_inv {LkPtable} (km t) \<and>
           p_state (procs t ! p) = SLEEPING \<and> p_chan (procs t ! p) = Some (ChSleep l) \<and>
           (\<forall>m. mach_inv {} m \<longrightarrow> wp (releasesleep l) (\<lambda>_ u. mach_inv {} (km u) \<and>
              sl_locked (slocks u l) = 0 \<and> p_state (procs u ! p) = RUNNABLE) (t\<lparr>km := m\<rparr>))"
proof (cases "sl_locked (slocks s l) = 0")
  case True
  then show ?thesis by (simp only: if_True simp_thms) (rule acquiresleep_wp [OF assms(1,2) True], simp)
next
  case False
  have "wpx (acquiresleep l) (\<lambda>_ _. False) (\<lambda>t. slocks t = slocks s \<and> mach_inv {LkPtable} (km t) \<and>
      procs t = (procs s)[p := (procs s ! p)\<lparr>p_chan := Some (ChSleep l), p_state := SLEEPING\<rparr>]) s"
    by (rule acquiresleep_wpx [OF assms False]) simp
  then obtain t where t: "acquiresleep l s = Away t" "slocks t = slocks s" "mach_inv {LkPtable} (km t)"
    "procs t = (procs s)[p := (procs s ! p)\<lparr>p_chan := Some (ChSleep l), p_state := SLEEPING\<rparr>]"
    by (auto dest: wpx_AwayD)
  have "wp (releasesleep l) (\<lambda>_ u. mach_inv {} (km u) \<and> sl_locked (slocks u l) = 0 \<and>
      p_state (procs u ! p) = RUNNABLE) (t\<lparr>km := m\<rparr>)" if "mach_inv {} m" for m
    by (rule releasesleep_wp) (use that t(4) assms(3) in \<open>simp_all add: wake_def\<close>)
  with t assms(3) False show ?thesis by auto
qed

theorem sleeplock_handoff_witness:
  "\<exists>t u. acquiresleep (SlInode 4) (upd_slock (SlInode 4) (\<lambda>k. k\<lparr>sl_locked := 1, sl_pid := 7\<rparr>) demo_sl) = Away t \<and>
     releasesleep (SlInode 4) (t\<lparr>km := demo_mach False\<rparr>) = Done () u \<and> p_state (procs u ! 0) = RUNNABLE"
proof -
  let ?s = "upd_slock (SlInode 4) (\<lambda>k. k\<lparr>sl_locked := 1, sl_pid := 7\<rparr>) demo_sl"
  have s: "mach_inv {} (km ?s)" "curproc (km ?s) = Some 0" "0 < length (procs ?s)"
    by (simp_all add: demo_sl_def)
  from sleeplock_handoff [OF s, of "SlInode 4"] show ?thesis
    by (auto simp: wp_Done dest!: spec [of _ "demo_mach False"])
qed

end
