(* ===== verification/Bio.thy ===== *)
theory Bio
  imports Sleeplock
begin

unbundle bit_operations_syntax

text \<open>
  The buffer cache (\<open>buf.h\<close>, \<open>bio.c\<close>) over the memory disk driver (\<open>memide.c\<close>).  A
  \<open>struct buf *\<close> is an index into \<open>bufs\<close>: the entries below \<open>NBUF\<close> are the array
  \<open>bcache.buf\<close>, the entry \<open>NBUF\<close> is \<open>bcache.head\<close>.  The \<open>prev\<close>/\<open>next\<close> pointers are kept
  as they are in C, and the doubly linked list is shown to represent a sequence.  The
  disk is a map from block numbers to contents; \<open>dhist\<close> records the writes the device has
  performed, oldest first, so that the states a power failure can leave are the ones after
  a prefix of it.
\<close>

section \<open>Buffers\<close>

record buf =
  b_flags :: u32
  b_dev :: nat
  b_blockno :: nat
  b_refcnt :: u32
  b_prev :: nat
  b_next :: nat
  b_data :: "byte list"

definition B_VALID :: u32 where [param_defs]: "B_VALID = 0x2"

definition B_DIRTY :: u32 where [param_defs]: "B_DIRTY = 0x4"

record bio_st = sl_st +
  bufs :: "buf list"
  disk :: "nat \<Rightarrow> byte list"
  dhist :: "(nat \<times> byte list) list"
  disksize :: nat

definition upd_buf :: "nat \<Rightarrow> (buf \<Rightarrow> buf) \<Rightarrow> 'x bio_st_scheme \<Rightarrow> 'x bio_st_scheme" where
  "upd_buf i f s = s\<lparr>bufs := (bufs s)[i := f (bufs s ! i)]\<rparr>"

abbreviation bhead :: nat where "bhead \<equiv> NBUF"

text \<open>Link \<open>b\<close> in between the head and its current successor.\<close>

definition link_front :: "nat \<Rightarrow> buf list \<Rightarrow> buf list" where
  "link_front b bs = (let
     bs = bs[b := (bs ! b)\<lparr>b_next := b_next (bs ! bhead)\<rparr>];
     bs = bs[b := (bs ! b)\<lparr>b_prev := bhead\<rparr>];
     bs = bs[b_next (bs ! bhead) := (bs ! b_next (bs ! bhead))\<lparr>b_prev := b\<rparr>]
   in bs[bhead := (bs ! bhead)\<lparr>b_next := b\<rparr>])"

definition unlink_buf :: "nat \<Rightarrow> buf list \<Rightarrow> buf list" where
  "unlink_buf b bs = (let
     bs = bs[b_next (bs ! b) := (bs ! b_next (bs ! b))\<lparr>b_prev := b_prev (bs ! b)\<rparr>]
   in bs[b_prev (bs ! b) := (bs ! b_prev (bs ! b))\<lparr>b_next := b_next (bs ! b)\<rparr>])"

fun binit_loop :: "nat \<Rightarrow> nat \<Rightarrow> ('x bio_st_scheme, unit) kop" where
  "binit_loop 0 b = ret ()"
| "binit_loop (Suc n) b =
     seqK (initsleeplock (SlBuf b) ''buffer'') (
     seqK (modify (\<lambda>s. s\<lparr>bufs := link_front b (bufs s)\<rparr>))
     (binit_loop n (Suc b)))"

definition binit :: "('x bio_st_scheme, unit) kop" where
  "binit =
     seqK (onm (initlock LkBcache ''bcache'')) (
     seqK (modify (upd_buf bhead (\<lambda>h. h\<lparr>b_prev := bhead, b_next := bhead\<rparr>)))
     (binit_loop NBUF 0))"

text \<open>
  The loops of \<open>bget\<close>: follow \<open>step\<close> (\<open>next\<close> or \<open>prev\<close>) from \<open>p\<close> until the head or a
  buffer that satisfies \<open>P\<close>.  \<open>None\<close> is a walk longer than the fuel, a loop that does not
  end.
\<close>

fun lru_find :: "(buf \<Rightarrow> bool) \<Rightarrow> (buf \<Rightarrow> nat) \<Rightarrow> buf list \<Rightarrow> nat \<Rightarrow> nat \<Rightarrow> nat option option" where
  "lru_find P step bs 0 p = None"
| "lru_find P step bs (Suc n) p =
     (if p = bhead then Some None
      else if P (bs ! p) then Some (Some p)
      else lru_find P step bs n (step (bs ! p)))"

definition cached_as :: "nat \<Rightarrow> nat \<Rightarrow> buf \<Rightarrow> bool" where
  "cached_as dev blockno b \<longleftrightarrow> b_dev b = dev \<and> b_blockno b = blockno"

definition recyclable :: "buf \<Rightarrow> bool" where
  "recyclable b \<longleftrightarrow> b_refcnt b = 0 \<and> b_flags b AND B_DIRTY = 0"

definition bget :: "nat \<Rightarrow> nat \<Rightarrow> ('x bio_st_scheme, nat) kop" where
  "bget dev blockno =
     seqK (onm (acquire LkBcache)) (
     bindK (gets (\<lambda>s. lru_find (cached_as dev blockno) b_next (bufs s) (Suc NBUF) (b_next (bufs s ! bhead)))) (\<lambda>r.
     case r of
       None \<Rightarrow> (\<lambda>s. Spinning LkBcache)
     | Some (Some b) \<Rightarrow>
         seqK (modify (upd_buf b (\<lambda>k. k\<lparr>b_refcnt := b_refcnt k + 1\<rparr>))) (
         seqK (onm (release LkBcache)) (
         seqK (acquiresleep (SlBuf b))
         (ret b)))
     | Some None \<Rightarrow>
         bindK (gets (\<lambda>s. lru_find recyclable b_prev (bufs s) (Suc NBUF) (b_prev (bufs s ! bhead)))) (\<lambda>r.
         case r of
           None \<Rightarrow> (\<lambda>s. Spinning LkBcache)
         | Some (Some b) \<Rightarrow>
             seqK (modify (upd_buf b (\<lambda>k. k\<lparr>b_dev := dev, b_blockno := blockno, b_flags := 0, b_refcnt := 1\<rparr>))) (
             seqK (onm (release LkBcache)) (
             seqK (acquiresleep (SlBuf b))
             (ret b)))
         | Some None \<Rightarrow> panic ''bget: no buffers'')))"

section \<open>The memory disk\<close>

definition iderw :: "nat \<Rightarrow> ('x bio_st_scheme, unit) kop" where
  "iderw b = bindK (holdingsleep (SlBuf b)) (\<lambda>h.
     if h = 0 then panic ''iderw: buf not locked''
     else bindK (gets (\<lambda>s. bufs s ! b)) (\<lambda>k.
     if b_flags k AND (B_VALID OR B_DIRTY) = B_VALID then panic ''iderw: nothing to do''
     else if b_dev k \<noteq> 1 then panic ''iderw: request not for disk 1''
     else bindK (gets disksize) (\<lambda>n.
     if b_blockno k \<ge> n then panic ''iderw: block out of range''
     else seqK (if b_flags k AND B_DIRTY \<noteq> 0
            then seqK (modify (upd_buf b (\<lambda>k. k\<lparr>b_flags := b_flags k AND NOT B_DIRTY\<rparr>)))
                 (modify (\<lambda>s. s\<lparr>disk := (disk s)(b_blockno k := b_data k),
                                dhist := dhist s @ [(b_blockno k, b_data k)]\<rparr>))
            else modify (\<lambda>s. upd_buf b (\<lambda>k. k\<lparr>b_data := disk s (b_blockno k)\<rparr>) s))
          (modify (upd_buf b (\<lambda>k. k\<lparr>b_flags := b_flags k OR B_VALID\<rparr>))))))"

section \<open>bread, bwrite, brelse\<close>

definition bread :: "nat \<Rightarrow> nat \<Rightarrow> ('x bio_st_scheme, nat) kop" where
  "bread dev blockno = bindK (bget dev blockno) (\<lambda>b.
     bindK (gets (\<lambda>s. b_flags (bufs s ! b))) (\<lambda>fl.
     seqK (whenK (fl AND B_VALID = 0) (iderw b))
     (ret b)))"

definition bwrite :: "nat \<Rightarrow> ('x bio_st_scheme, unit) kop" where
  "bwrite b = bindK (holdingsleep (SlBuf b)) (\<lambda>h.
     if h = 0 then panic ''bwrite''
     else seqK (modify (upd_buf b (\<lambda>k. k\<lparr>b_flags := b_flags k OR B_DIRTY\<rparr>)))
          (iderw b))"

definition brelse :: "nat \<Rightarrow> ('x bio_st_scheme, unit) kop" where
  "brelse b = bindK (holdingsleep (SlBuf b)) (\<lambda>h.
     if h = 0 then panic ''brelse''
     else seqK (releasesleep (SlBuf b)) (
          seqK (onm (acquire LkBcache)) (
          seqK (modify (upd_buf b (\<lambda>k. k\<lparr>b_refcnt := b_refcnt k - 1\<rparr>))) (
          bindK (gets (\<lambda>s. b_refcnt (bufs s ! b))) (\<lambda>n.
          seqK (whenK (n = 0) (modify (\<lambda>s. s\<lparr>bufs := link_front b (unlink_buf b (bufs s))\<rparr>)))
          (onm (release LkBcache)))))))"

section \<open>The doubly linked list\<close>

text \<open>\<open>chain nx pv a xs z\<close>: from \<open>a\<close> the pointers lead through \<open>xs\<close> to \<open>z\<close> and back.\<close>

fun chain :: "(nat \<Rightarrow> nat) \<Rightarrow> (nat \<Rightarrow> nat) \<Rightarrow> nat \<Rightarrow> nat list \<Rightarrow> nat \<Rightarrow> bool" where
  "chain nx pv a [] z \<longleftrightarrow> nx a = z \<and> pv z = a"
| "chain nx pv a (x # xs) z \<longleftrightarrow> nx a = x \<and> pv x = a \<and> chain nx pv x xs z"

lemma chain_append: "chain nx pv a (xs @ y # ys) z \<longleftrightarrow> chain nx pv a xs y \<and> chain nx pv y ys z"
  by (induction xs arbitrary: a) auto

lemma chain_cong:
  assumes "chain nx pv a xs z" "\<And>i. i \<in> insert a (set xs) \<Longrightarrow> nx' i = nx i" "\<And>i. i \<in> insert z (set xs) \<Longrightarrow> pv' i = pv i"
  shows "chain nx' pv' a xs z"
  using assms by (induction xs arbitrary: a) auto

lemma chain_ends:
  assumes "chain nx pv a xs z"
  shows "nx a = hd (xs @ [z])" "pv z = last (a # xs)"
  using assms by (induction xs arbitrary: a) auto

lemma chain_relink:
  assumes "chain nx pv a xs z" "distinct (a # xs)" "z' \<notin> set xs"
  shows "chain (nx(last (a # xs) := z')) (pv(z' := last (a # xs))) a xs z'"
  using assms
proof (induction xs arbitrary: a)
  case Nil
  then show ?case by simp
next
  case (Cons x xs)
  have "chain (nx(last (x # xs) := z')) (pv(z' := last (x # xs))) x xs z'"
    by (rule Cons.IH) (use Cons.prems in auto)
  moreover have "a \<noteq> last (x # xs)" using Cons.prems(2) last_in_set [of "x # xs"] by auto
  ultimately show ?case using Cons.prems by (auto simp: fun_upd_def)
qed

lemma chain_remove:
  assumes "chain nx pv h (xs @ b # ys) h" "distinct (h # xs @ b # ys)"
  shows "chain (nx(pv b := nx b)) (pv(nx b := pv b)) h (xs @ ys) h"
proof -
  from assms(1) have c: "chain nx pv h xs b" "chain nx pv b ys h" by (auto simp: chain_append)
  have pb: "pv b = last (h # xs)" using chain_ends(2) [OF c(1)] .
  show ?thesis
  proof (cases ys)
    case Nil
    then have "nx b = h" using c(2) by simp
    with chain_relink [OF c(1), of h] assms(2) pb Nil show ?thesis by simp
  next
    case (Cons y ys')
    then have y: "nx b = y" "chain nx pv y ys' h" using c(2) by auto
    have "chain (nx(pv b := y)) (pv(y := pv b)) h xs y"
      using chain_relink [OF c(1), of y] assms(2) pb Cons by simp
    moreover have "pv b \<in> insert h (set xs)" unfolding pb by (cases xs) auto
    then have "chain (nx(pv b := y)) (pv(y := pv b)) y ys' h"
      using assms(2) Cons by (intro chain_cong [OF y(2)]) auto
    ultimately show ?thesis using y Cons by (simp add: chain_append)
  qed
qed

lemma chain_push:
  assumes "chain nx pv h zs h" "distinct (h # b # zs)"
  shows "chain (nx(b := nx h, h := b)) (pv(b := h, nx h := b)) h (b # zs) h"
proof (cases zs)
  case Nil
  with assms show ?thesis by auto
next
  case (Cons z zs')
  with assms(1) have z: "nx h = z" "chain nx pv z zs' h" by auto
  have "chain (nx(b := z, h := b)) (pv(b := h, z := b)) z zs' h"
    using assms(2) Cons by (intro chain_cong [OF z(2)]) auto
  with z Cons assms(2) show ?thesis by auto
qed


lemma chain_rev: "chain nx pv a xs z \<Longrightarrow> chain pv nx z (rev xs) a"
proof (induction xs arbitrary: a)
  case Nil
  then show ?case by simp
next
  case (Cons x xs)
  then show ?case by (auto simp: chain_append)
qed

lemma lru_find_chain:
  assumes "chain (\<lambda>i. step (bs ! i)) pv a xs bhead" "bhead \<notin> set xs" "length xs < n"
  shows "lru_find P step bs n (step (bs ! a)) = Some (find (\<lambda>i. P (bs ! i)) xs)"
  using assms
proof (induction xs arbitrary: a n)
  case Nil
  then show ?case by (cases n) auto
next
  case (Cons x xs)
  then obtain k where "n = Suc k" by (cases n) auto
  with Cons.prems Cons.IH [of x k] show ?case by auto
qed

text \<open>\<open>lru bs xs\<close>: the pointers of \<open>bs\<close> represent the buffers \<open>xs\<close>, most recently used first.\<close>

abbreviation next_of :: "buf list \<Rightarrow> nat \<Rightarrow> nat" where "next_of bs \<equiv> \<lambda>i. b_next (bs ! i)"

abbreviation prev_of :: "buf list \<Rightarrow> nat \<Rightarrow> nat" where "prev_of bs \<equiv> \<lambda>i. b_prev (bs ! i)"

definition lru :: "buf list \<Rightarrow> nat list \<Rightarrow> bool" where
  "lru bs xs \<longleftrightarrow> length bs = Suc NBUF \<and> chain (next_of bs) (prev_of bs) bhead xs bhead \<and>
     distinct xs \<and> set xs \<subseteq> {..<NBUF}"

lemma lru_length:
  assumes "lru bs xs"
  shows "length xs \<le> NBUF" "bhead \<notin> set xs"
proof -
  from assms have "card (set xs) \<le> card {..<NBUF}" by (intro card_mono) (auto simp: lru_def)
  with assms show "length xs \<le> NBUF" by (simp add: lru_def distinct_card)
  show "bhead \<notin> set xs" using assms by (auto simp: lru_def)
qed

lemma lru_find_next:
  assumes "lru bs xs"
  shows "lru_find P b_next bs (Suc NBUF) (b_next (bs ! bhead)) = Some (find (\<lambda>i. P (bs ! i)) xs)"
  by (rule lru_find_chain) (use assms lru_length [OF assms] in \<open>auto simp: lru_def\<close>)

lemma lru_find_prev:
  assumes "lru bs xs"
  shows "lru_find P b_prev bs (Suc NBUF) (b_prev (bs ! bhead)) = Some (find (\<lambda>i. P (bs ! i)) (rev xs))"
  by (rule lru_find_chain [of _ _ "next_of bs"])
     (use assms lru_length [OF assms] in \<open>auto simp: lru_def intro: chain_rev\<close>)

text \<open>What a buffer holds besides its links.\<close>

definition payload :: "buf \<Rightarrow> u32 \<times> nat \<times> nat \<times> u32 \<times> byte list" where
  "payload b = (b_flags b, b_dev b, b_blockno b, b_refcnt b, b_data b)"

lemma lru_cong:
  assumes "lru bs xs" "length bs' = length bs"
    "\<And>i. i < length bs \<Longrightarrow> b_next (bs' ! i) = b_next (bs ! i) \<and> b_prev (bs' ! i) = b_prev (bs ! i)"
  shows "lru bs' xs"
proof -
  have "chain (next_of bs') (prev_of bs') bhead xs bhead"
    by (rule chain_cong [of "next_of bs" "prev_of bs"])
       (use assms in \<open>auto simp: lru_def subset_iff less_Suc_eq\<close>)
  with assms(1,2) show ?thesis by (simp add: lru_def)
qed

lemma link_front_ptrs:
  assumes "b < NBUF" "length bs = Suc NBUF" "b_next (bs ! bhead) \<le> NBUF" "b_next (bs ! bhead) \<noteq> b"
  shows "next_of (link_front b bs) = (next_of bs)(b := b_next (bs ! bhead), bhead := b)"
    "prev_of (link_front b bs) = (prev_of bs)(b := bhead, b_next (bs ! bhead) := b)"
    "payload (link_front b bs ! i) = payload (bs ! i)" "length (link_front b bs) = length bs"
  using assms
  by (auto simp: link_front_def Let_def nth_list_update payload_def fun_eq_iff)

lemma unlink_buf_ptrs:
  assumes "b < NBUF" "length bs = Suc NBUF" "b_next (bs ! b) \<le> NBUF" "b_prev (bs ! b) \<le> NBUF"
    "b_next (bs ! b) \<noteq> b" "b_prev (bs ! b) \<noteq> b"
  shows "next_of (unlink_buf b bs) = (next_of bs)(b_prev (bs ! b) := b_next (bs ! b))"
    "prev_of (unlink_buf b bs) = (prev_of bs)(b_next (bs ! b) := b_prev (bs ! b))"
    "payload (unlink_buf b bs ! i) = payload (bs ! i)" "length (unlink_buf b bs) = length bs"
  using assms
  by (auto simp: unlink_buf_def Let_def nth_list_update payload_def fun_eq_iff)

lemma chain_next_in: "chain nx pv a xs z \<Longrightarrow> nx a \<in> insert z (set xs)"
  by (cases xs) auto

lemma link_front_lru:
  assumes "lru bs xs" "b < NBUF" "b \<notin> set xs"
  shows "lru (link_front b bs) (b # xs)" "payload (link_front b bs ! i) = payload (bs ! i)"
proof -
  have c: "chain (next_of bs) (prev_of bs) bhead xs bhead" and len: "length bs = Suc NBUF"
    using assms(1) by (auto simp: lru_def)
  have n: "b_next (bs ! bhead) \<le> NBUF" "b_next (bs ! bhead) \<noteq> b"
    using chain_next_in [OF c] assms by (auto simp: lru_def)
  note L = link_front_ptrs [OF assms(2) len n]
  have "chain (next_of (link_front b bs)) (prev_of (link_front b bs)) bhead (b # xs) bhead"
    unfolding L(1,2) by (rule chain_push [OF c]) (use assms lru_length(2) [OF assms(1)] in \<open>auto simp: lru_def\<close>)
  then show "lru (link_front b bs) (b # xs)" using assms L(4) len by (auto simp: lru_def)
  show "payload (link_front b bs ! i) = payload (bs ! i)" by (rule L(3))
qed

lemma unlink_lru:
  assumes "lru bs (xs @ b # ys)"
  shows "lru (unlink_buf b bs) (xs @ ys)" "payload (unlink_buf b bs ! i) = payload (bs ! i)"
proof -
  let ?l = "xs @ b # ys"
  have c: "chain (next_of bs) (prev_of bs) bhead xs b" "chain (next_of bs) (prev_of bs) b ys bhead"
    and len: "length bs = Suc NBUF" and b: "b < NBUF" and d: "distinct (bhead # ?l)" "set ?l \<subseteq> {..<NBUF}"
    using assms lru_length(2) [OF assms] by (auto simp: lru_def chain_append)
  have n: "b_next (bs ! b) \<in> insert bhead (set ys)" "b_prev (bs ! b) \<in> insert bhead (set xs)"
    using chain_next_in [OF c(2)] chain_next_in [OF chain_rev [OF c(1)]] by auto
  have nn: "b_next (bs ! b) \<le> NBUF" "b_prev (bs ! b) \<le> NBUF" "b_next (bs ! b) \<noteq> b" "b_prev (bs ! b) \<noteq> b"
    using n d by auto
  note U = unlink_buf_ptrs [OF b len nn]
  have "chain (next_of (unlink_buf b bs)) (prev_of (unlink_buf b bs)) bhead (xs @ ys) bhead"
    unfolding U(1,2) by (rule chain_remove) (use assms d in \<open>auto simp: lru_def\<close>)
  then show "lru (unlink_buf b bs) (xs @ ys)" using d U(4) len by (auto simp: lru_def)
  show "payload (unlink_buf b bs ! i) = payload (bs ! i)" by (rule U(3))
qed

lemma move_front_lru:
  assumes "lru bs xs" "b \<in> set xs"
  shows "lru (link_front b (unlink_buf b bs)) (b # remove1 b xs)"
    "payload (link_front b (unlink_buf b bs) ! i) = payload (bs ! i)"
proof -
  from split_list [OF assms(2)] obtain ys zs where xs: "xs = ys @ b # zs" by blast
  have b: "b < NBUF" "b \<notin> set (ys @ zs)" "remove1 b xs = ys @ zs"
    using assms xs by (auto simp: lru_def remove1_append)
  note U = unlink_lru [OF assms(1) [unfolded xs]]
  note L = link_front_lru [OF U(1) b(1,2)]
  from L(1) b(3) show "lru (link_front b (unlink_buf b bs)) (b # remove1 b xs)" by simp
  from L(2) U(2) show "payload (link_front b (unlink_buf b bs) ! i) = payload (bs ! i)" by simp
qed


section \<open>The cache invariant\<close>

definition fvalid :: "u32 \<Rightarrow> bool" where "fvalid x = bit x 1"

definition fdirty :: "u32 \<Rightarrow> bool" where "fdirty x = bit x 2"

abbreviation valid :: "buf \<Rightarrow> bool" where "valid k \<equiv> fvalid (b_flags k)"

abbreviation dirty :: "buf \<Rightarrow> bool" where "dirty k \<equiv> fdirty (b_flags k)"

lemma bit_flags: "bit B_VALID n \<longleftrightarrow> n = 1" "bit B_DIRTY n \<longleftrightarrow> n = 2"
proof -
  have v: "B_VALID = 2 ^ 1" "B_DIRTY = 2 ^ 2" by (simp_all add: B_VALID_def B_DIRTY_def)
  show "bit B_VALID n \<longleftrightarrow> n = 1" "bit B_DIRTY n \<longleftrightarrow> n = 2"
    unfolding v bit_exp_iff by (auto simp: possible_bit_def)
qed

lemma flag_tests [simp]:
  "x AND B_VALID = 0 \<longleftrightarrow> \<not> fvalid x" "x AND B_DIRTY = 0 \<longleftrightarrow> \<not> fdirty x"
  "x AND (B_VALID OR B_DIRTY) = B_VALID \<longleftrightarrow> fvalid x \<and> \<not> fdirty x"
proof -
  have v: "B_VALID = 2 ^ 1" "B_DIRTY = 2 ^ 2" by (simp_all add: B_VALID_def B_DIRTY_def)
  show "x AND B_VALID = 0 \<longleftrightarrow> \<not> fvalid x" "x AND B_DIRTY = 0 \<longleftrightarrow> \<not> fdirty x"
    unfolding v and_exp_eq_0_iff_not_bit fvalid_def fdirty_def by simp_all
  show "x AND (B_VALID OR B_DIRTY) = B_VALID \<longleftrightarrow> fvalid x \<and> \<not> fdirty x"
    unfolding fvalid_def fdirty_def
  proof
    assume e: "x AND (B_VALID OR B_DIRTY) = B_VALID"
    from arg_cong [OF e, of "\<lambda>w. bit w 1"] arg_cong [OF e, of "\<lambda>w. bit w 2"]
    show "bit x 1 \<and> \<not> bit x 2" by (simp add: bit_and_iff bit_or_iff bit_flags)
  next
    assume "bit x 1 \<and> \<not> bit x 2"
    then show "x AND (B_VALID OR B_DIRTY) = B_VALID"
      by (intro bit_word_eqI) (auto simp: bit_and_iff bit_or_iff bit_flags)
  qed
qed

lemma B_DIRTY_nonzero [simp]: "B_DIRTY \<noteq> 0"
  by (simp add: B_DIRTY_def)

lemma flag_bits [simp]:
  "fvalid (x AND NOT B_DIRTY) = fvalid x" "\<not> fdirty (x AND NOT B_DIRTY)"
  "fvalid (x OR B_VALID)" "fdirty (x OR B_VALID) = fdirty x" "fdirty (x OR B_DIRTY)" "fvalid (x OR B_DIRTY) = fvalid x"
  "\<not> fvalid 0" "\<not> fdirty 0" "fvalid B_VALID" "\<not> fdirty B_VALID"
  by (simp_all only: fvalid_def fdirty_def bit_and_iff bit_or_iff bit_not_iff bit_flags possible_bit_word) auto

text \<open>
  \<open>bc_inv H s\<close>: the list holds every buffer; the buffers in \<open>H\<close> are locked, with one
  reference and valid contents, the others are free; a buffer that stands for a block has
  valid contents, no block has two buffers, and a free buffer that is not dirty agrees with the disk.
\<close>

definition buf_ok :: "'x bio_st_scheme \<Rightarrow> nat set \<Rightarrow> nat \<Rightarrow> buf \<Rightarrow> bool" where
  "buf_ok s H i k \<longleftrightarrow>
     (if i \<in> H then sl_locked (slocks s (SlBuf i)) = 1 \<and> b_refcnt k = 1 \<and> valid k
      else sl_locked (slocks s (SlBuf i)) = 0 \<and> b_refcnt k = 0 \<and>
        (valid k \<and> \<not> dirty k \<longrightarrow> b_data k = disk s (b_blockno k))) \<and>
     (if valid k then b_dev k = 1 \<and> b_blockno k < disksize s else b_dev k = 0 \<and> \<not> dirty k)"

definition bc_inv :: "nat set \<Rightarrow> 'x bio_st_scheme \<Rightarrow> bool" where
  "bc_inv H s \<longleftrightarrow> (\<exists>xs. lru (bufs s) xs \<and> set xs = {..<NBUF}) \<and> H \<subseteq> {..<NBUF} \<and>
     (\<forall>i < NBUF. buf_ok s H i (bufs s ! i)) \<and>
     (\<forall>i < NBUF. \<forall>j < NBUF. valid (bufs s ! i) \<and> valid (bufs s ! j) \<and>
        b_blockno (bufs s ! i) = b_blockno (bufs s ! j) \<longrightarrow> i = j)"

text \<open>The current contents of a block: the cached copy if there is one, else the disk.\<close>

definition slot :: "'x bio_st_scheme \<Rightarrow> nat \<Rightarrow> nat option" where
  "slot s b = findix (cached_as 1 b) 0 (take NBUF (bufs s))"

definition blk :: "'x bio_st_scheme \<Rightarrow> nat \<Rightarrow> byte list" where
  "blk s b = (case slot s b of Some i \<Rightarrow> b_data (bufs s ! i) | None \<Rightarrow> disk s b)"

lemma bc_invE:
  assumes "bc_inv H s"
  obtains xs where "lru (bufs s) xs" "set xs = {..<NBUF}"
  using assms unfolding bc_inv_def by blast

lemma bc_invD:
  assumes "bc_inv H s"
  shows "length (bufs s) = Suc NBUF" "H \<subseteq> {..<NBUF}"
    "\<And>i. i < NBUF \<Longrightarrow> buf_ok s H i (bufs s ! i)"
    "\<And>i j. i < NBUF \<Longrightarrow> j < NBUF \<Longrightarrow> valid (bufs s ! i) \<Longrightarrow> valid (bufs s ! j) \<Longrightarrow>
        b_blockno (bufs s ! i) = b_blockno (bufs s ! j) \<Longrightarrow> i = j"
  using assms unfolding bc_inv_def by (auto simp: lru_def)

lemma slot_Some:
  assumes "bc_inv H s"
  shows "slot s b = Some i \<longleftrightarrow> i < NBUF \<and> valid (bufs s ! i) \<and> b_blockno (bufs s ! i) = b"
proof -
  note len = bc_invD(1) [OF assms] and ok = bc_invD(3) [OF assms] and uniq = bc_invD(4) [OF assms]
  have c: "cached_as 1 b (bufs s ! j) \<longleftrightarrow> valid (bufs s ! j) \<and> b_blockno (bufs s ! j) = b" if "j < NBUF" for j
    using ok [OF that] by (auto simp: buf_ok_def cached_as_def split: if_splits)
  show ?thesis
  proof
    assume "slot s b = Some i"
    from findix_SomeD [OF this [unfolded slot_def]] len c show "i < NBUF \<and> valid (bufs s ! i) \<and> b_blockno (bufs s ! i) = b"
      by auto
  next
    assume i: "i < NBUF \<and> valid (bufs s ! i) \<and> b_blockno (bufs s ! i) = b"
    show "slot s b = Some i"
      unfolding slot_def
    proof (rule findix_eq_Some)
      fix k assume "k < i"
      then show "\<not> cached_as 1 b (take NBUF (bufs s) ! k)" using uniq [of k i] i c [of k] by auto
    qed (use i c len in auto)
  qed
qed

lemma slot_None:
  assumes "bc_inv H s"
  shows "slot s b = None \<longleftrightarrow> (\<forall>i < NBUF. valid (bufs s ! i) \<longrightarrow> b_blockno (bufs s ! i) \<noteq> b)"
  using slot_Some [OF assms] by (metis not_None_eq)

lemma blk_cached: "bc_inv H s \<Longrightarrow> i < NBUF \<Longrightarrow> valid (bufs s ! i) \<Longrightarrow> blk s (b_blockno (bufs s ! i)) = b_data (bufs s ! i)"
  using slot_Some [of H s "b_blockno (bufs s ! i)" i] by (simp add: blk_def)

lemma blk_uncached: "bc_inv H s \<Longrightarrow> \<forall>i < NBUF. valid (bufs s ! i) \<longrightarrow> b_blockno (bufs s ! i) \<noteq> b \<Longrightarrow> blk s b = disk s b"
  using slot_None [of H s b] by (simp add: blk_def)


lemma bc_inv_set:
  assumes inv: "bc_inv H s" and i: "i < NBUF"
    and bufs: "bufs s' = (bufs s)[i := k]" "b_next k = b_next (bufs s ! i)" "b_prev k = b_prev (bufs s ! i)"
    and frame: "\<And>j. j \<noteq> i \<Longrightarrow> slocks s' (SlBuf j) = slocks s (SlBuf j)" "disksize s' = disksize s"
    and H': "H' - {i} = H - {i}"
    and dsk: "\<And>j. j < NBUF \<Longrightarrow> j \<noteq> i \<Longrightarrow> valid (bufs s ! j) \<Longrightarrow> disk s' (b_blockno (bufs s ! j)) = disk s (b_blockno (bufs s ! j))"
    and ok: "buf_ok s' H' i k"
    and uniq: "\<And>j. j < NBUF \<Longrightarrow> j \<noteq> i \<Longrightarrow> valid (bufs s ! j) \<Longrightarrow> valid k \<Longrightarrow> b_blockno (bufs s ! j) \<noteq> b_blockno k"
  shows "bc_inv H' s'"
proof -
  note D = bc_invD [OF inv]
  from inv obtain xs where xs: "lru (bufs s) xs" "set xs = {..<NBUF}" by (rule bc_invE)
  have "lru (bufs s') xs" by (rule lru_cong [OF xs(1)]) (use bufs i D(1) in \<open>auto simp: nth_list_update\<close>)
  moreover have "H' \<subseteq> {..<NBUF}" using D(2) H' i by blast
  moreover have "buf_ok s' H' j (bufs s' ! j)" if "j < NBUF" for j
  proof (cases "j = i")
    case True
    with ok bufs(1) D(1) i show ?thesis by simp
  next
    case False
    then have "j \<in> H' \<longleftrightarrow> j \<in> H" using H' by blast
    with D(3) [OF that] False frame dsk [OF that False] bufs(1) show ?thesis
      by (auto simp: buf_ok_def split: if_splits)
  qed
  moreover have "a = c" if "a < NBUF" "c < NBUF" "valid (bufs s' ! a)" "valid (bufs s' ! c)"
    "b_blockno (bufs s' ! a) = b_blockno (bufs s' ! c)" for a c
    using that D(1) D(4) [of a c] uniq [of a] uniq [of c] bufs(1) i
    by (auto simp: nth_list_update split: if_splits)
  ultimately show ?thesis unfolding bc_inv_def using xs(2) by blast
qed

text \<open>\<open>slot\<close> and \<open>blk\<close> after a change of one buffer.\<close>

lemma blk_set:
  assumes inv: "bc_inv H s" and inv': "bc_inv H' s'" and i: "i < NBUF" and bufs: "bufs s' = (bufs s)[i := k]"
    and k: "valid k" "b_blockno k = b"
    and old: "valid (bufs s ! i) \<Longrightarrow> b_blockno (bufs s ! i) \<noteq> b \<Longrightarrow>
        disk s' (b_blockno (bufs s ! i)) = b_data (bufs s ! i)"
    and dsk: "\<And>c. c \<noteq> b \<Longrightarrow> disk s' c = disk s c"
  shows "blk s' = (blk s)(b := b_data k)"
proof
  note len = bc_invD(1) [OF inv]
  fix c
  show "blk s' c = ((blk s)(b := b_data k)) c"
  proof (cases "c = b")
    case True
    with blk_cached [OF inv' i] k bufs len i show ?thesis by simp
  next
    case False
    show ?thesis
    proof (cases "slot s' c")
      case (Some j)
      then have j: "j < NBUF" "valid (bufs s' ! j)" "b_blockno (bufs s' ! j) = c"
        using slot_Some [OF inv'] by auto
      with False k bufs len i have "j \<noteq> i" by auto
      with j bufs have "slot s c = Some j" using slot_Some [OF inv] by auto
      with Some bufs \<open>j \<noteq> i\<close> False show ?thesis by (simp add: blk_def)
    next
      case None
      then have n: "\<forall>j < NBUF. valid (bufs s' ! j) \<longrightarrow> b_blockno (bufs s' ! j) \<noteq> c"
        using slot_None [OF inv'] by simp
      show ?thesis
      proof (cases "slot s c")
        case (Some j)
        then have j: "j < NBUF" "valid (bufs s ! j)" "b_blockno (bufs s ! j) = c"
          using slot_Some [OF inv] by auto
        with n bufs have "j = i" by (metis nth_list_update_neq)
        with j old False None Some show ?thesis by (simp add: blk_def)
      qed (use None False dsk in \<open>simp add: blk_def\<close>)
    qed
  qed
qed

definition dirties :: "'x bio_st_scheme \<Rightarrow> nat set" where
  "dirties s = {b. \<exists>i < NBUF. dirty (bufs s ! i) \<and> b_blockno (bufs s ! i) = b}"


lemma bio_km_last [simp]:
  "bufs_update f (km_update g s) = km_update g (bufs_update f s)"
  "disk_update f' (km_update g s) = km_update g (disk_update f' s)"
  "dhist_update f'' (km_update g s) = km_update g (dhist_update f'' s)"
  "slocks_update h (bufs_update f s) = bufs_update f (slocks_update h s)"
  "bufs_update f (disk_update f' s) = disk_update f' (bufs_update f s)"
  "bufs_update f (dhist_update f'' s) = dhist_update f'' (bufs_update f s)"
  "procs_update h' (bufs_update f s) = bufs_update f (procs_update h' s)"
  by (cases s; simp)+

section \<open>Rules of bread, bwrite and brelse\<close>

definition calm :: "'x kst_scheme \<Rightarrow> bool" where
  "calm s \<longleftrightarrow> mach_inv {} (km s) \<and> curproc (km s) \<noteq> None"

lemma find_SomeD: "find P xs = Some x \<Longrightarrow> x \<in> set xs \<and> P x"
  by (induction xs) (auto split: if_splits)

lemma find_hit:
  assumes "bc_inv H s" "lru (bufs s) xs" "set xs = {..<NBUF}"
  shows "find (\<lambda>i. cached_as 1 b (bufs s ! i)) xs = slot s b"
proof -
  have c: "cached_as 1 b (bufs s ! j) \<longleftrightarrow> slot s b = Some j" if "j < NBUF" for j
    using bc_invD(3) [OF assms(1) that] slot_Some [OF assms(1), of b j] that
    by (auto simp: buf_ok_def cached_as_def split: if_splits)
  show ?thesis
  proof (cases "slot s b")
    case None
    with c assms(3) show ?thesis by (auto simp: find_None_iff)
  next
    case (Some i)
    with slot_Some [OF assms(1)] assms(3) have i: "i \<in> set xs" "cached_as 1 b (bufs s ! i)"
      using c by auto
    then have "find (\<lambda>i. cached_as 1 b (bufs s ! i)) xs \<noteq> None" by (auto simp: find_None_iff)
    then obtain j where j: "find (\<lambda>i. cached_as 1 b (bufs s ! i)) xs = Some j" by blast
    then have "j \<in> set xs" "cached_as 1 b (bufs s ! j)" by (auto dest: find_SomeD)
    with c [of j] assms(3) Some j show ?thesis by auto
  qed
qed

lemma bread_hit:
  assumes "mach_inv {} (km s)" "curproc (km s) = Some p" "bc_inv H s" "slot s b = Some i" "i \<notin> H"
    and Q: "\<And>m'. mach_inv {} m' \<Longrightarrow> curproc m' = Some p \<Longrightarrow> ident m' = ident (km s) \<Longrightarrow>
      Q i (s\<lparr>slocks := (slocks s)(SlBuf i := (slocks s (SlBuf i))\<lparr>sl_locked := 1, sl_pid := p_pid (procs s ! p)\<rparr>),
        bufs := (bufs s)[i := (bufs s ! i)\<lparr>b_refcnt := 1\<rparr>], km := m'\<rparr>)"
  shows "wp (bread 1 b) Q s"
proof -
  note D = bc_invD [OF assms(3)]
  from assms(3) obtain xs where xs: "lru (bufs s) xs" "set xs = {..<NBUF}" by (rule bc_invE)
  have i: "i < NBUF" "valid (bufs s ! i)" using slot_Some [OF assms(3)] assms(4) by auto
  then have u: "sl_locked (slocks s (SlBuf i)) = 0" "b_refcnt (bufs s ! i) = 0"
    using D(3) [OF i(1)] assms(5) by (auto simp: buf_ok_def)
  have f: "lru_find (cached_as 1 b) b_next (bufs s) (Suc NBUF) (b_next (bufs s ! bhead)) = Some (Some i)"
    using lru_find_next [OF xs(1)] find_hit [OF assms(3) xs] assms(4) by simp
  show ?thesis
    unfolding bread_def bget_def wp_bindK wp_gets
    by (rule acquire_onm [OF assms(1)])
       (use f i u D(1) assms(2) in \<open>auto simp: upd_buf_def simp del: One_nat_def lru_find.simps
          intro!: release_onm [of "{LkBcache}"] acquiresleep_wp [where p = p] Q\<close>)
qed

lemma bread_miss:
  assumes "mach_inv {} (km s)" "curproc (km s) = Some p" "bc_inv H s" "slot s b = None" "b < disksize s"
    "i0 < NBUF" "i0 \<notin> H" "\<not> dirty (bufs s ! i0)"
    and Q: "\<And>i m'. i < NBUF \<Longrightarrow> i \<notin> H \<Longrightarrow> \<not> dirty (bufs s ! i) \<Longrightarrow> mach_inv {} m' \<Longrightarrow> curproc m' = Some p \<Longrightarrow>
      ident m' = ident (km s) \<Longrightarrow>
      Q i (s\<lparr>slocks := (slocks s)(SlBuf i := (slocks s (SlBuf i))\<lparr>sl_locked := 1, sl_pid := p_pid (procs s ! p)\<rparr>),
        bufs := (bufs s)[i := (bufs s ! i)\<lparr>b_dev := 1, b_blockno := b,
           b_refcnt := 1, b_data := disk s b, b_flags := B_VALID\<rparr>], km := m'\<rparr>)"
  shows "wp (bread 1 b) Q s"
proof -
  note D = bc_invD [OF assms(3)]
  from assms(3) obtain xs where xs: "lru (bufs s) xs" "set xs = {..<NBUF}" by (rule bc_invE)
  have f: "lru_find (cached_as 1 b) b_next (bufs s) (Suc NBUF) (b_next (bufs s ! bhead)) = Some None"
    using lru_find_next [OF xs(1)] find_hit [OF assms(3) xs] assms(4) by simp
  have "recyclable (bufs s ! i0)" using D(3) [OF assms(6)] assms(7,8) by (simp add: recyclable_def buf_ok_def)
  with assms(6) xs(2) have "find (\<lambda>i. recyclable (bufs s ! i)) (rev xs) \<noteq> None" by (auto simp: find_None_iff)
  then obtain i where fi: "find (\<lambda>i. recyclable (bufs s ! i)) (rev xs) = Some i" by blast
  from find_SomeD [OF fi] have i: "i < NBUF" "recyclable (bufs s ! i)" by (simp_all add: xs(2))
  then have u: "i \<notin> H" "\<not> dirty (bufs s ! i)" "sl_locked (slocks s (SlBuf i)) = 0"
    using D(3) [OF i(1)] by (auto simp: buf_ok_def recyclable_def split: if_splits)
  have f2: "lru_find recyclable b_prev (bufs s) (Suc NBUF) (b_prev (bufs s ! bhead)) = Some (Some i)"
    using lru_find_prev [OF xs(1)] fi by simp
  show ?thesis
    unfolding bread_def bget_def iderw_def wp_bindK wp_gets
    by (rule acquire_onm [OF assms(1)])
       (use f f2 i u D(1) assms(2,5) in \<open>auto simp: upd_buf_def simp del: One_nat_def lru_find.simps
          intro!: release_onm [of "{LkBcache}"] acquiresleep_wp [where p = p] holdingsleep_wp Q\<close>)
qed


text \<open>
  The processes before and after a wakeup: a sleeping process may have become runnable,
  nothing else changes.  \<open>bframe\<close> says what the buffer operations leave alone.
\<close>

definition woken1 :: "proc \<Rightarrow> proc \<Rightarrow> bool" where
  "woken1 p q \<longleftrightarrow> q = p \<or> p_state p = SLEEPING \<and> q = p\<lparr>p_state := RUNNABLE\<rparr>"

abbreviation woken :: "proc list \<Rightarrow> proc list \<Rightarrow> bool" where
  "woken \<equiv> list_all2 woken1"

lemma woken_refl [simp]: "woken ps ps"
  by (rule list_all2_refl) (simp add: woken1_def)

lemma woken_trans: "woken ps qs \<Longrightarrow> woken qs rs \<Longrightarrow> woken ps rs"
  by (rule list_all2_trans [of woken1 woken1 woken1]) (auto simp: woken1_def)

lemma woken_wake [simp]: "woken ps (map (wake ch) ps)"
  by (auto simp: list_all2_conv_all_nth woken1_def wake_def)

definition bframe :: "'x bio_st_scheme \<Rightarrow> 'x bio_st_scheme \<Rightarrow> bool" where
  "bframe s s' \<longleftrightarrow> woken (procs s) (procs s') \<and> ident (km s') = ident (km s) \<and> initproc s' = initproc s \<and>
     nextpid s' = nextpid s \<and> kpgdir s' = kpgdir s \<and> cr3 s' = cr3 s \<and> esp0 s' = esp0 s \<and>
     (\<forall>i. slocks s' (SlInode i) = slocks s (SlInode i)) \<and> disksize s' = disksize s \<and>
     ram s' = ram s \<and> freelist s' = freelist s \<and> use_lock s' = use_lock s \<and> kend s' = kend s"

lemma bframe_refl [simp]: "bframe s s"
  by (simp add: bframe_def)

lemma bframe_trans: "bframe s t \<Longrightarrow> bframe t u \<Longrightarrow> bframe s u"
  by (auto simp: bframe_def intro: woken_trans)

lemma bframe_curproc: "bframe s s' \<Longrightarrow> curproc (km s') = curproc (km s)"
  by (rule ident_cong(2)) (simp add: bframe_def)

text \<open>What \<open>bread\<close> of block \<open>b\<close> promises, with the buffers \<open>H\<close> already held.\<close>

definition bread_post :: "nat set \<Rightarrow> nat \<Rightarrow> 'x bio_st_scheme \<Rightarrow> nat \<Rightarrow> 'x bio_st_scheme \<Rightarrow> bool" where
  "bread_post H b s i s' \<longleftrightarrow> i < NBUF \<and> i \<notin> H \<and> bc_inv (insert i H) s' \<and> calm s' \<and>
     b_blockno (bufs s' ! i) = b \<and> b_data (bufs s' ! i) = blk s b \<and>
     blk s' = blk s \<and> disk s' = disk s \<and> dhist s' = dhist s \<and> dirties s' = dirties s \<and>
     (\<forall>j \<in> H. payload (bufs s' ! j) = payload (bufs s ! j)) \<and> bframe s s' \<and> bio_st.more s' = bio_st.more s"

lemma fdirty_dev:
  assumes "bc_inv H s" "i < NBUF" "dirty (bufs s ! i)"
  shows "valid (bufs s ! i)"
  using bc_invD(3) [OF assms(1,2)] assms(3) by (auto simp: buf_ok_def split: if_splits)

lemma dirties_set:
  assumes "bufs s' = (bufs s)[i := k]" "i < NBUF" "i < length (bufs s)" "dirty k = dirty (bufs s ! i)"
    "dirty k \<Longrightarrow> b_blockno k = b_blockno (bufs s ! i)"
  shows "dirties s' = dirties s"
proof -
  have "dirty (bufs s' ! j) \<and> b_blockno (bufs s' ! j) = b \<longleftrightarrow> dirty (bufs s ! j) \<and> b_blockno (bufs s ! j) = b" for j b
    using assms by (cases "j = i") auto
  then show ?thesis by (simp add: dirties_def)
qed

lemma bread_wp:
  assumes "calm s" "bc_inv H s" "b < disksize s" "\<forall>i \<in> H. b_blockno (bufs s ! i) \<noteq> b"
    and "slot s b \<noteq> None \<or> (\<exists>i < NBUF. i \<notin> H \<and> \<not> dirty (bufs s ! i))"
    and Q: "\<And>i s'. bread_post H b s i s' \<Longrightarrow> Q i s'"
  shows "wp (bread 1 b) Q s"
proof -
  note D = bc_invD [OF assms(2)]
  from assms(1) obtain p where m: "mach_inv {} (km s)" "curproc (km s) = Some p" by (auto simp: calm_def)
  have post: "bread_post H b s i s'"
    if "i < NBUF" "i \<notin> H" "bufs s' = (bufs s)[i := k]" "bc_inv (insert i H) s'" "blk s' = (blk s)(b := b_data k)"
      "mach_inv {} (km s')" "curproc (km s') = Some p" "b_blockno k = b" "b_data k = blk s b"
      "disk s' = disk s" "dhist s' = dhist s" "dirty k = dirty (bufs s ! i)"
      "dirty k \<Longrightarrow> b_blockno k = b_blockno (bufs s ! i)" "bframe s s'" "bio_st.more s' = bio_st.more s" for i k s'
    using that D(1) dirties_set [OF that(3,1)]
    by (auto simp: bread_post_def calm_def nth_list_update)
  show ?thesis
  proof (cases "slot s b")
    case (Some i)
    then have i: "i < NBUF" "valid (bufs s ! i)" "b_blockno (bufs s ! i) = b" using slot_Some [OF assms(2)] by auto
    with assms(4) have nH: "i \<notin> H" by auto
    note ok = D(3) [OF i(1)]
    have uq: "b_blockno (bufs s ! j) \<noteq> b" if "j < NBUF" "j \<noteq> i" "valid (bufs s ! j)" for j
      using D(4) [OF that(1) i(1) that(3) i(2)] i(3) that(2) by auto
    show ?thesis
    proof (rule bread_hit [OF m assms(2) Some nH], rule Q)
      fix m' assume m': "mach_inv {} m'" "curproc m' = Some p" "ident m' = ident (km s)"
      let ?k = "(bufs s ! i)\<lparr>b_refcnt := 1\<rparr>"
      let ?s = "s\<lparr>slocks := (slocks s)(SlBuf i := (slocks s (SlBuf i))\<lparr>sl_locked := 1, sl_pid := p_pid (procs s ! p)\<rparr>),
          bufs := (bufs s)[i := ?k], km := m'\<rparr>"
      have inv: "bc_inv (insert i H) ?s"
        by (rule bc_inv_set [OF assms(2) i(1), where k = ?k])
           (use ok i nH uq in \<open>simp_all add: buf_ok_def\<close>)
      have "blk ?s = (blk s)(b := b_data ?k)"
        by (rule blk_set [OF assms(2) inv i(1), where k = ?k]) (use i in auto)
      then show "bread_post H b s i ?s"
        by (intro post [where k = ?k]) (use inv i nH m' blk_cached [OF assms(2) i(1,2)] in \<open>auto simp: bframe_def\<close>)
    qed
  next
    case None
    with assms(5) obtain i0 where i0: "i0 < NBUF" "i0 \<notin> H" "\<not> dirty (bufs s ! i0)" by blast
    have nb: "\<forall>j < NBUF. valid (bufs s ! j) \<longrightarrow> b_blockno (bufs s ! j) \<noteq> b" using None slot_None [OF assms(2)] by simp
    show ?thesis
    proof (rule bread_miss [OF m assms(2) None assms(3) i0], rule Q)
      fix i m' assume i: "i < NBUF" "i \<notin> H" "\<not> dirty (bufs s ! i)"
        and m': "mach_inv {} m'" "curproc m' = Some p" "ident m' = ident (km s)"
      let ?k = "(bufs s ! i)\<lparr>b_dev := 1, b_blockno := b, b_refcnt := 1, b_data := disk s b, b_flags := B_VALID\<rparr>"
      let ?s = "s\<lparr>slocks := (slocks s)(SlBuf i := (slocks s (SlBuf i))\<lparr>sl_locked := 1, sl_pid := p_pid (procs s ! p)\<rparr>),
          bufs := (bufs s)[i := ?k], km := m'\<rparr>"
      have inv: "bc_inv (insert i H) ?s"
        by (rule bc_inv_set [OF assms(2) i(1), where k = ?k])
           (use i nb assms(3) in \<open>auto simp: buf_ok_def\<close>)
      have "blk ?s = (blk s)(b := b_data ?k)"
        by (rule blk_set [OF assms(2) inv i(1), where k = ?k]) (use i D(3) [OF i(1)] in \<open>auto simp: buf_ok_def\<close>)
      then show "bread_post H b s i ?s"
        by (intro post [where k = ?k]) (use inv i m' blk_uncached [OF assms(2) nb] in \<open>auto simp: bframe_def\<close>)
    qed
  qed
qed


lemma payload_eqD:
  assumes "payload k = payload k'"
  shows "b_flags k = b_flags k'" "b_dev k = b_dev k'" "b_blockno k = b_blockno k'" "b_refcnt k = b_refcnt k'" "b_data k = b_data k'"
  using assms by (simp_all add: payload_def)

lemma payload_set [simp]:
  "payload (k\<lparr>b_next := a\<rparr>) = payload k" "payload (k\<lparr>b_prev := a\<rparr>) = payload k"
  by (simp_all add: payload_def)

lemma bc_inv_payload:
  assumes inv: "bc_inv H s" and "lru (bufs s') xs" "set xs = {..<NBUF}"
    and pl: "\<And>j. payload (bufs s' ! j) = payload (bufs s ! j)"
    and "\<And>j. slocks s' (SlBuf j) = slocks s (SlBuf j)" "disk s' = disk s" "disksize s' = disksize s"
  shows "bc_inv H s'" "blk s' = blk s" "dirties s' = dirties s"
proof -
  note D = bc_invD [OF inv] and P = payload_eqD [OF pl]
  show inv': "bc_inv H s'"
    unfolding bc_inv_def
  proof (intro conjI allI impI)
    show "\<exists>xs. lru (bufs s') xs \<and> set xs = {..<NBUF}" using assms(2,3) by blast
    show "H \<subseteq> {..<NBUF}" by (rule D(2))
    show "buf_ok s' H i (bufs s' ! i)" if "i < NBUF" for i
      using D(3) [OF that] P [of i] assms(5-7) by (auto simp: buf_ok_def split: if_splits)
  qed (elim conjE, rule D(4), simp_all add: P)
  have "slot s' b = Some i \<longleftrightarrow> slot s b = Some i" for b i
    by (simp add: slot_Some [OF inv] slot_Some [OF inv'] P)
  then have "slot s' b = slot s b" for b by (metis not_None_eq)
  then show "blk s' = blk s" using P assms(6) by (auto simp: blk_def fun_eq_iff split: option.splits)
  show "dirties s' = dirties s" by (simp add: dirties_def P)
qed

lemma held_ok:
  assumes "bc_inv H s" "i \<in> H"
  shows "i < NBUF" "sl_locked (slocks s (SlBuf i)) = 1" "b_refcnt (bufs s ! i) = 1" "valid (bufs s ! i)"
    "b_dev (bufs s ! i) = 1" "b_blockno (bufs s ! i) < disksize s"
proof -
  show i: "i < NBUF" using bc_invD(2) [OF assms(1)] assms(2) by auto
  show "sl_locked (slocks s (SlBuf i)) = 1" "b_refcnt (bufs s ! i) = 1" "valid (bufs s ! i)"
    "b_dev (bufs s ! i) = 1" "b_blockno (bufs s ! i) < disksize s"
    using bc_invD(3) [OF assms(1) i] assms(2) by (auto simp: buf_ok_def split: if_splits)
qed

lemma other_blocks:
  assumes "bc_inv H s" "i \<in> H" "j < NBUF" "j \<noteq> i" "valid (bufs s ! j)"
  shows "b_blockno (bufs s ! j) \<noteq> b_blockno (bufs s ! i)"
  using bc_invD(4) [OF assms(1) assms(3) held_ok(1) [OF assms(1,2)] assms(5) held_ok(4) [OF assms(1,2)]] assms(4) by auto

text \<open>The holder of a buffer changes its data or flags.\<close>

lemma held_set:
  assumes inv: "bc_inv H s" and i: "i \<in> H" and bufs: "bufs s' = (bufs s)[i := k]"
    and k: "b_next k = b_next (bufs s ! i)" "b_prev k = b_prev (bufs s ! i)" "b_dev k = b_dev (bufs s ! i)"
      "b_blockno k = b_blockno (bufs s ! i)" "b_refcnt k = b_refcnt (bufs s ! i)" "valid k"
    and fr: "slocks s' = slocks s" "disksize s' = disksize s"
    and dsk: "\<And>c. c \<noteq> b_blockno (bufs s ! i) \<Longrightarrow> disk s' c = disk s c"
  shows "bc_inv H s'" "blk s' = (blk s)(b_blockno (bufs s ! i) := b_data k)"
proof -
  note h = held_ok [OF inv i]
  show inv': "bc_inv H s'"
    by (rule bc_inv_set [OF inv h(1) bufs k(1,2)])
       (use i h k fr dsk other_blocks [OF inv i] in \<open>simp_all add: buf_ok_def\<close>)
  show "blk s' = (blk s)(b_blockno (bufs s ! i) := b_data k)"
    by (rule blk_set [OF inv inv' h(1) bufs k(6,4)]) (use dsk in auto)
qed

definition bwrite_post :: "nat set \<Rightarrow> nat \<Rightarrow> 'x bio_st_scheme \<Rightarrow> 'x bio_st_scheme \<Rightarrow> bool" where
  "bwrite_post H i s s' \<longleftrightarrow> bc_inv H s' \<and> calm s' \<and> blk s' = blk s \<and>
     disk s' = (disk s)(b_blockno (bufs s ! i) := b_data (bufs s ! i)) \<and>
     dhist s' = dhist s @ [(b_blockno (bufs s ! i), b_data (bufs s ! i))] \<and>
     dirties s' = dirties s - {b_blockno (bufs s ! i)} \<and>
     (\<forall>j. j \<noteq> i \<longrightarrow> bufs s' ! j = bufs s ! j) \<and> b_blockno (bufs s' ! i) = b_blockno (bufs s ! i) \<and>
     b_data (bufs s' ! i) = b_data (bufs s ! i) \<and> \<not> dirty (bufs s' ! i) \<and> bframe s s' \<and> bio_st.more s' = bio_st.more s"

lemma bwrite_wp:
  assumes "calm s" "bc_inv H s" "i \<in> H" and Q: "\<And>s'. bwrite_post H i s s' \<Longrightarrow> Q () s'"
  shows "wp (bwrite i) Q s"
proof -
  note h = held_ok [OF assms(2,3)] and len = bc_invD(1) [OF assms(2)]
  have m: "mach_inv {} (km s)" "curproc (km s) \<noteq> None" using assms(1) by (auto simp: calm_def)
  let ?b = "b_blockno (bufs s ! i)" and ?d = "b_data (bufs s ! i)"
  let ?k = "(bufs s ! i)\<lparr>b_flags := (b_flags (bufs s ! i) OR B_DIRTY) AND NOT B_DIRTY OR B_VALID\<rparr>"
  have post: "bwrite_post H i s (s\<lparr>bufs := (bufs s)[i := ?k], disk := (disk s)(?b := ?d),
      dhist := dhist s @ [(?b, ?d)], km := m'\<rparr>)" (is "bwrite_post H i s ?s")
    if m': "mach_inv {} m'" "curproc m' = curproc (km s)" "ident m' = ident (km s)" for m'
  proof -
    have "bc_inv H ?s" "blk ?s = (blk s)(?b := b_data ?k)"
      by (rule held_set [OF assms(2,3), where k = ?k]; use h in simp)+
    moreover have "dirty (bufs ?s ! j) \<and> b_blockno (bufs ?s ! j) = c \<longleftrightarrow>
        j \<noteq> i \<and> dirty (bufs s ! j) \<and> b_blockno (bufs s ! j) = c" for j c
      using h(1) len by (cases "j = i") auto
    then have "dirties ?s = {b. \<exists>j < NBUF. j \<noteq> i \<and> dirty (bufs s ! j) \<and> b_blockno (bufs s ! j) = b}"
      by (simp add: dirties_def)
    then have "dirties ?s = dirties s - {?b}"
      using other_blocks [OF assms(2,3)] fdirty_dev [OF assms(2)] unfolding dirties_def by blast
    moreover have "(blk s)(?b := ?d) = blk s"
      using blk_cached [OF assms(2) h(1,4)] by (simp add: fun_upd_idem)
    ultimately show ?thesis
      using m m' len h(1) by (simp add: bwrite_post_def calm_def bframe_def)
  qed
  show ?thesis
    unfolding bwrite_def iderw_def wp_bindK
    by (rule holdingsleep_wp [OF m(1)])
       (use h len m in \<open>auto simp: upd_buf_def simp del: One_nat_def intro!: holdingsleep_wp Q post\<close>)
qed


definition brelse_post :: "nat set \<Rightarrow> nat \<Rightarrow> 'x bio_st_scheme \<Rightarrow> 'x bio_st_scheme \<Rightarrow> bool" where
  "brelse_post H i s s' \<longleftrightarrow> bc_inv (H - {i}) s' \<and> calm s' \<and> blk s' = blk s \<and> disk s' = disk s \<and>
     dhist s' = dhist s \<and> dirties s' = dirties s \<and>
     (\<forall>j. j \<noteq> i \<longrightarrow> payload (bufs s' ! j) = payload (bufs s ! j)) \<and> bframe s s' \<and> bio_st.more s' = bio_st.more s"

lemma brelse_wp:
  assumes "calm s" "bc_inv H s" "i \<in> H"
    and clean: "dirty (bufs s ! i) \<or> b_data (bufs s ! i) = disk s (b_blockno (bufs s ! i))"
    and Q: "\<And>s'. brelse_post H i s s' \<Longrightarrow> Q () s'"
  shows "wp (brelse i) Q s"
proof -
  note h = held_ok [OF assms(2,3)] and len = bc_invD(1) [OF assms(2)]
  have m: "mach_inv {} (km s)" "curproc (km s) \<noteq> None" using assms(1) by (auto simp: calm_def)
  let ?k = "(bufs s ! i)\<lparr>b_refcnt := 0\<rparr>"
  have post: "brelse_post H i s (s\<lparr>procs := map (wake (Some (ChSleep (SlBuf i)))) (procs s),
       slocks := (slocks s)(SlBuf i := (slocks s (SlBuf i))\<lparr>sl_locked := 0, sl_pid := 0\<rparr>),
       bufs := link_front i (unlink_buf i ((bufs s)[i := ?k])), km := m'\<rparr>)" (is "brelse_post H i s ?s")
    if m': "mach_inv {} m'" "curproc m' = curproc (km s)" "ident m' = ident (km s)" for m'
  proof -
    let ?t = "?s\<lparr>bufs := (bufs s)[i := ?k]\<rparr>"
    have t: "bc_inv (H - {i}) ?t"
      by (rule bc_inv_set [OF assms(2) h(1), where k = ?k])
         (use h clean other_blocks [OF assms(2,3)] in \<open>auto simp: buf_ok_def\<close>)
    have bt: "blk ?t = (blk s)(b_blockno (bufs s ! i) := b_data ?k)"
      by (rule blk_set [OF assms(2) t h(1), where k = ?k]) (use h in auto)
    have dt: "dirties ?t = dirties s" by (rule dirties_set [of _ _ i ?k]) (use h len in auto)
    from t obtain xs where xs: "lru (bufs ?t) xs" "set xs = {..<NBUF}" by (rule bc_invE)
    have "i \<in> set xs" using xs(2) h(1) by simp
    note L = move_front_lru [OF xs(1) this]
    have sx: "set (i # remove1 i xs) = {..<NBUF}" using xs h(1) by (auto simp: lru_def)
    have bs: "bufs ?s = link_front i (unlink_buf i (bufs ?t))" by simp
    note B = bc_inv_payload [OF t, of ?s "i # remove1 i xs", OF L(1) [folded bs] sx L(2) [folded bs]]
    have "payload (bufs ?s ! j) = payload (bufs s ! j)" if "j \<noteq> i" for j
      unfolding bs L(2) using that by simp
    moreover have "(blk s)(b_blockno (bufs s ! i) := b_data (bufs s ! i)) = blk s"
      using blk_cached [OF assms(2) h(1,4)] by (simp add: fun_upd_idem)
    ultimately show ?thesis
      using m m' B bt dt by (simp add: brelse_post_def calm_def bframe_def)
  qed
  show ?thesis
    unfolding brelse_def wp_bindK
    by (rule holdingsleep_wp [OF m(1)])
       (use h len m in \<open>auto simp: upd_buf_def simp del: One_nat_def
          intro!: releasesleep_wp acquire_onm [of "{}"] release_onm [of "{LkBcache}"] Q post\<close>)
qed


text \<open>There is a buffer to recycle as long as pinned and held buffers do not take them all.\<close>

lemma buffer_left:
  assumes "bc_inv H s" "card (dirties s) + card H < NBUF"
  shows "\<exists>i < NBUF. i \<notin> H \<and> \<not> dirty (bufs s ! i)"
proof (rule ccontr)
  assume "\<not> ?thesis"
  then have sub: "{..<NBUF} \<subseteq> {i. i < NBUF \<and> dirty (bufs s ! i)} \<union> H" by auto
  have "inj_on (\<lambda>i. b_blockno (bufs s ! i)) {i. i < NBUF \<and> dirty (bufs s ! i)}"
    by (rule inj_onI) (auto intro: bc_invD(4) [OF assms(1)] fdirty_dev [OF assms(1)])
  moreover have "(\<lambda>i. b_blockno (bufs s ! i)) ` {i. i < NBUF \<and> dirty (bufs s ! i)} = dirties s"
    by (auto simp: dirties_def)
  ultimately have c: "card {i. i < NBUF \<and> dirty (bufs s ! i)} = card (dirties s)"
    by (metis card_image)
  have "finite H" using bc_invD(2) [OF assms(1)] finite_subset by blast
  then have "NBUF \<le> card ({i. i < NBUF \<and> dirty (bufs s ! i)} \<union> H)"
    using card_mono [OF _ sub] by simp
  also have "\<dots> \<le> card (dirties s) + card H" using card_Un_le c by metis
  finally show False using assms(2) by simp
qed

lemma blk_clean:
  assumes "bc_inv {} s" "b \<notin> dirties s"
  shows "blk s b = disk s b"
proof (cases "slot s b")
  case (Some i)
  then have i: "i < NBUF" "valid (bufs s ! i)" "b_blockno (bufs s ! i) = b" using slot_Some [OF assms(1)] by auto
  with assms(2) have "\<not> dirty (bufs s ! i)" by (auto simp: dirties_def)
  with bc_invD(3) [OF assms(1) i(1)] i Some show ?thesis by (simp add: buf_ok_def blk_def)
qed (simp add: blk_def)

lemma dirty_slot:
  assumes "bc_inv H s" "b \<in> dirties s"
  shows "slot s b \<noteq> None"
  using assms slot_None [OF assms(1), of b] fdirty_dev [OF assms(1)] by (auto simp: dirties_def)

lemma finite_dirties [simp]: "finite (dirties s)"
proof -
  have "dirties s = (\<lambda>i. b_blockno (bufs s ! i)) ` {i. i < NBUF \<and> dirty (bufs s ! i)}" by (auto simp: dirties_def)
  then show ?thesis by simp
qed

text \<open>An assignment to the data of a held buffer.\<close>

definition upd_post :: "nat set \<Rightarrow> nat \<Rightarrow> byte list \<Rightarrow> 'x bio_st_scheme \<Rightarrow> 'x bio_st_scheme \<Rightarrow> bool" where
  "upd_post H i d s s' \<longleftrightarrow> bc_inv H s' \<and> calm s' \<and> blk s' = (blk s)(b_blockno (bufs s ! i) := d) \<and>
     disk s' = disk s \<and> dhist s' = dhist s \<and> dirties s' = dirties s \<and> (\<forall>j. j \<noteq> i \<longrightarrow> bufs s' ! j = bufs s ! j) \<and>
     b_blockno (bufs s' ! i) = b_blockno (bufs s ! i) \<and> b_flags (bufs s' ! i) = b_flags (bufs s ! i) \<and>
     b_data (bufs s' ! i) = d \<and> bframe s s' \<and> bio_st.more s' = bio_st.more s"

lemma upd_data:
  assumes "calm s" "bc_inv H s" "i \<in> H"
  shows "upd_post H i (f (bufs s ! i)) s (upd_buf i (\<lambda>k. k\<lparr>b_data := f k\<rparr>) s)" (is "upd_post H i ?d s ?s")
proof -
  note h = held_ok [OF assms(2,3)] and len = bc_invD(1) [OF assms(2)]
  let ?k = "(bufs s ! i)\<lparr>b_data := ?d\<rparr>"
  have "bc_inv H ?s" "blk ?s = (blk s)(b_blockno (bufs s ! i) := b_data ?k)"
    by (rule held_set [OF assms(2,3), where k = ?k]; use h in \<open>simp add: upd_buf_def\<close>)+
  moreover have "dirties ?s = dirties s"
    by (rule dirties_set [of _ _ i ?k]) (use h(1) len in \<open>simp_all add: upd_buf_def\<close>)
  ultimately show ?thesis
    using assms(1) h(1) len by (simp add: upd_post_def upd_buf_def calm_def bframe_def)
qed

text \<open>The machine state and the processes do not matter to the cache.\<close>

lemma bc_inv_km [simp]:
  "bc_inv H (km_update g s) = bc_inv H s" "blk (km_update g s) = blk s" "dirties (km_update g s) = dirties s"
  "bc_inv H (procs_update h s) = bc_inv H s" "blk (procs_update h s) = blk s" "dirties (procs_update h s) = dirties s"
  "calm (procs_update h s) = calm s"
  by (simp_all add: bc_inv_def buf_ok_def blk_def slot_def dirties_def calm_def fun_eq_iff split: option.split)

section \<open>Initialisation\<close>

lemma initsleeplock_wp:
  "wp (initsleeplock l name) Q s = Q () (upd_slock l (\<lambda>k. k\<lparr>sl_name := name, sl_locked := 0, sl_pid := 0\<rparr>)
     (s\<lparr>km := (km s)\<lparr>locks := (locks (km s))(LkSleep l := (locks (km s) (LkSleep l))\<lparr>lk_name := ''sleep lock'', lk_locked := 0, lk_cpu := None\<rparr>)\<rparr>\<rparr>))"
  by (simp add: initsleeplock_def initlock_def wp_onm)

text \<open>What \<open>binit_loop\<close> keeps of the rest of the state: contents, disk, and the other locks.\<close>

definition binit_rel :: "nat \<Rightarrow> 'x bio_st_scheme \<Rightarrow> 'x bio_st_scheme \<Rightarrow> bool" where
  "binit_rel n s s' \<longleftrightarrow> (\<forall>j. payload (bufs s' ! j) = payload (bufs s ! j)) \<and> disk s' = disk s \<and>
     disksize s' = disksize s \<and> (\<forall>j. n \<le> j \<and> j < NBUF \<longrightarrow> sl_locked (slocks s' (SlBuf j)) = 0)"

lemma binit_loop_wp:
  assumes "lru (bufs s) (rev [0..<b])" "b + n = NBUF"
  shows "wp (binit_loop n b) (\<lambda>_ s'. lru (bufs s') (rev [0..<NBUF]) \<and> binit_rel b s s' \<and>
     (\<forall>l. l \<notin> SlBuf ` {b..<NBUF} \<longrightarrow> slocks s' l = slocks s l)) s"
  using assms
proof (induction n arbitrary: b s)
  case 0
  then show ?case by (simp add: binit_rel_def)
next
  case (Suc n)
  then have b: "b < NBUF" "b \<notin> set (rev [0..<b])" by auto
  note L = link_front_lru [OF Suc.prems(1) b]
  let ?s = "(upd_slock (SlBuf b) (\<lambda>k. k\<lparr>sl_name := ''buffer'', sl_locked := 0, sl_pid := 0\<rparr>)
     (s\<lparr>km := (km s)\<lparr>locks := (locks (km s))(LkSleep (SlBuf b) := (locks (km s) (LkSleep (SlBuf b)))
        \<lparr>lk_name := ''sleep lock'', lk_locked := 0, lk_cpu := None\<rparr>)\<rparr>\<rparr>))"
  let ?t = "?s\<lparr>bufs := link_front b (bufs s)\<rparr>"
  have e: "bufs ?s = bufs s" by (simp add: upd_slock_def)
  have "lru (bufs ?t) (rev [0..<Suc b])" using L(1) by simp
  from Suc.IH [OF this] Suc.prems(2)
  have "wp (binit_loop n (Suc b)) (\<lambda>_ s'. lru (bufs s') (rev [0..<NBUF]) \<and> binit_rel (Suc b) ?t s' \<and>
     (\<forall>l. l \<notin> SlBuf ` {Suc b..<NBUF} \<longrightarrow> slocks s' l = slocks ?t l)) ?t" by simp
  then show ?case
    unfolding binit_loop.simps wp_bindK initsleeplock_wp wp_modify e
  proof (rule wp_mono)
    fix u :: unit and s' :: "'a bio_st_scheme"
    assume A: "lru (bufs s') (rev [0..<NBUF]) \<and> binit_rel (Suc b) ?t s' \<and>
       (\<forall>l. l \<notin> SlBuf ` {Suc b..<NBUF} \<longrightarrow> slocks s' l = slocks ?t l)"
    then have lk: "slocks s' l = slocks ?t l" if "l \<notin> SlBuf ` {Suc b..<NBUF}" for l using that by blast
    have "slocks s' (SlBuf b) = slocks ?t (SlBuf b)" by (rule lk) auto
    then have lb: "sl_locked (slocks s' (SlBuf b)) = 0" by (simp add: upd_slock_def)
    have "sl_locked (slocks s' (SlBuf j)) = 0" if "b \<le> j" "j < NBUF" for j
      using that lb A by (cases "j = b") (auto simp: binit_rel_def)
    moreover have "slocks s' l = slocks s l" if "l \<notin> SlBuf ` {b..<NBUF}" for l
    proof -
      have "l \<notin> SlBuf ` {Suc b..<NBUF}" "l \<noteq> SlBuf b" using that b(1) by (auto simp: image_iff)
      with lk show ?thesis by (simp add: upd_slock_def)
    qed
    ultimately show "lru (bufs s') (rev [0..<NBUF]) \<and> binit_rel b s s' \<and>
        (\<forall>l. l \<notin> SlBuf ` {b..<NBUF} \<longrightarrow> slocks s' l = slocks s l)"
      using A L(2) by (auto simp: binit_rel_def upd_slock_def)
  qed
qed

text \<open>The cache as it is in the zero-initialised data segment.\<close>

definition bss_buf :: "nat \<Rightarrow> buf" where
  "bss_buf bsize = \<lparr>b_flags = 0, b_dev = 0, b_blockno = 0, b_refcnt = 0, b_prev = 0, b_next = 0, b_data = replicate bsize 0\<rparr>"

lemma binit_wp:
  assumes "bufs s = replicate (Suc NBUF) (bss_buf n)"
  shows "wp binit (\<lambda>_ s'. bc_inv {} s' \<and> disk s' = disk s \<and> blk s' = disk s \<and> disksize s' = disksize s \<and>
     (\<forall>i < NBUF. b_flags (bufs s' ! i) = 0)) s"
proof -
  let ?s = "upd_buf bhead (\<lambda>h. h\<lparr>b_prev := bhead, b_next := bhead\<rparr>) (s\<lparr>km := (km s)\<lparr>locks := (locks (km s))
     (LkBcache := (locks (km s) LkBcache)\<lparr>lk_name := ''bcache'', lk_locked := 0, lk_cpu := None\<rparr>)\<rparr>\<rparr>)"
  have l0: "lru (bufs ?s) (rev [0..<0])" using assms by (simp add: lru_def upd_buf_def del: replicate_Suc)
  have pl: "payload (bufs ?s ! i) = payload (bss_buf n)" if "i < NBUF" for i
    using that assms by (simp add: upd_buf_def del: replicate_Suc)
  have "bc_inv {} s' \<and> disk s' = disk s \<and> blk s' = disk s \<and> disksize s' = disksize s \<and>
      (\<forall>i < NBUF. b_flags (bufs s' ! i) = 0)"
    if "lru (bufs s') (rev [0..<NBUF])" "binit_rel 0 ?s s'" for s' :: "'a bio_st_scheme"
  proof -
    have k: "b_flags (bufs s' ! i) = 0" "b_dev (bufs s' ! i) = 0" "b_refcnt (bufs s' ! i) = 0" if "i < NBUF" for i
    proof -
      have "payload (bufs s' ! i) = payload (bss_buf n)"
        using \<open>binit_rel 0 ?s s'\<close> pl [OF that] by (simp add: binit_rel_def)
      from payload_eqD [OF this] show "b_flags (bufs s' ! i) = 0" "b_dev (bufs s' ! i) = 0" "b_refcnt (bufs s' ! i) = 0"
        by (simp_all add: bss_buf_def)
    qed
    have "set (rev [0..<NBUF]) = {..<NBUF}" by auto
    with that k have inv: "bc_inv {} s'"
      unfolding bc_inv_def by (auto simp: buf_ok_def binit_rel_def)
    have "disk s' = disk s" "disksize s' = disksize s" using that(2) by (simp_all add: binit_rel_def upd_buf_def)
    moreover have "blk s' b = disk s' b" for b by (rule blk_uncached [OF inv]) (simp add: k)
    ultimately show ?thesis using inv k(1) by auto
  qed
  then show ?thesis
    using binit_loop_wp [OF l0, of NBUF]
    by (auto simp: binit_def initlock_def wp_onm elim!: wp_mono)
qed


section \<open>The contract of the cache\<close>

text \<open>
  What a client relies on: \<open>rd\<close> gives an exclusive buffer with the current contents of a
  block, \<open>put\<close> is an assignment to its data, \<open>wr\<close> makes the disk agree with it, and \<open>rel\<close>
  gives the buffer back.
\<close>

locale block_cache =
  fixes rd :: "nat \<Rightarrow> ('s, nat) kop" and put :: "nat \<Rightarrow> byte list \<Rightarrow> ('s, unit) kop"
    and wr :: "nat \<Rightarrow> ('s, unit) kop" and rel :: "nat \<Rightarrow> ('s, unit) kop"
    and ok :: "nat set \<Rightarrow> 's \<Rightarrow> bool" and can :: "nat set \<Rightarrow> nat \<Rightarrow> 's \<Rightarrow> bool"
    and view :: "'s \<Rightarrow> nat \<Rightarrow> byte list" and dsk :: "'s \<Rightarrow> nat \<Rightarrow> byte list"
    and num :: "'s \<Rightarrow> nat \<Rightarrow> nat" and dat :: "'s \<Rightarrow> nat \<Rightarrow> byte list"
  assumes rd_law: "ok H s \<Longrightarrow> can H b s \<Longrightarrow> wp (rd b) (\<lambda>i s'. i \<notin> H \<and> ok (insert i H) s' \<and> num s' i = b \<and>
      dat s' i = view s b \<and> view s' = view s \<and> dsk s' = dsk s) s"
    and put_law: "ok H s \<Longrightarrow> i \<in> H \<Longrightarrow> wp (put i d) (\<lambda>_ s'. ok H s' \<and> num s' i = num s i \<and> dat s' i = d \<and>
      view s' = (view s)(num s i := d) \<and> dsk s' = dsk s) s"
    and wr_law: "ok H s \<Longrightarrow> i \<in> H \<Longrightarrow> wp (wr i) (\<lambda>_ s'. ok H s' \<and> num s' i = num s i \<and> dat s' i = dat s i \<and>
      view s' = view s \<and> dsk s' = (dsk s)(num s i := dat s i)) s"
    and rel_law: "ok H s \<Longrightarrow> i \<in> H \<Longrightarrow> dat s i = dsk s (num s i) \<Longrightarrow>
      wp (rel i) (\<lambda>_ s'. ok (H - {i}) s' \<and> view s' = view s \<and> dsk s' = dsk s) s"
begin

lemma write_through:
  assumes "ok H s" "can H b s"
  shows "wp (bindK (rd b) (\<lambda>i. seqK (put i d) (seqK (wr i) (rel i))))
     (\<lambda>_ s'. ok H s' \<and> view s' = (view s)(b := d) \<and> dsk s' = (dsk s)(b := d)) s"
  unfolding wp_bindK
proof (rule wp_mono [OF rd_law [OF assms]], elim conjE)
  fix i s1 assume i: "i \<notin> H" "ok (insert i H) s1" "num s1 i = b" "view s1 = view s" "dsk s1 = dsk s"
  show "wp (put i d) (\<lambda>_. wp (wr i) (\<lambda>_. wp (rel i) (\<lambda>_ s'. ok H s' \<and> view s' = (view s)(b := d) \<and> dsk s' = (dsk s)(b := d)))) s1"
  proof (rule wp_mono [OF put_law [OF i(2)]], simp, elim conjE)
    fix s2 assume p: "ok (insert i H) s2" "num s2 i = num s1 i" "dat s2 i = d" "view s2 = (view s1)(num s1 i := d)" "dsk s2 = dsk s1"
    show "wp (wr i) (\<lambda>_. wp (rel i) (\<lambda>_ s'. ok H s' \<and> view s' = (view s)(b := d) \<and> dsk s' = (dsk s)(b := d))) s2"
    proof (rule wp_mono [OF wr_law [OF p(1)]], simp, elim conjE)
      fix s3 assume w: "ok (insert i H) s3" "num s3 i = num s2 i" "dat s3 i = dat s2 i" "view s3 = view s2"
        "dsk s3 = (dsk s2)(num s2 i := dat s2 i)"
      have "insert i H - {i} = H" using i(1) by simp
      with w p i show "wp (rel i) (\<lambda>_ s'. ok H s' \<and> view s' = (view s)(b := d) \<and> dsk s' = (dsk s)(b := d)) s3"
        by (intro wp_mono [OF rel_law [OF w(1)]]) auto
    qed
  qed
qed

lemma read_only:
  assumes "ok H s" "can H b s" "view s b = dsk s b"
  shows "wp (bindK (rd b) (\<lambda>i. bindK (gets (\<lambda>s. dat s i)) (\<lambda>v. seqK (rel i) (ret v))))
     (\<lambda>v s'. v = view s b \<and> ok H s' \<and> view s' = view s \<and> dsk s' = dsk s) s"
  unfolding wp_bindK
proof (rule wp_mono [OF rd_law [OF assms(1,2)]], elim conjE)
  fix i s1 assume i: "i \<notin> H" "ok (insert i H) s1" "num s1 i = b" "dat s1 i = view s b" "view s1 = view s" "dsk s1 = dsk s"
  then have "insert i H - {i} = H" by simp
  with i assms(3) show "wp (gets (\<lambda>s. dat s i)) (\<lambda>v. wp (rel i) (\<lambda>_. wp (ret v) (\<lambda>v s'. v = view s b \<and> ok H s' \<and>
      view s' = view s \<and> dsk s' = dsk s))) s1"
    by (auto intro!: wp_mono [OF rel_law [OF i(2)]])
qed

end

definition can_read :: "nat set \<Rightarrow> nat \<Rightarrow> 'x bio_st_scheme \<Rightarrow> bool" where
  "can_read H b s \<longleftrightarrow> b < disksize s \<and> (\<forall>i \<in> H. b_blockno (bufs s ! i) \<noteq> b) \<and>
     (\<exists>i < NBUF. i \<notin> H \<and> \<not> dirty (bufs s ! i))"

interpretation bc: block_cache "bread 1" "\<lambda>i d. modify (upd_buf i (\<lambda>k. k\<lparr>b_data := d\<rparr>))" bwrite brelse
  "\<lambda>H s. calm s \<and> bc_inv H s" can_read blk disk "\<lambda>s i. b_blockno (bufs s ! i)" "\<lambda>s i. b_data (bufs s ! i)"
proof unfold_locales
  fix H :: "nat set" and s :: "'a bio_st_scheme" and b i d
  assume ok: "calm s \<and> bc_inv H s"
  show "can_read H b s \<Longrightarrow> wp (bread 1 b) (\<lambda>i s'. i \<notin> H \<and> (calm s' \<and> bc_inv (insert i H) s') \<and> b_blockno (bufs s' ! i) = b \<and>
      b_data (bufs s' ! i) = blk s b \<and> blk s' = blk s \<and> disk s' = disk s) s"
    using ok unfolding can_read_def by (elim conjE, intro bread_wp) (auto simp: bread_post_def)
  assume i: "i \<in> H"
  note inv = ok [THEN conjunct2]
  let ?s = "upd_buf i (\<lambda>k. k\<lparr>b_data := d\<rparr>) s"
  have "bc_inv H ?s" "blk ?s = (blk s)(b_blockno (bufs s ! i) := b_data ((bufs s ! i)\<lparr>b_data := d\<rparr>))"
    by (rule held_set [OF inv i, where k = "(bufs s ! i)\<lparr>b_data := d\<rparr>"];
        use held_ok [OF inv i] in \<open>simp add: upd_buf_def\<close>)+
  then show "wp (modify (upd_buf i (\<lambda>k. k\<lparr>b_data := d\<rparr>))) (\<lambda>_ s'. (calm s' \<and> bc_inv H s') \<and>
      b_blockno (bufs s' ! i) = b_blockno (bufs s ! i) \<and> b_data (bufs s' ! i) = d \<and>
      blk s' = (blk s)(b_blockno (bufs s ! i) := d) \<and> disk s' = disk s) s"
    using ok held_ok(1) [OF inv i] bc_invD(1) [OF inv] by (auto simp: upd_buf_def calm_def)
  show "wp (bwrite i) (\<lambda>_ s'. (calm s' \<and> bc_inv H s') \<and> b_blockno (bufs s' ! i) = b_blockno (bufs s ! i) \<and>
      b_data (bufs s' ! i) = b_data (bufs s ! i) \<and> blk s' = blk s \<and>
      disk s' = (disk s)(b_blockno (bufs s ! i) := b_data (bufs s ! i))) s"
    by (rule bwrite_wp [of _ H]) (use ok i in \<open>auto simp: bwrite_post_def\<close>)
  show "b_data (bufs s ! i) = disk s (b_blockno (bufs s ! i)) \<Longrightarrow>
      wp (brelse i) (\<lambda>_ s'. (calm s' \<and> bc_inv (H - {i}) s') \<and> blk s' = blk s \<and> disk s' = disk s) s"
    by (rule brelse_wp [of _ H]) (use ok i in \<open>auto simp: brelse_post_def\<close>)
qed


section \<open>Properties\<close>

text \<open>
  C8.  The disk as the cache shows it.  Reading a block gives an exclusively held buffer
  with the block's current contents (the last write, cached or on disk), for every pattern
  of hits, recycling and held buffers, and changes neither any block nor the disk.
\<close>

theorem bread_current:
  assumes "calm s" "bc_inv H s" "b < disksize s" "\<forall>i \<in> H. b_blockno (bufs s ! i) \<noteq> b"
    and "\<exists>i < NBUF. i \<notin> H \<and> b_flags (bufs s ! i) AND B_DIRTY = 0"
  shows "wp (bread 1 b) (\<lambda>i s'. i < NBUF \<and> i \<notin> H \<and> bc_inv (insert i H) s' \<and> calm s' \<and>
     b_dev (bufs s' ! i) = 1 \<and> b_blockno (bufs s' ! i) = b \<and> b_data (bufs s' ! i) = blk s b \<and>
     blk s' = blk s \<and> disk s' = disk s) s"
  using assms held_ok(5)
  by (intro bread_wp [OF assms(1-4)]) (auto simp: bread_post_def)

definition bio0 :: "(nat \<Rightarrow> byte list) \<Rightarrow> bio_st" where
  "bio0 D = \<lparr>km = demo_mach True, ram = (\<lambda>_. replicate 4096 0), freelist = 0, use_lock = True, kend = 0x80200000, kdata = 0x80108000,
     procs = [demo_proc RUNNING 1 None, demo_proc RUNNABLE 2 None],
     initproc = Some 0, nextpid = 3, kpgdir = 0x80400000, cr3 = 0, esp0 = 0,
     slocks = (\<lambda>_. \<lparr>sl_locked = 0, sl_name = [], sl_pid = 0\<rparr>),
     bufs = replicate (Suc NBUF) (bss_buf 512), disk = D, dhist = [], disksize = 1000\<rparr>"

definition demo_bio :: "(nat \<Rightarrow> byte list) \<Rightarrow> bio_st" where
  "demo_bio D = (case binit (bio0 D) of Done _ s \<Rightarrow> s\<lparr>km := demo_mach True\<rparr> | _ \<Rightarrow> bio0 D)"

lemma demo_bio_ok [simp]:
  "bc_inv {} (demo_bio D)" "calm (demo_bio D)" "disk (demo_bio D) = D" "blk (demo_bio D) = D" "disksize (demo_bio D) = 1000"
  "i < NBUF \<Longrightarrow> b_flags (bufs (demo_bio D) ! i) = 0"
proof -
  have "bufs (bio0 D) = replicate (Suc NBUF) (bss_buf 512)" by (simp add: bio0_def)
  from binit_wp [OF this] obtain s where s: "binit (bio0 D) = Done () s" "bc_inv {} s" "disk s = D" "blk s = D" "disksize s = 1000"
    "\<forall>i < NBUF. b_flags (bufs s ! i) = 0"
    by (auto simp: wp_Done bio0_def)
  then show "bc_inv {} (demo_bio D)" "calm (demo_bio D)" "disk (demo_bio D) = D" "blk (demo_bio D) = D" "disksize (demo_bio D) = 1000"
    "i < NBUF \<Longrightarrow> b_flags (bufs (demo_bio D) ! i) = 0"
    by (simp_all add: demo_bio_def bc_inv_km calm_def)
qed

lemma NBUF_pos [simp]: "0 < NBUF"
  by (simp add: param_defs)

theorem bread_current_witness:
  "wp (bread 1 7) (\<lambda>i s'. b_data (bufs s' ! i) = [42] \<and> bc_inv {i} s') (demo_bio (\<lambda>b. if b = 7 then [42] else []))"
  using bread_current [of "demo_bio (\<lambda>b. if b = 7 then [42] else [])" "{}" 7]
  by (rule wp_mono) (auto intro!: exI [of _ 0])





text \<open>
  C11.  Exhaustion.  When the block is not cached and every buffer is held or pinned dirty, \<open>bread\<close>
  panics with \<open>bget: no buffers\<close>.
\<close>

theorem bread_exhausted:
  assumes "calm s" "bc_inv H s" "b < disksize s"
    and "\<forall>i < NBUF. b_flags (bufs s ! i) AND B_VALID \<noteq> 0 \<longrightarrow> b_blockno (bufs s ! i) \<noteq> b"
    and "\<forall>i < NBUF. i \<in> H \<or> b_flags (bufs s ! i) AND B_DIRTY \<noteq> 0"
  shows "bread 1 b s = Panicked ''bget: no buffers''"
proof -
  from assms(2) obtain xs where xs: "lru (bufs s) xs" "set xs = {..<NBUF}" by (rule bc_invE)
  have "slot s b = None" using slot_None [OF assms(2)] assms(4) by simp
  then have f: "lru_find (cached_as 1 b) b_next (bufs s) (Suc NBUF) (b_next (bufs s ! bhead)) = Some None"
    using lru_find_next [OF xs(1)] find_hit [OF assms(2) xs] by simp
  have "\<not> recyclable (bufs s ! i)" if "i < NBUF" for i
    using bc_invD(3) [OF assms(2) that] assms(5) that by (auto simp: recyclable_def buf_ok_def split: if_splits)
  then have f2: "lru_find recyclable b_prev (bufs s) (Suc NBUF) (b_prev (bufs s ! bhead)) = Some None"
    using lru_find_prev [OF xs(1)] xs(2) by (auto simp: find_None_iff)
  have "wp (acquire LkBcache) (\<lambda>_ _. True) (km s)"
    by (rule acquire_wp [of "{}"]) (use assms(1) in \<open>auto simp: calm_def\<close>)
  then obtain m where "acquire LkBcache (km s) = Done () m" by (auto simp: wp_Done)
  with f f2 show ?thesis
    by (simp add: bread_def bget_def onm_def zoom_def monad_simps del: lru_find.simps)
qed


text \<open>A cache in which every buffer is pinned.\<close>

definition pinned_bio :: bio_st where
  "pinned_bio = (demo_bio (\<lambda>_. []))\<lparr>bufs := map (\<lambda>i. if i < NBUF then (bufs (demo_bio (\<lambda>_. [])) ! i)
      \<lparr>b_dev := 1, b_blockno := i, b_flags := B_VALID OR B_DIRTY\<rparr> else bufs (demo_bio (\<lambda>_. [])) ! i) [0..<Suc NBUF]\<rparr>"

lemma pinned_nth:
  "i \<le> NBUF \<Longrightarrow> bufs pinned_bio ! i = (if i < NBUF then (bufs (demo_bio (\<lambda>_. [])) ! i)
      \<lparr>b_dev := 1, b_blockno := i, b_flags := B_VALID OR B_DIRTY\<rparr> else bufs (demo_bio (\<lambda>_. [])) ! i)"
  unfolding pinned_bio_def by (simp add: nth_append del: upt_Suc)

lemma pinned_inv: "bc_inv {} pinned_bio"
proof -
  let ?d = "demo_bio (\<lambda>_. [])"
  note D = bc_invD [OF demo_bio_ok(1) [of "\<lambda>_. []"]]
  obtain xs where xs: "lru (bufs ?d) xs" "set xs = {..<NBUF}" using demo_bio_ok(1) by (rule bc_invE)
  have "lru (bufs pinned_bio) xs"
    by (rule lru_cong [OF xs(1)]) (simp_all add: D(1) pinned_nth, simp add: pinned_bio_def)
  moreover have "buf_ok pinned_bio {} i (bufs pinned_bio ! i)" if "i < NBUF" for i
    using D(3) [OF that] that by (simp add: pinned_nth buf_ok_def) (simp add: pinned_bio_def param_defs)
  ultimately show ?thesis using xs(2) by (auto simp: bc_inv_def pinned_nth)
qed

lemma pinned_calm: "calm pinned_bio" "disksize pinned_bio = 1000"
  using demo_bio_ok(2) [of "\<lambda>_. []"] by (simp_all add: pinned_bio_def calm_def)

theorem bread_exhausted_witness: "bread 1 900 pinned_bio = Panicked ''bget: no buffers''"
  by (rule bread_exhausted [OF pinned_calm(1) pinned_inv])
     (simp_all add: pinned_nth pinned_calm param_defs)

end
