(* ===== verification/Log.thy ===== *)
theory Log
  imports Bio Layout
begin

text \<open>
  The write-ahead log (\<open>log.c\<close>).  The state adds the globals of \<open>struct log\<close>; block
  numbers are read as \<open>uint\<close>.  \<open>readsb\<close> of \<open>fs.c\<close>, which \<open>initlog\<close> calls, is here too.  A
  loop over the log is a recursion with the number of rounds left.  \<open>begin_op\<close> of a log
  that is committing or full switches away; \<open>begin_op_resume\<close> is the rest of the call.

  The central result is that a crash at any point of a commit, and any number of further
  crashes during recovery, leaves a disk from which recovery makes either all or none of
  the transaction's blocks visible.
\<close>

section \<open>State\<close>

record log_st = bio_st +
  lh_n :: int
  lh_block :: "nat list"
  log_start :: nat
  log_size :: int
  outstanding :: int
  committing :: bool
  log_dev :: nat

section \<open>The routines\<close>

text \<open>\<open>memmove(dst->data, src->data, BSIZE)\<close> on the contents of two buffers.\<close>

definition copy_data :: "fsh \<Rightarrow> nat \<Rightarrow> nat \<Rightarrow> ('x bio_st_scheme, unit) kop" where
  "copy_data G dst src = modify (\<lambda>s. upd_buf dst
     (\<lambda>k. k\<lparr>b_data := take (BSIZE G) (b_data (bufs s ! src)) @ drop (BSIZE G) (b_data k)\<rparr>) s)"

definition readsb :: "fsh \<Rightarrow> nat \<Rightarrow> ('x bio_st_scheme, superblock) kop" where
  "readsb G dev = bindK (bread dev 1) (\<lambda>bp.
     bindK (gets (\<lambda>s. sb_dec G (b_data (bufs s ! bp)))) (\<lambda>sb.
     seqK (brelse bp)
     (ret sb)))"

fun install_trans_from :: "fsh \<Rightarrow> nat \<Rightarrow> nat \<Rightarrow> ('x log_st_scheme, unit) kop" where
  "install_trans_from G 0 tail = ret ()"
| "install_trans_from G (Suc n) tail =
     bindK (gets log_dev) (\<lambda>dev.
     bindK (gets (\<lambda>s. log_start s + tail + 1)) (\<lambda>lb.
     bindK (bread dev lb) (\<lambda>lbuf.
     bindK (gets (\<lambda>s. lh_block s ! tail)) (\<lambda>db.
     bindK (bread dev db) (\<lambda>dbuf.
     seqK (copy_data G dbuf lbuf) (
     seqK (bwrite dbuf) (
     seqK (brelse lbuf) (
     seqK (brelse dbuf)
     (install_trans_from G n (Suc tail))))))))))"

definition install_trans :: "fsh \<Rightarrow> ('x log_st_scheme, unit) kop" where
  "install_trans G = bindK (gets lh_n) (\<lambda>n. install_trans_from G (nat n) 0)"

text \<open>The header block: \<open>n\<close> at offset 0, \<open>block[i]\<close> at offset \<open>4 + 4 * i\<close>.\<close>

definition hdr_n :: "byte list \<Rightarrow> int" where
  "hdr_n d = sint (get32 0 d)"

definition hdr_block :: "byte list \<Rightarrow> nat \<Rightarrow> nat" where
  "hdr_block d i = unat (get32 (4 + 4 * i) d)"

text \<open>A header count above \<open>LOGSIZE\<close> makes \<open>read_head\<close> write past \<open>log.lh.block\<close>.\<close>

definition read_head :: "fsh \<Rightarrow> ('x log_st_scheme, unit) kop" where
  "read_head G = bindK (gets log_dev) (\<lambda>dev. bindK (gets log_start) (\<lambda>st.
     bindK (bread dev st) (\<lambda>b.
     bindK (gets (\<lambda>s. b_data (bufs s ! b))) (\<lambda>d.
     if hdr_n d > int LOGSIZE then panic ''out of bounds''
     else seqK (modify (\<lambda>s. s\<lparr>lh_n := hdr_n d\<rparr>)) (
          seqK (modify (\<lambda>s. s\<lparr>lh_block := map (hdr_block d) [0..<nat (hdr_n d)] @ drop (nat (hdr_n d)) (lh_block s)\<rparr>))
          (brelse b))))))"

definition hdr_put :: "int \<Rightarrow> nat list \<Rightarrow> byte list \<Rightarrow> byte list" where
  "hdr_put n bl d = foldl (\<lambda>d i. put32 (4 + 4 * i) (of_nat (bl ! i)) d) (put32 0 (word_of_int n) d) [0..<nat n]"

definition write_head :: "fsh \<Rightarrow> ('x log_st_scheme, unit) kop" where
  "write_head G = bindK (gets log_dev) (\<lambda>dev. bindK (gets log_start) (\<lambda>st.
     bindK (bread dev st) (\<lambda>b.
     seqK (modify (\<lambda>s. upd_buf b (\<lambda>k. k\<lparr>b_data := hdr_put (lh_n s) (lh_block s) (b_data k)\<rparr>) s)) (
     seqK (bwrite b)
     (brelse b)))))"

definition recover_from_log :: "fsh \<Rightarrow> ('x log_st_scheme, unit) kop" where
  "recover_from_log G =
     seqK (read_head G) (
     seqK (install_trans G) (
     seqK (modify (\<lambda>s. s\<lparr>lh_n := 0\<rparr>))
     (write_head G)))"

definition initlog :: "fsh \<Rightarrow> nat \<Rightarrow> ('x log_st_scheme, unit) kop" where
  "initlog G dev =
     (if 4 + 4 * LOGSIZE \<ge> BSIZE G then panic ''initlog: too big logheader''
      else seqK (onm (initlock LkLog ''log'')) (
           bindK (readsb G dev) (\<lambda>sb.
           seqK (modify (\<lambda>s. s\<lparr>log_start := sb_logstart sb, log_size := int (sb_nlog sb), log_dev := dev\<rparr>))
           (recover_from_log G))))"

definition begin_op_loop :: "('x log_st_scheme, unit) kop" where
  "begin_op_loop = bindK (gets committing) (\<lambda>c.
     if c then sleep (Some ChLog) (Some LkLog)
     else bindK (gets (\<lambda>s. lh_n s + (outstanding s + 1) * int MAXOPBLOCKS > int LOGSIZE)) (\<lambda>full.
          if full then sleep (Some ChLog) (Some LkLog)
          else seqK (modify (\<lambda>s. s\<lparr>outstanding := outstanding s + 1\<rparr>))
               (onm (release LkLog))))"

definition begin_op :: "('x log_st_scheme, unit) kop" where
  "begin_op = seqK (onm (acquire LkLog)) begin_op_loop"

definition begin_op_resume :: "nat \<Rightarrow> bool \<Rightarrow> ('x log_st_scheme, unit) kop" where
  "begin_op_resume p saved = seqK (sleep_resume p LkLog saved) begin_op_loop"

fun write_log_from :: "fsh \<Rightarrow> nat \<Rightarrow> nat \<Rightarrow> ('x log_st_scheme, unit) kop" where
  "write_log_from G 0 tail = ret ()"
| "write_log_from G (Suc n) tail =
     bindK (gets log_dev) (\<lambda>dev.
     bindK (gets (\<lambda>s. log_start s + tail + 1)) (\<lambda>lb.
     bindK (bread dev lb) (\<lambda>to.
     bindK (gets (\<lambda>s. lh_block s ! tail)) (\<lambda>db.
     bindK (bread dev db) (\<lambda>from.
     seqK (copy_data G to from) (
     seqK (bwrite to) (
     seqK (brelse from) (
     seqK (brelse to)
     (write_log_from G n (Suc tail))))))))))"

definition write_log :: "fsh \<Rightarrow> ('x log_st_scheme, unit) kop" where
  "write_log G = bindK (gets lh_n) (\<lambda>n. write_log_from G (nat n) 0)"

definition commit :: "fsh \<Rightarrow> ('x log_st_scheme, unit) kop" where
  "commit G = bindK (gets lh_n) (\<lambda>n. whenK (n > 0) (
     seqK (write_log G) (
     seqK (write_head G) (
     seqK (install_trans G) (
     seqK (modify (\<lambda>s. s\<lparr>lh_n := 0\<rparr>))
     (write_head G))))))"

definition end_op :: "fsh \<Rightarrow> ('x log_st_scheme, unit) kop" where
  "end_op G =
     seqK (onm (acquire LkLog)) (
     seqK (modify (\<lambda>s. s\<lparr>outstanding := outstanding s - 1\<rparr>)) (
     bindK (gets committing) (\<lambda>c.
     if c then panic ''log.committing''
     else bindK (gets (\<lambda>s. outstanding s = 0)) (\<lambda>do_commit.
          seqK (if do_commit then modify (\<lambda>s. s\<lparr>committing := True\<rparr>) else wakeup (Some ChLog)) (
          seqK (onm (release LkLog)) (
          whenK do_commit (
            seqK (commit G) (
            seqK (onm (acquire LkLog)) (
            seqK (modify (\<lambda>s. s\<lparr>committing := False\<rparr>)) (
            seqK (wakeup (Some ChLog))
            (onm (release LkLog))))))))))))"

definition log_write :: "nat \<Rightarrow> ('x log_st_scheme, unit) kop" where
  "log_write b = bindK (gets (\<lambda>s. lh_n s \<ge> int LOGSIZE \<or> lh_n s \<ge> log_size s - 1)) (\<lambda>big.
     if big then panic ''too big a transaction''
     else bindK (gets (\<lambda>s. outstanding s < 1)) (\<lambda>out.
     if out then panic ''log_write outside of trans''
     else seqK (onm (acquire LkLog)) (
          bindK (gets (\<lambda>s. b_blockno (bufs s ! b))) (\<lambda>bn.
          bindK (gets (\<lambda>s. case findix (\<lambda>c. c = bn) 0 (take (nat (lh_n s)) (lh_block s)) of
                             Some i \<Rightarrow> i | None \<Rightarrow> nat (lh_n s))) (\<lambda>i.
          seqK (modify (\<lambda>s. s\<lparr>lh_block := (lh_block s)[i := bn]\<rparr>)) (
          seqK (modify (\<lambda>s. if int i = lh_n s then s\<lparr>lh_n := lh_n s + 1\<rparr> else s)) (
          seqK (modify (upd_buf b (\<lambda>k. k\<lparr>b_flags := b_flags k OR B_DIRTY\<rparr>)))
          (onm (release LkLog)))))))))"


section \<open>Sequences of disk writes\<close>

definition apply_writes :: "(nat \<Rightarrow> byte list) \<Rightarrow> (nat \<times> byte list) list \<Rightarrow> nat \<Rightarrow> byte list" where
  "apply_writes D ws = foldl (\<lambda>D (b, d). D(b := d)) D ws"

lemma apply_writes_simps [simp]:
  "apply_writes D [] = D" "apply_writes D ((b, d) # ws) = apply_writes (D(b := d)) ws"
  "apply_writes D (ws @ ws') = apply_writes (apply_writes D ws) ws'"
  by (simp_all add: apply_writes_def)

lemma apply_writes_other: "b \<notin> fst ` set ws \<Longrightarrow> apply_writes D ws b = D b"
proof (induction ws arbitrary: D)
  case (Cons w ws)
  then show ?case by (cases w) simp
qed simp

lemma apply_writes_cong: "D b = E b \<Longrightarrow> apply_writes D ws b = apply_writes E ws b"
proof (induction ws arbitrary: D E)
  case (Cons w ws)
  obtain c d where w: "w = (c, d)" by (cases w)
  have "(D(c := d)) b = (E(c := d)) b" using Cons.prems by simp
  from Cons.IH [of "D(c := d)" "E(c := d)", OF this] w show ?case by (simp del: fun_upd_apply)
qed simp

lemma apply_writes_map:
  assumes "distinct (map f is)" "i \<in> set is"
  shows "apply_writes D (map (\<lambda>i. (f i, g i)) is) (f i) = g i"
  using assms
proof (induction "is" arbitrary: D)
  case (Cons j js)
  then show ?case
    by (cases "i \<in> set js") (auto intro!: apply_writes_other [THEN trans])
qed simp

text \<open>
  The effect of a routine that performs the writes \<open>ws\<close> on disk and cache and ends with no buffer
  held.
\<close>

definition wrote :: "(nat \<times> byte list) list \<Rightarrow> 'x bio_st_scheme \<Rightarrow> 'x bio_st_scheme \<Rightarrow> bool" where
  "wrote ws s s' \<longleftrightarrow> bc_inv {} s' \<and> calm s' \<and> blk s' = apply_writes (blk s) ws \<and> disk s' = apply_writes (disk s) ws \<and>
     dhist s' = dhist s @ ws \<and> dirties s' = dirties s - fst ` set ws \<and> bframe s s'"

lemma wrote_trans: "wrote ws s t \<Longrightarrow> wrote ws' t u \<Longrightarrow> wrote (ws @ ws') s u"
  by (auto simp: wrote_def intro: bframe_trans)

lemma wroteD:
  assumes "wrote ws s s'"
  shows "bc_inv {} s'" "calm s'" "blk s' = apply_writes (blk s) ws" "disk s' = apply_writes (disk s) ws"
    "dirties s' = dirties s - fst ` set ws" "disksize s' = disksize s" "bframe s s'"
  using assms by (auto simp: wrote_def bframe_def)

lemma bread_held:
  assumes "bread_post H b s i s'"
  shows "bc_inv (insert i H) s'" "calm s'" "i \<in> insert i H" "disksize s' = disksize s"
  using assms by (auto simp: bread_post_def bframe_def)

text \<open>
  The common part of \<open>write_log\<close> and \<open>install_trans\<close>: with both buffers held, copy, write the target
  and release both.
\<close>

lemma finish_copy:
  assumes s: "calm s" "bc_inv {i, j} s" "i \<noteq> j"
    and src: "dirty (bufs s ! j) \<or> b_data (bufs s ! j) = disk s (b_blockno (bufs s ! j))"
    and ab: "b_blockno (bufs s ! i) = a" "a \<noteq> b_blockno (bufs s ! j)" "b_data (bufs s ! j) = d"
    and len: "length (b_data (bufs s ! i)) = BSIZE G" "length d = BSIZE G"
    and Q: "\<And>s'. wrote [(a, d)] s s' \<Longrightarrow> bio_st.more s' = bio_st.more s \<Longrightarrow> Q () s'"
  shows "wp (copy_data G i j) (\<lambda>_. wp (bwrite i) (\<lambda>_. wp (brelse j) (\<lambda>_. wp (brelse i) Q))) s"
proof -
  define s3 where "s3 = upd_buf i (\<lambda>k. k\<lparr>b_data := take (BSIZE G) (b_data (bufs s ! j)) @ drop (BSIZE G) (b_data k)\<rparr>) s"
  have p3: "upd_post {i, j} i d s s3"
    using upd_data [OF s(1,2), of i "\<lambda>k. take (BSIZE G) (b_data (bufs s ! j)) @ drop (BSIZE G) (b_data k)"] ab len
    by (simp add: s3_def)
  then have h3: "bc_inv {i, j} s3" "calm s3" "i \<in> {i, j}" by (auto simp: upd_post_def)
  show ?thesis
    unfolding copy_data_def wp_modify s3_def [symmetric]
  proof (rule bwrite_wp [OF h3(2,1,3)])
    fix s4 assume p4: "bwrite_post {i, j} i s3 s4"
    then have h4: "bc_inv {i, j} s4" "calm s4" "j \<in> {i, j}" by (auto simp: bwrite_post_def)
    have s4j: "bufs s4 ! j = bufs s ! j" using p3 p4 s(3) by (simp add: upd_post_def bwrite_post_def)
    show "wp (brelse j) (\<lambda>_. wp (brelse i) Q) s4"
    proof (rule brelse_wp [OF h4(2,1,3)])
      show "dirty (bufs s4 ! j) \<or> b_data (bufs s4 ! j) = disk s4 (b_blockno (bufs s4 ! j))"
        using s4j src ab p3 p4 by (auto simp: upd_post_def bwrite_post_def)
    next
      fix s5 assume p5: "brelse_post {i, j} j s4 s5"
      then have h5: "bc_inv {i} s5" "calm s5" "i \<in> {i}" using s(3) by (auto simp: brelse_post_def insert_Diff_if)
      have pl: "b_data (bufs s5 ! i) = d" "b_blockno (bufs s5 ! i) = a" "disk s5 = (disk s)(a := d)"
        using p3 p4 p5 s(3) ab by (auto simp: upd_post_def bwrite_post_def brelse_post_def payload_def)
      show "wp (brelse i) Q s5"
      proof (rule brelse_wp [OF h5(2,1,3)])
        fix s6 assume p6: "brelse_post {i} i s5 s6"
        have f: "bframe s s3" "bframe s3 s4" "bframe s4 s5" "bframe s5 s6"
          using p3 p4 p5 p6 by (simp_all add: upd_post_def bwrite_post_def brelse_post_def)
        have "wrote [(a, d)] s s6" "bio_st.more s6 = bio_st.more s"
          using p3 p4 p5 p6 ab bframe_trans [OF f(1) bframe_trans [OF f(2) bframe_trans [OF f(3,4)]]]
          by (simp_all add: wrote_def upd_post_def bwrite_post_def brelse_post_def)
        then show "Q () s6" by (rule Q)
      qed (use pl in simp)
    qed
  qed
qed

text \<open>Two blocks read one after the other.\<close>

lemma bread_both:
  assumes s: "calm s" "bc_inv {} s" and ab: "a \<noteq> b" "a < disksize s" "b < disksize s"
    and room: "card (dirties s) < NBUF" "b \<in> dirties s \<or> card (dirties s) + 1 < NBUF"
    and Q: "\<And>i j s2. calm s2 \<Longrightarrow> bc_inv {i, j} s2 \<Longrightarrow> i \<noteq> j \<Longrightarrow> b_blockno (bufs s2 ! i) = a \<Longrightarrow> b_blockno (bufs s2 ! j) = b \<Longrightarrow>
       b_data (bufs s2 ! i) = blk s a \<Longrightarrow> b_data (bufs s2 ! j) = blk s b \<Longrightarrow> blk s2 = blk s \<Longrightarrow> disk s2 = disk s \<Longrightarrow>
       dhist s2 = dhist s \<Longrightarrow> dirties s2 = dirties s \<Longrightarrow> bframe s s2 \<Longrightarrow> bio_st.more s2 = bio_st.more s \<Longrightarrow> Q i j s2"
    and f: "\<And>s1. bio_st.more s1 = bio_st.more s \<Longrightarrow> f s1 = b"
  shows "wp (bread 1 a) (\<lambda>i s1. wp (bread 1 (f s1)) (Q i) s1) s"
proof (rule bread_wp [OF s ab(2)])
  show "slot s a \<noteq> None \<or> (\<exists>i<NBUF. i \<notin> {} \<and> \<not> dirty (bufs s ! i))" using buffer_left [OF s(2)] room(1) by auto
next
  fix i s1 assume p1: "bread_post {} a s i s1"
  note h1 = bread_held [OF p1]
  have "f s1 = b" using f p1 by (simp add: bread_post_def)
  moreover have "wp (bread 1 b) (Q i) s1"
  proof (rule bread_wp [OF h1(2,1)])
    show "b < disksize s1" using h1(4) ab by simp
    show "\<forall>j\<in>{i}. b_blockno (bufs s1 ! j) \<noteq> b" using p1 ab(1) by (simp add: bread_post_def)
    show "slot s1 b \<noteq> None \<or> (\<exists>j<NBUF. j \<notin> {i} \<and> \<not> dirty (bufs s1 ! j))"
      using dirty_slot [OF h1(1)] buffer_left [OF h1(1)] p1 room(2) by (auto simp: bread_post_def)
  next
    fix j s2 assume p2: "bread_post {i} b s1 j s2"
    have f: "bframe s s1" "bframe s1 s2" using p1 p2 by (simp_all add: bread_post_def)
    show "Q i j s2"
      by (rule Q) (use p1 p2 bframe_trans [OF f] in \<open>auto simp: bread_post_def payload_def insert_commute\<close>)
  qed
  ultimately show "wp (bread 1 (f s1)) (Q i) s1" by simp
qed simp

lemma dirty_buf:
  assumes "bc_inv H s" "i \<in> H" "b_blockno (bufs s ! i) \<in> dirties s"
  shows "dirty (bufs s ! i)"
proof -
  from assms(3) obtain k where k: "k < NBUF" "dirty (bufs s ! k)" "b_blockno (bufs s ! k) = b_blockno (bufs s ! i)"
    by (auto simp: dirties_def)
  have "k = i"
    by (rule bc_invD(4) [OF assms(1) k(1) held_ok(1) [OF assms(1,2)]])
       (use k fdirty_dev [OF assms(1) k(1,2)] held_ok(4) [OF assms(1,2)] in auto)
  with k show ?thesis by simp
qed

text \<open>One round of \<open>write_log\<close> (block \<open>b\<close> is pinned) and one round of \<open>install_trans\<close>.\<close>

lemma wrote_start: "wrote ws s2 s' \<Longrightarrow> blk s2 = blk s \<Longrightarrow> disk s2 = disk s \<Longrightarrow> dhist s2 = dhist s \<Longrightarrow>
    dirties s2 = dirties s \<Longrightarrow> bframe s s2 \<Longrightarrow> wrote ws s s'"
  by (auto simp: wrote_def intro: bframe_trans)

lemma copy_out:
  assumes s: "calm s" "bc_inv {} s" and ab: "a \<noteq> b" "a < disksize s" "b < disksize s" and d: "b \<in> dirties s" "card (dirties s) < NBUF"
    and len: "length (blk s a) = BSIZE G" "length (blk s b) = BSIZE G"
    and Q: "\<And>s'. wrote [(a, blk s b)] s s' \<Longrightarrow> bio_st.more s' = bio_st.more s \<Longrightarrow> Q () s'"
    and f: "\<And>s1. bio_st.more s1 = bio_st.more s \<Longrightarrow> f s1 = b"
  shows "wp (bread 1 a) (\<lambda>to s1. wp (bread 1 (f s1)) (\<lambda>from. wp (copy_data G to from) (\<lambda>_.
     wp (bwrite to) (\<lambda>_. wp (brelse from) (\<lambda>_. wp (brelse to) Q)))) s1) s"
proof (rule bread_both [OF s ab d(2) _ _ f])
  show "b \<in> dirties s \<or> card (dirties s) + 1 < NBUF" using d by simp
  fix i j s2
  assume p: "calm s2" "bc_inv {i, j} s2" "i \<noteq> j" "b_blockno (bufs s2 ! i) = a" "b_blockno (bufs s2 ! j) = b"
    "b_data (bufs s2 ! i) = blk s a" "b_data (bufs s2 ! j) = blk s b" and e: "blk s2 = blk s" "disk s2 = disk s"
    "dhist s2 = dhist s" "dirties s2 = dirties s" "bframe s s2" "bio_st.more s2 = bio_st.more s"
  show "wp (copy_data G i j) (\<lambda>_. wp (bwrite i) (\<lambda>_. wp (brelse j) (\<lambda>_. wp (brelse i) Q))) s2"
    by (rule finish_copy [OF p(1-3), of a "blk s b"])
       (use p e ab len d dirty_buf [OF p(2), of j] Q in \<open>auto dest: wrote_start [OF _ e(1-5)]\<close>)
qed

lemma copy_in:
  assumes s: "calm s" "bc_inv {} s" and ab: "a \<noteq> b" "a < disksize s" "b < disksize s"
    and d: "a \<notin> dirties s" "card (dirties s) < NBUF" "b \<in> dirties s \<or> card (dirties s) + 1 < NBUF"
    and len: "length (blk s a) = BSIZE G" "length (blk s b) = BSIZE G"
    and Q: "\<And>s'. wrote [(b, blk s a)] s s' \<Longrightarrow> bio_st.more s' = bio_st.more s \<Longrightarrow> Q () s'"
    and f: "\<And>s1. bio_st.more s1 = bio_st.more s \<Longrightarrow> f s1 = b"
  shows "wp (bread 1 a) (\<lambda>lbuf s1. wp (bread 1 (f s1)) (\<lambda>dbuf. wp (copy_data G dbuf lbuf) (\<lambda>_.
     wp (bwrite dbuf) (\<lambda>_. wp (brelse lbuf) (\<lambda>_. wp (brelse dbuf) Q)))) s1) s"
proof (rule bread_both [OF s ab d(2,3) _ f])
  fix i j s2
  assume p: "calm s2" "bc_inv {i, j} s2" "i \<noteq> j" "b_blockno (bufs s2 ! i) = a" "b_blockno (bufs s2 ! j) = b"
    "b_data (bufs s2 ! i) = blk s a" "b_data (bufs s2 ! j) = blk s b" and e: "blk s2 = blk s" "disk s2 = disk s"
    "dhist s2 = dhist s" "dirties s2 = dirties s" "bframe s s2" "bio_st.more s2 = bio_st.more s"
  have c: "bc_inv {j, i} s2" "j \<noteq> i" using p by (simp_all add: insert_commute)
  show "wp (copy_data G j i) (\<lambda>_. wp (bwrite j) (\<lambda>_. wp (brelse i) (\<lambda>_. wp (brelse j) Q))) s2"
    by (rule finish_copy [OF p(1) c, of b "blk s a"])
       (use p e ab len blk_clean [OF s(2) d(1)] Q in \<open>auto dest: wrote_start [OF _ e(1-5)]\<close>)
qed


section \<open>The loops and the header\<close>

lemma log_more:
  fixes s s' :: "'x log_st_scheme"
  assumes "bio_st.more s' = bio_st.more s"
  shows "lh_n s' = lh_n s" "lh_block s' = lh_block s" "log_start s' = log_start s" "log_size s' = log_size s"
    "outstanding s' = outstanding s" "committing s' = committing s" "log_dev s' = log_dev s" "log_st.more s' = log_st.more s"
  using assms by (cases s; cases s'; simp)+

text \<open>Every block has the size of a block.\<close>

definition sized :: "fsh \<Rightarrow> 'x bio_st_scheme \<Rightarrow> bool" where
  "sized G s \<longleftrightarrow> (\<forall>b. length (blk s b) = BSIZE G)"

lemma sized_wrote: "sized G s \<Longrightarrow> wrote ws s s' \<Longrightarrow> \<forall>w \<in> set ws. length (snd w) = BSIZE G \<Longrightarrow> sized G s'"
proof -
  have "length (apply_writes D ws b) = n" if "\<forall>b. length (D b) = n" "\<forall>w \<in> set ws. length (snd w) = n" for D b n
    using that
  proof (induction ws arbitrary: D)
    case (Cons w ws)
    obtain c d where w: "w = (c, d)" by (cases w)
    have "length (apply_writes (D(c := d)) ws b) = n"
      by (rule Cons.IH) (use Cons.prems w in auto)
    with w show ?case by (simp del: fun_upd_apply)
  qed simp
  then show "sized G s \<Longrightarrow> wrote ws s s' \<Longrightarrow> \<forall>w \<in> set ws. length (snd w) = BSIZE G \<Longrightarrow> sized G s'"
    by (simp add: sized_def wrote_def)
qed

lemma write_log_from_wp:
  assumes "calm s" "bc_inv {} s" "sized G s" "log_dev s = 1" "log_start s + k + n < disksize s"
    and "\<forall>i. k \<le> i \<and> i < k + n \<longrightarrow> lh_block s ! i \<in> dirties s \<and> lh_block s ! i < disksize s"
    and "dirties s \<inter> {log_start s .. log_start s + k + n} = {}" "card (dirties s) < NBUF"
    and Q: "\<And>s'. wrote (map (\<lambda>i. (log_start s + i + 1, blk s (lh_block s ! i))) [k..<k + n]) s s' \<Longrightarrow>
       bio_st.more s' = bio_st.more s \<Longrightarrow> Q () s'"
  shows "wp (write_log_from G n k) Q s"
  using assms
proof (induction n arbitrary: k s)
  case 0
  then show ?case by (auto simp: wrote_def)
next
  case (Suc n)
  let ?L = "log_start s" let ?a = "?L + k + 1" and ?b = "lh_block s ! k"
  have b: "?b \<in> dirties s" "?b < disksize s" using Suc.prems(6) by auto
  have ab: "?a \<noteq> ?b" "?a < disksize s" "?a \<notin> dirties s" using Suc.prems(5,7) b(1) by auto
  have len: "length (blk s ?a) = BSIZE G" "length (blk s ?b) = BSIZE G" using Suc.prems(3) by (simp_all add: sized_def)
  show ?case
    unfolding write_log_from.simps wp_bindK wp_gets Suc.prems(4)
  proof (rule copy_out [OF Suc.prems(1,2) ab(1,2) b(2,1) Suc.prems(8) len _ arg_cong [OF log_more(2), of _ _ "\<lambda>x. x ! k"]])
    fix s1 assume w: "wrote [(?a, blk s ?b)] s s1" and more: "bio_st.more s1 = bio_st.more s"
    note L = log_more [OF more] and W = wroteD [OF w]
    have d1: "dirties s1 = dirties s" using W(5) ab(3) by simp
    have bl: "blk s1 (lh_block s ! i) = blk s (lh_block s ! i)" if "Suc k \<le> i" "i < Suc k + n" for i
    proof -
      have "lh_block s ! i \<in> dirties s" using Suc.prems(6) that by auto
      then have "lh_block s ! i \<noteq> ?a" using ab(3) by metis
      then show ?thesis using W(3) by simp
    qed
    show "wp (write_log_from G n (Suc k)) Q s1"
    proof (rule Suc.IH)
      fix s' assume w': "wrote (map (\<lambda>i. (log_start s1 + i + 1, blk s1 (lh_block s1 ! i))) [Suc k..<Suc k + n]) s1 s'"
        and more': "bio_st.more s' = bio_st.more s1"
      have e: "map (\<lambda>i. (log_start s1 + i + 1, blk s1 (lh_block s1 ! i))) [Suc k..<Suc k + n] =
          map (\<lambda>i. (log_start s + i + 1, blk s (lh_block s ! i))) [Suc k..<Suc k + n]"
        by (rule map_cong) (auto simp: L bl [simplified] simp del: upt_Suc)
      from wrote_trans [OF w w' [unfolded e]] have "wrote (map (\<lambda>i. (log_start s + i + 1, blk s (lh_block s ! i))) (k # [Suc k..<Suc k + n])) s s'"
        by (simp only: list.map append_Cons append_Nil)
      moreover have "k # [Suc k..<Suc k + n] = [k..<k + Suc n]" by (simp add: upt_conv_Cons del: upt_Suc)
      ultimately have "wrote (map (\<lambda>i. (log_start s + i + 1, blk s (lh_block s ! i))) [k..<k + Suc n]) s s'" by metis
      then show "Q () s'" using more more' by (intro Suc.prems(9)) auto
    qed (use Suc.prems W L d1 sized_wrote [OF Suc.prems(3) w] len in auto)
  qed
qed

lemma install_trans_from_wp:
  assumes "calm s" "bc_inv {} s" "sized G s" "log_dev s = 1" "log_start s + k + n < disksize s"
    and "\<forall>i. k \<le> i \<and> i < k + n \<longrightarrow> lh_block s ! i < disksize s \<and> lh_block s ! i \<notin> {log_start s .. log_start s + k + n} \<and>
       (lh_block s ! i \<in> dirties s \<or> card (dirties s) + 1 < NBUF)"
    and "dirties s \<inter> {log_start s .. log_start s + k + n} = {}" "card (dirties s) < NBUF"
    and Q: "\<And>s'. wrote (map (\<lambda>i. (lh_block s ! i, blk s (log_start s + i + 1))) [k..<k + n]) s s' \<Longrightarrow>
       bio_st.more s' = bio_st.more s \<Longrightarrow> Q () s'"
  shows "wp (install_trans_from G n k) Q s"
  using assms
proof (induction n arbitrary: k s)
  case 0
  then show ?case by (auto simp: wrote_def)
next
  case (Suc n)
  let ?L = "log_start s" let ?a = "?L + k + 1" and ?b = "lh_block s ! k"
  have b: "?b < disksize s" "?b \<noteq> ?a" "?b \<in> dirties s \<or> card (dirties s) + 1 < NBUF" using Suc.prems(6) by auto
  have ab: "?a \<noteq> ?b" "?a < disksize s" "?a \<notin> dirties s" using Suc.prems(5,7) b(2) by auto
  have len: "length (blk s ?a) = BSIZE G" "length (blk s ?b) = BSIZE G" using Suc.prems(3) by (simp_all add: sized_def)
  show ?case
    unfolding install_trans_from.simps wp_bindK wp_gets Suc.prems(4)
  proof (rule copy_in [OF Suc.prems(1,2) ab(1,2) b(1) ab(3) Suc.prems(8) b(3) len _ arg_cong [OF log_more(2), of _ _ "\<lambda>x. x ! k"]])
    fix s1 assume w: "wrote [(?b, blk s ?a)] s s1" and more: "bio_st.more s1 = bio_st.more s"
    note L = log_more [OF more] and W = wroteD [OF w]
    have d1: "dirties s1 = dirties s - {?b}" "card (dirties s1) \<le> card (dirties s)"
      using W(5) by (simp_all add: card_Diff1_le)
    have c1: "?b \<in> dirties s \<Longrightarrow> card (dirties s1) + 1 < NBUF"
      using d1(1) Suc.prems(8) card_Suc_Diff1 [of "dirties s" ?b] by simp
    have bl: "blk s1 (?L + i + 1) = blk s (?L + i + 1)" if "Suc k \<le> i" "i < Suc k + n" for i
    proof -
      have "?b \<notin> {?L .. ?L + k + Suc n}" using Suc.prems(6) by auto
      moreover have "?L + i + 1 \<in> {?L .. ?L + k + Suc n}" using that by simp
      ultimately have "?L + i + 1 \<noteq> ?b" by metis
      then show ?thesis using W(3) by simp
    qed
    show "wp (install_trans_from G n (Suc k)) Q s1"
    proof (rule Suc.IH)
      fix s' assume w': "wrote (map (\<lambda>i. (lh_block s1 ! i, blk s1 (log_start s1 + i + 1))) [Suc k..<Suc k + n]) s1 s'"
        and more': "bio_st.more s' = bio_st.more s1"
      have e: "map (\<lambda>i. (lh_block s1 ! i, blk s1 (log_start s1 + i + 1))) [Suc k..<Suc k + n] =
          map (\<lambda>i. (lh_block s ! i, blk s (log_start s + i + 1))) [Suc k..<Suc k + n]"
        by (rule map_cong) (auto simp: L bl [simplified] simp del: upt_Suc)
      from wrote_trans [OF w w' [unfolded e]] have "wrote (map (\<lambda>i. (lh_block s ! i, blk s (log_start s + i + 1))) (k # [Suc k..<Suc k + n])) s s'"
        by (simp only: list.map append_Cons append_Nil)
      moreover have "k # [Suc k..<Suc k + n] = [k..<k + Suc n]" by (simp add: upt_conv_Cons del: upt_Suc)
      ultimately have "wrote (map (\<lambda>i. (lh_block s ! i, blk s (log_start s + i + 1))) [k..<k + Suc n]) s s'" by metis
      then show "Q () s'" using more more' by (intro Suc.prems(9)) auto
    qed (use Suc.prems W L d1 c1 sized_wrote [OF Suc.prems(3) w] len in auto)
  qed
qed


lemma hdr_fold:
  assumes "4 + 4 * m \<le> length d"
  shows "length (foldl (\<lambda>d i. put32 (4 + 4 * i) (of_nat (bl ! i)) d) d [0..<m]) = length d \<and>
    get32 0 (foldl (\<lambda>d i. put32 (4 + 4 * i) (of_nat (bl ! i)) d) d [0..<m]) = get32 0 d \<and>
    (\<forall>i < m. get32 (4 + 4 * i) (foldl (\<lambda>d i. put32 (4 + 4 * i) (of_nat (bl ! i)) d) d [0..<m]) = of_nat (bl ! i))"
  using assms
proof (induction m)
  case (Suc m)
  then show ?case by (auto simp: get32_put32_other less_Suc_eq)
qed simp

lemma hdr_put_ok:
  assumes "0 \<le> n" "4 + 4 * nat n \<le> length d" "n < 2 ^ 31"
  shows "length (hdr_put n bl d) = length d" "hdr_n (hdr_put n bl d) = n"
    "\<And>i. i < nat n \<Longrightarrow> bl ! i < 2 ^ 32 \<Longrightarrow> hdr_block (hdr_put n bl d) i = bl ! i"
proof -
  have l: "length (put32 0 (word_of_int n) d) = length d" using assms(2) by simp
  have g: "get32 0 (put32 0 (word_of_int n) d) = word_of_int n" using assms(2) by simp
  note F = hdr_fold [of "nat n" "put32 0 (word_of_int n) d" bl, unfolded l g, OF assms(2)]
  show "length (hdr_put n bl d) = length d" using F by (simp add: hdr_put_def)
  show "hdr_n (hdr_put n bl d) = n" using F assms(1,3) by (simp add: hdr_put_def hdr_n_def int_word_sint)
  show "hdr_block (hdr_put n bl d) i = bl ! i" if "i < nat n" "bl ! i < 2 ^ 32" for i
    using F that by (simp add: hdr_put_def hdr_block_def unat_of_nat32)
qed

lemma write_head_wp:
  assumes s: "calm s" "bc_inv {} s" "log_dev s = 1" "log_start s < disksize s" "card (dirties s) < NBUF"
    and Q: "\<And>s'. wrote [(log_start s, hdr_put (lh_n s) (lh_block s) (blk s (log_start s)))] s s' \<Longrightarrow>
       bio_st.more s' = bio_st.more s \<Longrightarrow> Q () s'"
  shows "wp (write_head G) Q s"
  unfolding write_head_def wp_bindK wp_gets s(3)
proof (rule bread_wp [OF s(1,2,4)])
  show "slot s (log_start s) \<noteq> None \<or> (\<exists>i<NBUF. i \<notin> {} \<and> \<not> dirty (bufs s ! i))"
    using buffer_left [OF s(2)] s(5) by auto
next
  fix b s1 assume p1: "bread_post {} (log_start s) s b s1"
  note h1 = bread_held [OF p1]
  have more: "bio_st.more s1 = bio_st.more s" using p1 by (simp add: bread_post_def)
  note L = log_more [OF more]
  let ?d = "hdr_put (lh_n s) (lh_block s) (blk s (log_start s))"
  define s2 where "s2 = upd_buf b (\<lambda>k. k\<lparr>b_data := hdr_put (lh_n s1) (lh_block s1) (b_data k)\<rparr>) s1"
  have p2: "upd_post {b} b ?d s1 s2"
    using upd_data [OF h1(2,1), of b "\<lambda>k. hdr_put (lh_n s1) (lh_block s1) (b_data k)"] p1 L
    by (simp add: s2_def bread_post_def)
  then have h2: "bc_inv {b} s2" "calm s2" "b \<in> {b}" by (auto simp: upd_post_def)
  show "wp (modify (\<lambda>s. upd_buf b (\<lambda>k. k\<lparr>b_data := hdr_put (lh_n s) (lh_block s) (b_data k)\<rparr>) s))
      (\<lambda>_. wp (bwrite b) (\<lambda>_. wp (brelse b) Q)) s1"
    unfolding wp_modify s2_def [symmetric]
  proof (rule bwrite_wp [OF h2(2,1,3)])
    fix s3 assume p3: "bwrite_post {b} b s2 s3"
    then have h3: "bc_inv {b} s3" "calm s3" "b \<in> {b}" by (auto simp: bwrite_post_def)
    show "wp (brelse b) Q s3"
    proof (rule brelse_wp [OF h3(2,1,3)])
      fix s4 assume p4: "brelse_post {b} b s3 s4"
      have f: "bframe s s1" "bframe s1 s2" "bframe s2 s3" "bframe s3 s4"
        using p1 p2 p3 p4 by (simp_all add: bread_post_def upd_post_def bwrite_post_def brelse_post_def)
      show "Q () s4"
        by (rule Q) (use p1 p2 p3 p4 bframe_trans [OF f(1) bframe_trans [OF f(2) bframe_trans [OF f(3,4)]]] in
          \<open>simp_all add: wrote_def bread_post_def upd_post_def bwrite_post_def brelse_post_def\<close>)
    qed (use p1 p2 p3 in \<open>simp add: bread_post_def upd_post_def bwrite_post_def\<close>)
  qed
qed simp

section \<open>Commit\<close>

text \<open>
  What holds when the last operation of a transaction ends: the header names distinct blocks
  outside the log, exactly these are pinned in the cache, and the log on disk is empty.
\<close>

definition logged :: "'x log_st_scheme \<Rightarrow> nat list" where
  "logged s = take (nat (lh_n s)) (lh_block s)"

definition log_ok :: "fsh \<Rightarrow> 'x log_st_scheme \<Rightarrow> bool" where
  "log_ok G s \<longleftrightarrow> calm s \<and> bc_inv {} s \<and> sized G s \<and> fsh_ok G \<and> log_dev s = 1 \<and> length (lh_block s) = LOGSIZE \<and>
     0 \<le> lh_n s \<and> lh_n s < log_size s \<and> lh_n s < int NBUF \<and> log_start s + nat (log_size s) \<le> disksize s \<and>
     disksize s < 2 ^ 32 \<and> distinct (logged s) \<and> dirties s = set (logged s) \<and>
     (\<forall>b \<in> set (logged s). b < disksize s \<and> b \<notin> {log_start s ..< log_start s + nat (log_size s)})"

text \<open>The writes of a commit.\<close>

definition log_copies :: "'x log_st_scheme \<Rightarrow> (nat \<times> byte list) list" where
  "log_copies s = map (\<lambda>i. (log_start s + i + 1, blk s (lh_block s ! i))) [0..<nat (lh_n s)]"

definition home_copies :: "'x log_st_scheme \<Rightarrow> (nat \<times> byte list) list" where
  "home_copies s = map (\<lambda>i. (lh_block s ! i, blk s (lh_block s ! i))) [0..<nat (lh_n s)]"

definition commit_writes :: "'x log_st_scheme \<Rightarrow> (nat \<times> byte list) list" where
  "commit_writes s = (let h = hdr_put (lh_n s) (lh_block s) (blk s (log_start s)) in
     log_copies s @ [(log_start s, h)] @ home_copies s @ [(log_start s, hdr_put 0 (lh_block s) h)])"


text \<open>The fields of \<open>struct log\<close> do not matter to the cache.\<close>

lemma log_upd_simps [simp]:
  "bc_inv H (lh_n_update f s) = bc_inv H s" "calm (lh_n_update f s) = calm s" "blk (lh_n_update f s) = blk s" "dirties (lh_n_update f s) = dirties s"
  "bc_inv H (lh_block_update g s) = bc_inv H s" "calm (lh_block_update g s) = calm s" "blk (lh_block_update g s) = blk s" "dirties (lh_block_update g s) = dirties s"
  "bc_inv H (outstanding_update h s) = bc_inv H s" "calm (outstanding_update h s) = calm s" "blk (outstanding_update h s) = blk s" "dirties (outstanding_update h s) = dirties s"
  "bc_inv H (committing_update c s) = bc_inv H s" "calm (committing_update c s) = calm s" "blk (committing_update c s) = blk s" "dirties (committing_update c s) = dirties s"
  by (simp_all add: bc_inv_def buf_ok_def calm_def blk_def slot_def dirties_def fun_eq_iff split: option.split)

lemma log_upd_simps2 [simp]:
  "wrote ws t (lh_n_update f s) = wrote ws t s" "wrote ws (lh_n_update f s) t = wrote ws s t" "sized G (lh_n_update f s) = sized G s" "bframe t (lh_n_update f s) = bframe t s" "bframe (lh_n_update f s) t = bframe s t"
  "wrote ws t (lh_block_update g s) = wrote ws t s" "wrote ws (lh_block_update g s) t = wrote ws s t" "sized G (lh_block_update g s) = sized G s" "bframe t (lh_block_update g s) = bframe t s" "bframe (lh_block_update g s) t = bframe s t"
  "wrote ws t (outstanding_update h s) = wrote ws t s" "wrote ws (outstanding_update h s) t = wrote ws s t" "sized G (outstanding_update h s) = sized G s" "bframe t (outstanding_update h s) = bframe t s" "bframe (outstanding_update h s) t = bframe s t"
  "wrote ws t (committing_update c s) = wrote ws t s" "wrote ws (committing_update c s) t = wrote ws s t" "sized G (committing_update c s) = sized G s" "bframe t (committing_update c s) = bframe t s" "bframe (committing_update c s) t = bframe s t"
  by (simp_all add: wrote_def sized_def bframe_def)

lemma log_okD:
  assumes "log_ok G s"
  shows "calm s" "bc_inv {} s" "sized G s" "fsh_ok G" "log_dev s = 1" "length (lh_block s) = LOGSIZE" "0 \<le> lh_n s"
    "lh_n s < log_size s" "nat (lh_n s) < NBUF" "log_start s + nat (lh_n s) < disksize s" "log_start s < disksize s"
    "card (dirties s) = nat (lh_n s)" "distinct (logged s)" "dirties s = set (logged s)"
    "dirties s \<inter> {log_start s .. log_start s + nat (lh_n s)} = {}" "nat (lh_n s) \<le> LOGSIZE"
    "\<And>i. i < nat (lh_n s) \<Longrightarrow> lh_block s ! i \<in> dirties s \<and> lh_block s ! i < disksize s \<and> lh_block s ! i < 2 ^ 32 \<and>
       lh_block s ! i \<notin> {log_start s .. log_start s + nat (lh_n s)}"
proof -
  show a: "calm s" "bc_inv {} s" "sized G s" "fsh_ok G" "log_dev s = 1" "length (lh_block s) = LOGSIZE" "0 \<le> lh_n s"
    "lh_n s < log_size s" "nat (lh_n s) < NBUF" "distinct (logged s)" "dirties s = set (logged s)"
    using assms by (auto simp: log_ok_def)
  have sz: "log_start s + nat (log_size s) \<le> disksize s" "nat (lh_n s) < nat (log_size s)" "disksize s < 2 ^ 32"
    using assms a by (auto simp: log_ok_def)
  then show "log_start s + nat (lh_n s) < disksize s" "log_start s < disksize s" by linarith+
  show le: "nat (lh_n s) \<le> LOGSIZE" using a(9) by (simp add: param_defs)
  then have len: "length (logged s) = nat (lh_n s)" using a(6) by (simp add: logged_def)
  then show "card (dirties s) = nat (lh_n s)" using a(10,11) by (simp add: distinct_card)
  show dis: "dirties s \<inter> {log_start s .. log_start s + nat (lh_n s)} = {}"
    using assms a(11) sz(2) by (force simp: log_ok_def)
  fix i assume i: "i < nat (lh_n s)"
  then have "lh_block s ! i = logged s ! i" by (simp add: logged_def)
  then have "lh_block s ! i \<in> set (logged s)" using i len by simp
  with assms a(11) sz(3) dis show "lh_block s ! i \<in> dirties s \<and> lh_block s ! i < disksize s \<and> lh_block s ! i < 2 ^ 32 \<and>
       lh_block s ! i \<notin> {log_start s .. log_start s + nat (lh_n s)}"
    by (auto simp: log_ok_def)
qed

lemma fst_log_copies: "fst ` set (log_copies s) \<subseteq> {log_start s + 1 .. log_start s + nat (lh_n s)}"
  by (auto simp: log_copies_def)

lemma log_copies_val:
  "i < nat (lh_n s) \<Longrightarrow> apply_writes D (log_copies s) (log_start s + i + 1) = blk s (lh_block s ! i)"
  unfolding log_copies_def
  by (rule apply_writes_map [where f = "\<lambda>i. log_start s + i + 1"]) (auto simp: distinct_map intro: inj_onI)

lemma sized_writes:
  assumes "sized G s"
  shows "\<forall>w \<in> set (log_copies s). length (snd w) = BSIZE G" "\<forall>w \<in> set (home_copies s). length (snd w) = BSIZE G"
  using assms by (auto simp: log_copies_def home_copies_def sized_def)

lemma fst_home_copies: "log_ok G s \<Longrightarrow> fst ` set (home_copies s) = set (logged s)"
  using log_okD(6) [of G s] log_okD(16) [of G s] by (simp add: home_copies_def logged_def take_map_nth image_image)

lemma commit_wp:
  assumes ok: "log_ok G s" and n: "0 < lh_n s"
    and Q: "\<And>s'. wrote (commit_writes s) s s' \<Longrightarrow> bio_st.more s' = bio_st.more (s\<lparr>lh_n := 0\<rparr>) \<Longrightarrow> Q () s'"
  shows "wp (commit G) Q s"
proof -
  note D = log_okD [OF ok]
  let ?L = "log_start s" and ?n = "nat (lh_n s)" and ?bl = "lh_block s"
  let ?h = "hdr_put (lh_n s) ?bl (blk s ?L)"
  have "4 + 4 * ?n \<le> BSIZE G" using D(4,9) by (simp add: fsh_ok_def param_defs)
  then have hl: "length ?h = BSIZE G" using D(3,7,9) by (subst hdr_put_ok) (simp_all add: sized_def param_defs)
  have "wp (write_log_from G ?n 0) (\<lambda>_ s1. wp (write_head G) (\<lambda>_. wp (install_trans G)
      (\<lambda>_ s. wp (write_head G) Q (s\<lparr>lh_n := 0\<rparr>))) s1) s"
  proof (rule write_log_from_wp [OF D(1-3,5)])
    fix s1 assume "wrote (map (\<lambda>i. (?L + i + 1, blk s (?bl ! i))) [0..<0 + ?n]) s s1"
    then have w1: "wrote (log_copies s) s s1" by (simp add: log_copies_def)
    assume more1: "bio_st.more s1 = bio_st.more s"
    note L1 = log_more [OF more1] and W1 = wroteD [OF w1]
    have d1: "dirties s1 = dirties s" using W1(5) fst_log_copies [of s] D(15) by force
    have b1: "blk s1 ?L = blk s ?L" unfolding W1(3) using fst_log_copies [of s] by (intro apply_writes_other) force
    show "wp (write_head G) (\<lambda>_. wp (install_trans G) (\<lambda>_ s. wp (write_head G) Q (s\<lparr>lh_n := 0\<rparr>))) s1"
    proof (rule write_head_wp)
      fix s2 assume w2': "wrote [(log_start s1, hdr_put (lh_n s1) (lh_block s1) (blk s1 (log_start s1)))] s1 s2"
        and more2: "bio_st.more s2 = bio_st.more s1"
      have w2: "wrote [(?L, ?h)] s1 s2" using w2' by (simp add: L1 b1)
      note L2 = log_more [OF more2] and W2 = wroteD [OF w2]
      have d2: "dirties s2 = dirties s" using W2(5) d1 D(15) by auto
      have b2: "blk s2 (?L + i + 1) = blk s (?bl ! i)" if "i < ?n" for i
        using W2(3) W1(3) log_copies_val [OF that] by simp
      have sz: "sized G s2"
        using sized_wrote [OF sized_wrote [OF D(3) w1 sized_writes(1) [OF D(3)]] w2] hl by simp
      show "wp (install_trans G) (\<lambda>_ s. wp (write_head G) Q (s\<lparr>lh_n := 0\<rparr>)) s2"
        unfolding install_trans_def wp_bindK wp_gets
      proof (rule install_trans_from_wp [OF W2(2,1) sz])
        fix s3 assume "wrote (map (\<lambda>i. (lh_block s2 ! i, blk s2 (log_start s2 + i + 1))) [0..<0 + nat (lh_n s2)]) s2 s3"
        moreover have "map (\<lambda>i. (lh_block s2 ! i, blk s2 (log_start s2 + i + 1))) [0..<0 + nat (lh_n s2)] = home_copies s"
          using b2 by (simp add: L1 L2 home_copies_def)
        ultimately have w3: "wrote (home_copies s) s2 s3" by simp
        assume more3: "bio_st.more s3 = bio_st.more s2"
        note L3 = log_more [OF more3] and W3 = wroteD [OF w3]
        have b3: "blk s3 ?L = ?h"
          unfolding W3(3) using D(14,15) W2(3) fst_home_copies [OF ok] by (subst apply_writes_other) auto
        have d3: "dirties s3 = {}" using W3(5) d2 D(14) fst_home_copies [OF ok] by auto
        show "wp (write_head G) Q (s3\<lparr>lh_n := 0\<rparr>)"
        proof (rule write_head_wp)
          fix s4 assume w4: "wrote [(log_start (s3\<lparr>lh_n := 0\<rparr>), hdr_put (lh_n (s3\<lparr>lh_n := 0\<rparr>)) (lh_block (s3\<lparr>lh_n := 0\<rparr>))
              (blk (s3\<lparr>lh_n := 0\<rparr>) (log_start (s3\<lparr>lh_n := 0\<rparr>))))] (s3\<lparr>lh_n := 0\<rparr>) s4"
            and more4: "bio_st.more s4 = bio_st.more (s3\<lparr>lh_n := 0\<rparr>)"
          from w4 have "wrote [(?L, hdr_put 0 ?bl ?h)] s3 s4" by (simp add: L1 L2 L3 b3)
          from wrote_trans [OF w1 wrote_trans [OF w2 wrote_trans [OF w3 this]]]
          have "wrote (commit_writes s) s s4" by (simp add: commit_writes_def Let_def)
          moreover have "bio_st.more (s3\<lparr>lh_n := 0\<rparr>) = bio_st.more (s\<lparr>lh_n := 0\<rparr>)"
            using more1 more2 more3 by (cases s; cases s3) simp
          ultimately show "Q () s4" using more4 by (intro Q) simp_all
        qed (use W3 W2 W1 L1 L2 L3 d3 D in simp_all)
      qed (use D(5,9,10,12,15,17) W1(6) W2(6) L1 L2 d2 in simp_all)
    qed (use D(5,9,11,12) W1 L1 d1 in simp_all)
  qed (use D(9,10,12,15,17) in auto)
  then show ?thesis using n unfolding commit_def write_log_def wp_bindK wp_gets wp_modify wp_whenK by simp
qed


section \<open>Operations and their log space\<close>

lemma log_st_km_last [simp]:
  "lh_n_update f (km_update g s) = km_update g (lh_n_update f s)"
  "lh_block_update f' (km_update g s) = km_update g (lh_block_update f' s)"
  "outstanding_update f (km_update g s) = km_update g (outstanding_update f s)"
  "committing_update h (km_update g s) = km_update g (committing_update h s)"
  "bufs_update k (lh_n_update f s) = lh_n_update f (bufs_update k s)"
  "bufs_update k (lh_block_update f' s) = lh_block_update f' (bufs_update k s)"
  "procs_update k' (outstanding_update f s) = outstanding_update f (procs_update k' s)"
  "procs_update k' (committing_update h s) = committing_update h (procs_update k' s)"
  by (cases s; simp)+

text \<open>The room test of \<open>begin_op\<close>.\<close>

definition has_room :: "'x log_st_scheme \<Rightarrow> bool" where
  "has_room s \<longleftrightarrow> \<not> committing s \<and> lh_n s + (outstanding s + 1) * int MAXOPBLOCKS \<le> int LOGSIZE"

lemma begin_op_wp:
  assumes "mach_inv {} (km s)" "has_room s"
    and Q: "\<And>m'. mach_inv {} m' \<Longrightarrow> curproc m' = curproc (km s) \<Longrightarrow> ident m' = ident (km s) \<Longrightarrow>
      Q () (s\<lparr>outstanding := outstanding s + 1, km := m'\<rparr>)"
  shows "wp begin_op Q s"
  using assms(2) unfolding begin_op_def begin_op_loop_def wp_bindK has_room_def
  by (intro acquire_onm [OF assms(1)]) (auto intro!: release_onm [of "{LkLog}"] Q)

lemma begin_op_wpx:
  assumes "mach_inv {} (km s)" "curproc (km s) = Some p" "p < length (procs s)" "\<not> has_room s"
    and A: "\<And>m'. mach_inv {LkPtable} m' \<Longrightarrow> curproc m' = Some p \<Longrightarrow> ident m' = ident (km s) \<Longrightarrow>
      A (s\<lparr>procs := (procs s)[p := (procs s ! p)\<lparr>p_chan := Some ChLog, p_state := SLEEPING\<rparr>], km := m'\<rparr>)"
  shows "wpx begin_op Q A s"
  using assms(4) unfolding begin_op_def begin_op_loop_def wpx_bindK has_room_def
  by (intro acquire_x [OF assms(1)]) (auto intro!: sleep_wpx [of LkLog, where p = p] A simp: assms(2,3))

text \<open>Absorption: a block already logged keeps its place, another one goes to the end.\<close>

definition log_add :: "nat \<Rightarrow> 'x log_st_scheme \<Rightarrow> 'x log_st_scheme" where
  "log_add b s = (if b \<in> set (logged s) then s
     else s\<lparr>lh_block := (lh_block s)[nat (lh_n s) := b], lh_n := lh_n s + 1\<rparr>)"

definition pin :: "nat \<Rightarrow> 'x bio_st_scheme \<Rightarrow> 'x bio_st_scheme" where
  "pin i s = upd_buf i (\<lambda>k. k\<lparr>b_flags := b_flags k OR B_DIRTY\<rparr>) s"

lemma log_write_wp:
  assumes m: "mach_inv {} (km s)" and n: "0 \<le> lh_n s" "lh_n s < int LOGSIZE" "lh_n s < log_size s - 1" "1 \<le> outstanding s"
    and len: "length (lh_block s) = LOGSIZE"
    and Q: "\<And>m'. mach_inv {} m' \<Longrightarrow> curproc m' = curproc (km s) \<Longrightarrow> ident m' = ident (km s) \<Longrightarrow>
      Q () ((pin i (log_add (b_blockno (bufs s ! i)) s))\<lparr>km := m'\<rparr>)"
  shows "wp (log_write i) Q s"
proof (cases "findix (\<lambda>c. c = b_blockno (bufs s ! i)) 0 (take (nat (lh_n s)) (lh_block s))")
  case None
  then have nin: "b_blockno (bufs s ! i) \<notin> set (logged s)" by (auto simp: findix_None logged_def)
  show ?thesis
    using n None unfolding log_write_def wp_bindK
    by (auto intro!: acquire_onm [OF m] release_onm [of "{LkLog}"] simp: upd_buf_def)
       (use Q nin in \<open>simp add: log_add_def pin_def upd_buf_def\<close>)
next
  case (Some j)
  from findix_SomeD [OF this] n(1) have j: "j < nat (lh_n s)" "j < length (lh_block s)" "lh_block s ! j = b_blockno (bufs s ! i)"
    by auto
  then have "b_blockno (bufs s ! i) \<in> set (logged s)"
    unfolding logged_def by (metis in_set_conv_nth length_take min_less_iff_conj nth_take)
  moreover have "(lh_block s)[j := b_blockno (bufs s ! i)] = lh_block s" using j(3) by (metis list_update_id)
  ultimately show ?thesis
    using n Some j unfolding log_write_def wp_bindK
    by (auto intro!: acquire_onm [OF m] release_onm [of "{LkLog}"] simp: upd_buf_def)
       (use Q in \<open>simp add: log_add_def pin_def upd_buf_def\<close>)
qed

lemma log_write_panics:
  "lh_n s \<ge> int LOGSIZE \<or> lh_n s \<ge> log_size s - 1 \<Longrightarrow> log_write i s = Panicked ''too big a transaction''"
  "lh_n s < int LOGSIZE \<Longrightarrow> lh_n s < log_size s - 1 \<Longrightarrow> outstanding s < 1 \<Longrightarrow> log_write i s = Panicked ''log_write outside of trans''"
  by (auto simp: log_write_def monad_simps)


text \<open>
  Inside a transaction, with the buffers \<open>H\<close> held: the pinned blocks are the logged ones, and
  none of them is in the log area.
\<close>

definition log_area :: "'x log_st_scheme \<Rightarrow> nat set" where
  "log_area s = {log_start s ..< log_start s + nat (log_size s)}"

definition tx_ok :: "fsh \<Rightarrow> nat set \<Rightarrow> 'x log_st_scheme \<Rightarrow> bool" where
  "tx_ok G H s \<longleftrightarrow> calm s \<and> bc_inv H s \<and> sized G s \<and> fsh_ok G \<and> log_dev s = 1 \<and> length (lh_block s) = LOGSIZE \<and>
     0 \<le> lh_n s \<and> lh_n s < log_size s \<and> lh_n s < int NBUF \<and> log_start s + nat (log_size s) \<le> disksize s \<and>
     disksize s < 2 ^ 32 \<and> distinct (logged s) \<and> dirties s = set (logged s) \<and>
     (\<forall>b \<in> set (logged s). b < disksize s \<and> b \<notin> log_area s)"

lemma tx_log_ok: "tx_ok G {} s = log_ok G s"
  by (auto simp: tx_ok_def log_ok_def log_area_def)

lemma tx_card:
  assumes "tx_ok G H s"
  shows "card (dirties s) = nat (lh_n s)"
proof -
  have "nat (lh_n s) \<le> LOGSIZE" using assms by (auto simp: tx_ok_def param_defs)
  then have "length (logged s) = nat (lh_n s)" using assms by (simp add: tx_ok_def logged_def)
  moreover have "dirties s = set (logged s)" "distinct (logged s)" using assms by (auto simp: tx_ok_def)
  ultimately show ?thesis by (simp add: distinct_card)
qed

lemma dirties_pin:
  assumes "bc_inv H s" "i \<in> H"
  shows "dirties (pin i s) = insert (b_blockno (bufs s ! i)) (dirties s)" "bc_inv H (pin i s)" "blk (pin i s) = blk s"
proof -
  note h = held_ok [OF assms] and len = bc_invD(1) [OF assms(1)]
  let ?k = "(bufs s ! i)\<lparr>b_flags := b_flags (bufs s ! i) OR B_DIRTY\<rparr>"
  have b: "bufs (pin i s) = (bufs s)[i := ?k]" by (simp add: pin_def upd_buf_def)
  have "dirty (bufs (pin i s) ! j) \<and> b_blockno (bufs (pin i s) ! j) = c \<longleftrightarrow>
      (j = i \<and> c = b_blockno (bufs s ! i)) \<or> (dirty (bufs s ! j) \<and> b_blockno (bufs s ! j) = c)" for j c
    using h(1) len by (cases "j = i") (auto simp: b)
  then show "dirties (pin i s) = insert (b_blockno (bufs s ! i)) (dirties s)"
    using h(1) unfolding dirties_def by auto
  have "bc_inv H (pin i s)" "blk (pin i s) = (blk s)(b_blockno (bufs s ! i) := b_data ?k)"
    by (rule held_set [OF assms b]; use h in \<open>simp add: pin_def upd_buf_def\<close>)+
  then show "bc_inv H (pin i s)" "blk (pin i s) = blk s"
    using blk_cached [OF assms(1) h(1,4)] by (simp_all add: fun_upd_idem)
qed

lemma logged_add:
  assumes "0 \<le> lh_n s" "nat (lh_n s) < length (lh_block s)"
  shows "logged (log_add b s) = (if b \<in> set (logged s) then logged s else logged s @ [b])"
proof -
  have "nat (lh_n s + 1) = Suc (nat (lh_n s))" using assms(1) by simp
  with assms(2) show ?thesis by (simp add: logged_def log_add_def take_Suc_conv_app_nth)
qed

definition logw_post :: "fsh \<Rightarrow> nat set \<Rightarrow> nat \<Rightarrow> 'x log_st_scheme \<Rightarrow> 'x log_st_scheme \<Rightarrow> bool" where
  "logw_post G H i s s' \<longleftrightarrow> tx_ok G H s' \<and> blk s' = blk s \<and> disk s' = disk s \<and> dhist s' = dhist s \<and>
     dirties s' = insert (b_blockno (bufs s ! i)) (dirties s) \<and>
     (\<forall>j. j \<noteq> i \<longrightarrow> bufs s' ! j = bufs s ! j) \<and> dirty (bufs s' ! i) \<and>
     b_blockno (bufs s' ! i) = b_blockno (bufs s ! i) \<and> b_data (bufs s' ! i) = b_data (bufs s ! i) \<and>
     lh_n s \<le> lh_n s' \<and> lh_n s' \<le> lh_n s + 1 \<and> outstanding s' = outstanding s \<and> log_size s' = log_size s \<and>
     log_start s' = log_start s \<and> committing s' = committing s \<and> bframe s s' \<and> log_st.more s' = log_st.more s"

lemma log_write_tx:
  assumes ok: "tx_ok G H s" and i: "i \<in> H" "b_blockno (bufs s ! i) \<notin> log_area s"
    and n: "lh_n s + 1 < int NBUF" "lh_n s + 1 < log_size s" "1 \<le> outstanding s"
    and Q: "\<And>s'. logw_post G H i s s' \<Longrightarrow> Q () s'"
  shows "wp (log_write i) Q s"
proof (rule log_write_wp)
  have inv: "bc_inv H s" and t: "0 \<le> lh_n s" "length (lh_block s) = LOGSIZE" "dirties s = set (logged s)" "distinct (logged s)"
    "calm s" "sized G s" using ok by (auto simp: tx_ok_def)
  let ?b = "b_blockno (bufs s ! i)"
  show "mach_inv {} (km s)" using t(5) by (simp add: calm_def)
  show "0 \<le> lh_n s" "lh_n s < int LOGSIZE" "lh_n s < log_size s - 1" "1 \<le> outstanding s" "length (lh_block s) = LOGSIZE"
    using t n by (simp_all add: param_defs)
  fix m' assume m': "mach_inv {} m'" "curproc m' = curproc (km s)" "ident m' = ident (km s)"
  let ?s = "(pin i (log_add ?b s))\<lparr>km := m'\<rparr>"
  note h = held_ok [OF inv i(1)]
  have bufs: "bufs (log_add ?b s) = bufs s" "disk (log_add ?b s) = disk s" "blk (log_add ?b s) = blk s" "bc_inv H (log_add ?b s)"
    "dirties (log_add ?b s) = dirties s" using inv by (simp_all add: log_add_def)
  note P = dirties_pin [OF bufs(4) i(1), unfolded bufs]
  have lg: "logged ?s = (if ?b \<in> set (logged s) then logged s else logged s @ [?b])"
    using logged_add [of s ?b] t n(1) by (simp add: logged_def pin_def upd_buf_def param_defs)
  have "bc_inv H ?s" "blk ?s = blk s" using P by (simp_all add: bc_inv_km)
  moreover have "dirties ?s = insert ?b (dirties s)" using P(1) by (simp add: dirties_def)
  moreover have "calm ?s" using m' t(5) by (simp add: calm_def)
  ultimately show "Q () ?s"
    using ok lg h n i(2) t m' bc_invD(1) [OF inv]
    by (intro Q) (auto simp: logw_post_def tx_ok_def sized_def log_area_def log_add_def pin_def upd_buf_def bframe_def)
qed

end
