(* ===== verification/Crash.thy ===== *)
theory Crash
  imports Log
begin

text \<open>
  Recovery and crash safety of the log, and the properties of the log.  A crash keeps a
  prefix of the device's writes (\<open>dhist\<close>) and loses the memory; the kernel that boots
  afterwards runs \<open>recover_from_log\<close> and may crash itself.
\<close>

section \<open>Recovery\<close>

text \<open>
  A kernel that has booted on the disk \<open>D\<close> with the geometry of \<open>s\<close>: nothing cached is
  newer than the disk.
\<close>

definition booted :: "fsh \<Rightarrow> 'x log_st_scheme \<Rightarrow> (nat \<Rightarrow> byte list) \<Rightarrow> 'x log_st_scheme \<Rightarrow> bool" where
  "booted G s D r \<longleftrightarrow> calm r \<and> bc_inv {} r \<and> dirties r = {} \<and> disk r = D \<and> log_dev r = 1 \<and>
     log_start r = log_start s \<and> disksize r = disksize s \<and> length (lh_block r) = LOGSIZE"

definition recover_writes :: "nat \<Rightarrow> (nat \<Rightarrow> byte list) \<Rightarrow> (nat \<times> byte list) list" where
  "recover_writes L D = map (\<lambda>i. (hdr_block (D L) i, D (L + i + 1))) [0..<nat (hdr_n (D L))] @ [(L, put32 0 0 (D L))]"

definition good_log :: "fsh \<Rightarrow> nat \<Rightarrow> nat \<Rightarrow> (nat \<Rightarrow> byte list) \<Rightarrow> bool" where
  "good_log G L ds D \<longleftrightarrow> (\<forall>b. length (D b) = BSIZE G) \<and> hdr_n (D L) \<le> int LOGSIZE \<and> L + nat (hdr_n (D L)) < ds \<and>
     (\<forall>i < nat (hdr_n (D L)). hdr_block (D L) i < ds \<and> hdr_block (D L) i \<notin> {L .. L + nat (hdr_n (D L))})"

lemma hdr_put_0 [simp]: "hdr_put 0 bl d = put32 0 0 d"
  by (simp add: hdr_put_def)

lemma blk_booted: "booted G s D r \<Longrightarrow> blk r = D"
  by (auto simp: booted_def fun_eq_iff blk_clean)

lemma read_head_wp:
  assumes b: "calm r" "bc_inv {} r" "dirties r = {}" "log_dev r = 1" "log_start r < disksize r"
    and n: "hdr_n (disk r (log_start r)) \<le> int LOGSIZE"
    and Q: "\<And>r'. wrote [] r r' \<Longrightarrow> bio_st.more r' = bio_st.more (r\<lparr>lh_n := hdr_n (disk r (log_start r)),
        lh_block := map (hdr_block (disk r (log_start r))) [0..<nat (hdr_n (disk r (log_start r)))] @
          drop (nat (hdr_n (disk r (log_start r)))) (lh_block r)\<rparr>) \<Longrightarrow> Q () r'"
  shows "wp (read_head G) Q r"
  unfolding read_head_def wp_bindK wp_gets b(4)
proof (rule bread_wp [OF b(1,2,5)])
  show "slot r (log_start r) \<noteq> None \<or> (\<exists>i<NBUF. i \<notin> {} \<and> \<not> dirty (bufs r ! i))"
    using buffer_left [OF b(2)] b(3) by auto
next
  fix i s1 assume p1: "bread_post {} (log_start r) r i s1"
  note h1 = bread_held [OF p1]
  have d1: "b_data (bufs s1 ! i) = disk r (log_start r)" "disk s1 = disk r" "b_blockno (bufs s1 ! i) = log_start r"
    using p1 blk_clean [OF b(2)] b(3) by (simp_all add: bread_post_def)
  let ?d = "disk r (log_start r)"
  let ?s = "s1\<lparr>lh_n := hdr_n ?d, lh_block := map (hdr_block ?d) [0..<nat (hdr_n ?d)] @ drop (nat (hdr_n ?d)) (lh_block s1)\<rparr>"
  have "wp (brelse i) Q ?s"
  proof (rule brelse_wp [of _ "{i}"])
    fix s2 assume p2: "brelse_post {i} i ?s s2"
    have f: "bframe r s1" "bframe s1 s2" using p1 p2 by (simp_all add: bread_post_def brelse_post_def)
    have more: "bio_st.more s1 = bio_st.more r" using p1 by (simp add: bread_post_def)
    show "Q () s2"
    proof (rule Q)
      show "wrote [] r s2" using p1 p2 bframe_trans [OF f] by (simp add: wrote_def bread_post_def brelse_post_def)
      show "bio_st.more s2 = bio_st.more (r\<lparr>lh_n := hdr_n ?d, lh_block := map (hdr_block ?d) [0..<nat (hdr_n ?d)] @
          drop (nat (hdr_n ?d)) (lh_block r)\<rparr>)"
        using p2 more by (cases r; cases s1) (simp add: brelse_post_def)
    qed
  qed (use h1 d1 in simp_all)
  with d1 n show "wp (if int LOGSIZE < hdr_n (b_data (bufs s1 ! i)) then panic ''out of bounds''
      else seqK (modify (\<lambda>s. s\<lparr>lh_n := hdr_n (b_data (bufs s1 ! i))\<rparr>))
        (seqK (modify (\<lambda>s. s\<lparr>lh_block := map (hdr_block (b_data (bufs s1 ! i))) [0..<nat (hdr_n (b_data (bufs s1 ! i)))] @
            drop (nat (hdr_n (b_data (bufs s1 ! i)))) (lh_block s)\<rparr>)) (brelse i))) Q s1"
    by simp
qed simp

lemma recover_wp:
  assumes b: "booted G s D r" and g: "good_log G (log_start s) (disksize s) D"
    and Q: "\<And>r'. wrote (recover_writes (log_start s) D) r r' \<Longrightarrow> lh_n r' = 0 \<Longrightarrow> Q () r'"
  shows "wp (recover_from_log G) Q r"
proof -
  let ?L = "log_start s" let ?d = "D ?L" let ?n = "nat (hdr_n ?d)"
  have r: "calm r" "bc_inv {} r" "dirties r = {}" "log_dev r = 1" "log_start r = ?L" "disksize r = disksize s" "disk r = D"
    "length (lh_block r) = LOGSIZE"
    using b by (auto simp: booted_def)
  note blk = blk_booted [OF b]
  have g': "?L + ?n < disksize s" "hdr_n ?d \<le> int LOGSIZE" "\<And>b. length (D b) = BSIZE G" "?n \<le> LOGSIZE"
    "\<And>i. i < ?n \<Longrightarrow> hdr_block ?d i < disksize s \<and> hdr_block ?d i \<notin> {?L .. ?L + ?n}"
    using g by (auto simp: good_log_def)
  show ?thesis
    unfolding recover_from_log_def wp_bindK
  proof (rule read_head_wp [OF r(1-4)])
    fix r1 assume w1: "wrote [] r r1"
      and "bio_st.more r1 = bio_st.more (r\<lparr>lh_n := hdr_n (disk r (log_start r)),
        lh_block := map (hdr_block (disk r (log_start r))) [0..<nat (hdr_n (disk r (log_start r)))] @
          drop (nat (hdr_n (disk r (log_start r)))) (lh_block r)\<rparr>)"
    then have m1: "bio_st.more r1 = bio_st.more (r\<lparr>lh_n := hdr_n ?d, lh_block := map (hdr_block ?d) [0..<?n] @ drop ?n (lh_block r)\<rparr>)"
      by (simp add: r)
    note L1 = log_more [OF m1, simplified] and W1 = wroteD [OF w1, simplified]
    have d1: "dirties r1 = {}" using W1(5) r(3) by simp
    show "wp (install_trans G) (\<lambda>_. wp (modify (\<lambda>s. s\<lparr>lh_n := 0\<rparr>)) (\<lambda>_. wp (write_head G) Q)) r1"
      unfolding install_trans_def wp_bindK wp_gets
    proof (rule install_trans_from_wp [OF W1(2,1)])
      fix r2 assume "wrote (map (\<lambda>i. (lh_block r1 ! i, blk r1 (log_start r1 + i + 1))) [0..<0 + nat (lh_n r1)]) r1 r2"
      moreover have "map (\<lambda>i. (lh_block r1 ! i, blk r1 (log_start r1 + i + 1))) [0..<0 + nat (lh_n r1)] =
          map (\<lambda>i. (hdr_block ?d i, D (?L + i + 1))) [0..<?n]"
        by (simp add: L1 W1 blk r nth_append)
      ultimately have w2: "wrote (map (\<lambda>i. (hdr_block ?d i, D (?L + i + 1))) [0..<?n]) r1 r2" by simp
      assume m2: "bio_st.more r2 = bio_st.more r1"
      note L2 = log_more [OF m2] and W2 = wroteD [OF w2]
      have b2: "blk r2 ?L = ?d"
        unfolding W2(3) W1(3) blk using g'(5) by (intro apply_writes_other) force
      show "wp (modify (\<lambda>s. s\<lparr>lh_n := 0\<rparr>)) (\<lambda>_. wp (write_head G) Q) r2"
        unfolding wp_modify
      proof (rule write_head_wp)
        fix r3 assume w3: "wrote [(log_start (r2\<lparr>lh_n := 0\<rparr>), hdr_put (lh_n (r2\<lparr>lh_n := 0\<rparr>)) (lh_block (r2\<lparr>lh_n := 0\<rparr>))
              (blk (r2\<lparr>lh_n := 0\<rparr>) (log_start (r2\<lparr>lh_n := 0\<rparr>))))] (r2\<lparr>lh_n := 0\<rparr>) r3"
          and m3: "bio_st.more r3 = bio_st.more (r2\<lparr>lh_n := 0\<rparr>)"
        from w3 have "wrote [(?L, put32 0 0 ?d)] r2 r3" by (simp add: L1 L2 b2 r)
        from wrote_trans [OF w1 wrote_trans [OF w2 this]]
        have "wrote (recover_writes ?L D) r r3" by (simp add: recover_writes_def)
        moreover have "lh_n r3 = 0" using log_more(1) [OF m3] by simp
        ultimately show "Q () r3" by (rule Q)
      qed (use W1 W2 L1 L2 r d1 g' in simp_all)
    qed (use W1 L1 r d1 g' blk in \<open>simp_all add: sized_def nth_append param_defs\<close>)
  qed (use r g' in simp_all)
qed


section \<open>Crashes\<close>

text \<open>The three kinds of disks a crash around a commit of \<open>s\<close> can leave.\<close>

definition is_old :: "'x log_st_scheme \<Rightarrow> (nat \<Rightarrow> byte list) \<Rightarrow> bool" where
  "is_old s D \<longleftrightarrow> hdr_n (D (log_start s)) = 0 \<and> (\<forall>b. b \<notin> log_area s \<longrightarrow> D b = disk s b)"

definition is_new :: "'x log_st_scheme \<Rightarrow> (nat \<Rightarrow> byte list) \<Rightarrow> bool" where
  "is_new s D \<longleftrightarrow> hdr_n (D (log_start s)) = 0 \<and> (\<forall>b. b \<notin> log_area s \<longrightarrow> D b = blk s b)"

definition is_committed :: "'x log_st_scheme \<Rightarrow> (nat \<Rightarrow> byte list) \<Rightarrow> bool" where
  "is_committed s D \<longleftrightarrow> hdr_n (D (log_start s)) = lh_n s \<and>
     (\<forall>i < nat (lh_n s). hdr_block (D (log_start s)) i = lh_block s ! i \<and> D (log_start s + i + 1) = blk s (lh_block s ! i)) \<and>
     (\<forall>b. b \<notin> log_area s \<union> set (logged s) \<longrightarrow> D b = disk s b)"

definition block_sized :: "fsh \<Rightarrow> (nat \<Rightarrow> byte list) \<Rightarrow> bool" where
  "block_sized G D \<longleftrightarrow> (\<forall>b. length (D b) = BSIZE G)"

definition crash_inv :: "fsh \<Rightarrow> 'x log_st_scheme \<Rightarrow> (nat \<Rightarrow> byte list) \<Rightarrow> bool" where
  "crash_inv G s D \<longleftrightarrow> block_sized G D \<and> (is_old s D \<or> is_committed s D \<or> is_new s D)"

lemma block_sized_writes:
  assumes "block_sized G D" "\<forall>w \<in> set ws. length (snd w) = BSIZE G"
  shows "block_sized G (apply_writes D ws)"
  using assms
proof (induction ws arbitrary: D)
  case (Cons w ws)
  obtain c d where w: "w = (c, d)" by (cases w)
  have "block_sized G (apply_writes (D(c := d)) ws)"
    by (rule Cons.IH) (use Cons.prems w in \<open>auto simp: block_sized_def\<close>)
  with w show ?case by (simp del: fun_upd_apply)
qed simp

lemma hdr_n_cleared: "block_sized G D \<Longrightarrow> fsh_ok G \<Longrightarrow> hdr_n (put32 0 0 (D b)) = 0"
  by (simp add: hdr_n_def block_sized_def fsh_ok_def)

lemma log_ok_area:
  assumes "log_ok G s"
  shows "log_start s \<in> log_area s" "i < nat (lh_n s) \<Longrightarrow> log_start s + i + 1 \<in> log_area s"
    "set (logged s) \<inter> log_area s = {}" "b \<notin> set (logged s) \<Longrightarrow> blk s b = disk s b"
    "fst ` set (log_copies s) \<subseteq> log_area s"
proof -
  note D = log_okD [OF assms]
  have n: "nat (lh_n s) < nat (log_size s)" using D(7,8) by simp
  then show "log_start s \<in> log_area s" "i < nat (lh_n s) \<Longrightarrow> log_start s + i + 1 \<in> log_area s"
    by (auto simp: log_area_def)
  show "set (logged s) \<inter> log_area s = {}" using assms by (auto simp: log_ok_def log_area_def)
  show "b \<notin> set (logged s) \<Longrightarrow> blk s b = disk s b" using blk_clean [OF D(2)] D(14) by simp
  show "fst ` set (log_copies s) \<subseteq> log_area s" using n by (auto simp: log_copies_def log_area_def)
qed

lemma logged_nth: "log_ok G s \<Longrightarrow> i < nat (lh_n s) \<Longrightarrow> lh_block s ! i \<in> set (logged s)"
  using log_okD(14,17) by blast

text \<open>Writes that touch only logged blocks keep a committed disk committed.\<close>

lemma committed_keep:
  assumes "log_ok G s" "is_committed s D" "fst ` set ws \<subseteq> set (logged s)"
  shows "is_committed s (apply_writes D ws)"
proof -
  have "apply_writes D ws b = D b" if "b \<notin> set (logged s)" for b
    by (rule apply_writes_other) (use assms(3) that in blast)
  moreover have "log_start s \<notin> set (logged s)" "i < nat (lh_n s) \<Longrightarrow> log_start s + i + 1 \<notin> set (logged s)" for i
    using log_ok_area [OF assms(1)] by blast+
  ultimately show ?thesis using assms(2) by (simp add: is_committed_def)
qed

text \<open>The home writes make the new contents visible.\<close>

lemma home_writes_val:
  assumes "log_ok G s" "\<And>i. i < nat (lh_n s) \<Longrightarrow> g i = blk s (lh_block s ! i)"
    and "b \<in> set (logged s)"
  shows "apply_writes D (map (\<lambda>i. (lh_block s ! i, g i)) [0..<nat (lh_n s)]) b = blk s b"
proof -
  note D = log_okD [OF assms(1)]
  have lg: "logged s = map ((!) (lh_block s)) [0..<nat (lh_n s)]" using D(6,16) by (simp add: logged_def take_map_nth)
  from assms(3) obtain i where i: "i < nat (lh_n s)" "b = lh_block s ! i" unfolding lg by auto
  have "apply_writes D (map (\<lambda>i. (lh_block s ! i, g i)) [0..<nat (lh_n s)]) (lh_block s ! i) = g i"
    by (rule apply_writes_map) (use D(13) [unfolded lg] i in simp_all)
  with i assms(2) show ?thesis by simp
qed


text \<open>The disk at the commit point, and the disk at the end of the commit.\<close>

definition commit_head :: "'x log_st_scheme \<Rightarrow> byte list" where
  "commit_head s = hdr_put (lh_n s) (lh_block s) (blk s (log_start s))"

definition commit_point :: "'x log_st_scheme \<Rightarrow> nat \<Rightarrow> byte list" where
  "commit_point s = (apply_writes (disk s) (log_copies s))(log_start s := commit_head s)"

lemma commit_head_ok:
  assumes "log_ok G s"
  shows "length (commit_head s) = BSIZE G" "hdr_n (commit_head s) = lh_n s"
    "\<And>i. i < nat (lh_n s) \<Longrightarrow> hdr_block (commit_head s) i = lh_block s ! i"
    "length (put32 0 0 (commit_head s)) = BSIZE G" "hdr_n (put32 0 0 (commit_head s)) = 0"
proof -
  note D = log_okD [OF assms]
  have fit: "4 + 4 * nat (lh_n s) \<le> length (blk s (log_start s))" "lh_n s < 2 ^ 31"
    using D(3,4,9) by (auto simp: sized_def fsh_ok_def param_defs)
  note H = hdr_put_ok [OF D(7) fit]
  show l: "length (commit_head s) = BSIZE G" using H(1) D(3) by (simp add: commit_head_def sized_def)
  show "hdr_n (commit_head s) = lh_n s" by (simp add: commit_head_def H(2))
  show "\<And>i. i < nat (lh_n s) \<Longrightarrow> hdr_block (commit_head s) i = lh_block s ! i"
    using H(3) D(17) by (simp add: commit_head_def)
  show "length (put32 0 0 (commit_head s)) = BSIZE G" "hdr_n (put32 0 0 (commit_head s)) = 0"
    using l D(4) by (simp_all add: fsh_ok_def hdr_n_def)
qed

lemma log_copies_outside:
  assumes "log_ok G s" "b \<notin> log_area s \<or> b = log_start s"
  shows "apply_writes E (take j (log_copies s)) b = E b"
proof (rule apply_writes_other)
  have "fst ` set (take j (log_copies s)) \<subseteq> fst ` set (log_copies s)" by (intro image_mono set_take_subset)
  with log_ok_area(5) [OF assms(1)] fst_log_copies [of s] assms(2)
  show "b \<notin> fst ` set (take j (log_copies s))" by force
qed

lemma commit_point_committed:
  assumes ok: "log_ok G s"
  shows "is_committed s (commit_point s)"
  unfolding is_committed_def
proof (intro conjI allI impI)
  note H = commit_head_ok [OF ok] and A = log_ok_area [OF ok]
  show "hdr_n (commit_point s (log_start s)) = lh_n s" by (simp add: commit_point_def H(2))
  show "hdr_block (commit_point s (log_start s)) i = lh_block s ! i" if "i < nat (lh_n s)" for i
    using H(3) [OF that] by (simp add: commit_point_def)
  show "commit_point s (log_start s + i + 1) = blk s (lh_block s ! i)" if "i < nat (lh_n s)" for i
    using log_copies_val [OF that] by (simp add: commit_point_def)
  show "commit_point s b = disk s b" if "b \<notin> log_area s \<union> set (logged s)" for b
    using that A(1) log_copies_outside [OF ok, of b "disk s" "length (log_copies s)"] by (auto simp: commit_point_def)
qed

lemma installed_new:
  assumes ok: "log_ok G s" and com: "is_committed s D" and d: "hdr_n d = 0"
    and g: "\<And>i. i < nat (lh_n s) \<Longrightarrow> g i = blk s (lh_block s ! i)"
  shows "is_new s ((apply_writes D (map (\<lambda>i. (lh_block s ! i, g i)) [0..<nat (lh_n s)]))(log_start s := d))"
    (is "is_new s ((apply_writes D ?B)(_ := d))")
  unfolding is_new_def
proof (intro conjI allI impI)
  note A = log_ok_area [OF ok]
  fix b assume b: "b \<notin> log_area s"
  then have "b \<noteq> log_start s" using A(1) by blast
  moreover have "apply_writes D ?B b = blk s b"
  proof (cases "b \<in> set (logged s)")
    case True
    then show ?thesis using g by (intro home_writes_val [OF ok])
  next
    case False
    then have "apply_writes D ?B b = D b" using logged_nth [OF ok] by (intro apply_writes_other) auto
    with False b com A(4) show ?thesis by (simp add: is_committed_def)
  qed
  ultimately show "((apply_writes D ?B)(log_start s := d)) b = blk s b" by simp
qed (simp add: d)

lemma commit_prefix:
  assumes ok: "log_ok G s" and n: "0 < lh_n s" and h0: "hdr_n (disk s (log_start s)) = 0" and sz: "block_sized G (disk s)"
  shows "crash_inv G s (apply_writes (disk s) (take k (commit_writes s)))"
proof -
  note H = commit_head_ok [OF ok] and A = log_ok_area [OF ok]
  let ?L = "log_start s" and ?A = "log_copies s" and ?B = "home_copies s"
  have W: "commit_writes s = ?A @ [(?L, commit_head s)] @ ?B @ [(?L, put32 0 0 (commit_head s))]"
    by (simp add: commit_writes_def Let_def commit_head_def)
  have "\<forall>w \<in> set (commit_writes s). length (snd w) = BSIZE G"
    using sized_writes [OF log_okD(3) [OF ok]] H(1,4) by (auto simp: W)
  then have bs: "block_sized G (apply_writes (disk s) (take k (commit_writes s)))"
    by (intro block_sized_writes [OF sz]) (auto dest: in_set_takeD)
  have fB: "fst ` set (take j ?B) \<subseteq> set (logged s)" for j
    using fst_home_copies [OF ok] set_take_subset [of j ?B] by (metis image_mono)
  have "k \<le> length ?A \<or> (\<exists>j. k = Suc (length ?A + j))" by presburger
  then consider "k \<le> length ?A" | j where "k = length ?A + Suc j" "j \<le> length ?B" | "k > length ?A + 1 + length ?B"
    by fastforce
  then have "is_old s (apply_writes (disk s) (take k (commit_writes s))) \<or>
      is_committed s (apply_writes (disk s) (take k (commit_writes s))) \<or>
      is_new s (apply_writes (disk s) (take k (commit_writes s)))"
  proof cases
    case 1
    then have "take k (commit_writes s) = take k ?A" by (simp add: W)
    then have "is_old s (apply_writes (disk s) (take k (commit_writes s)))"
      using log_copies_outside [OF ok] h0 by (simp add: is_old_def)
    then show ?thesis by simp
  next
    case (2 j)
    then have "take k (commit_writes s) = ?A @ [(?L, commit_head s)] @ take j ?B" by (simp add: W)
    then show ?thesis using committed_keep [OF ok commit_point_committed [OF ok] fB] by (simp add: commit_point_def)
  next
    case 3
    then have "take k (commit_writes s) = commit_writes s" by (simp add: W)
    then show ?thesis
      using installed_new [OF ok commit_point_committed [OF ok] H(5), of "\<lambda>i. blk s (lh_block s ! i)"]
      by (simp add: W commit_point_def home_copies_def)
  qed
  with bs show ?thesis by (simp add: crash_inv_def)
qed


lemma crash_good_log:
  assumes "log_ok G s" "crash_inv G s D"
  shows "good_log G (log_start s) (disksize s) D"
proof -
  note L = log_okD [OF assms(1)]
  from assms(2) have "block_sized G D" "hdr_n (D (log_start s)) = 0 \<or> is_committed s D"
    by (auto simp: crash_inv_def is_old_def is_new_def)
  then show ?thesis
    using L(7,10,11,16,17) by (auto simp: good_log_def block_sized_def is_committed_def)
qed

lemma recover_clean:
  assumes "block_sized G D" "fsh_ok G" "hdr_n (D (log_start s)) = 0" "log_start s \<in> log_area s"
  shows "hdr_n (apply_writes D (take k (recover_writes (log_start s) D)) (log_start s)) = 0"
    "b \<notin> log_area s \<Longrightarrow> apply_writes D (take k (recover_writes (log_start s) D)) b = D b"
  using assms hdr_n_cleared [OF assms(1,2)] by (cases k; auto simp: recover_writes_def)+

lemma recover_prefix:
  assumes ok: "log_ok G s" and inv: "crash_inv G s D"
  shows "crash_inv G s (apply_writes D (take k (recover_writes (log_start s) D))) \<and>
    (length (recover_writes (log_start s) D) \<le> k \<longrightarrow>
       is_old s (apply_writes D (take k (recover_writes (log_start s) D))) \<or>
       is_new s (apply_writes D (take k (recover_writes (log_start s) D))))"
    (is "crash_inv G s ?E \<and> _")
proof -
  note L = log_okD [OF ok] and A = log_ok_area [OF ok]
  let ?R = "recover_writes (log_start s) D" and ?B = "map (\<lambda>i. (hdr_block (D (log_start s)) i, D (log_start s + i + 1))) [0..<nat (hdr_n (D (log_start s)))]"
  have bs: "block_sized G D" using inv by (simp add: crash_inv_def)
  then have "\<forall>w \<in> set ?R. length (snd w) = BSIZE G"
    using L(4) by (auto simp: recover_writes_def block_sized_def fsh_ok_def)
  then have bsE: "block_sized G ?E" by (intro block_sized_writes [OF bs]) (auto dest: in_set_takeD)
  have "(is_old s ?E \<or> is_committed s ?E \<or> is_new s ?E) \<and> (length ?R \<le> k \<longrightarrow> is_old s ?E \<or> is_new s ?E)"
  proof (cases "is_committed s D")
    case False
    have "is_old s D \<Longrightarrow> is_old s ?E" "is_new s D \<Longrightarrow> is_new s ?E"
      using recover_clean [OF bs L(4) _ A(1)] by (simp_all add: is_old_def is_new_def)
    with inv False show ?thesis by (auto simp: crash_inv_def)
  next
    case True
    then have n: "hdr_n (D (log_start s)) = lh_n s" "\<And>i. i < nat (lh_n s) \<Longrightarrow> hdr_block (D (log_start s)) i = lh_block s ! i"
      "\<And>i. i < nat (lh_n s) \<Longrightarrow> D (log_start s + i + 1) = blk s (lh_block s ! i)"
      by (auto simp: is_committed_def)
    have B: "?B = map (\<lambda>i. (lh_block s ! i, D (log_start s + i + 1))) [0..<nat (lh_n s)]"
      using n by (intro map_cong) auto
    have R: "?R = ?B @ [(log_start s, put32 0 0 (D (log_start s)))]" by (simp add: recover_writes_def)
    show ?thesis
    proof (cases "k \<le> length ?B")
      case True
      then have "?E = apply_writes D (take k ?B)" by (simp add: R)
      moreover have "fst ` set (take k ?B) \<subseteq> set (logged s)"
        unfolding B using logged_nth [OF ok] by (auto dest!: in_set_takeD)
      ultimately have "is_committed s ?E" using committed_keep [OF ok \<open>is_committed s D\<close>] by simp
      with True show ?thesis by (simp add: R)
    next
      case False
      then have t: "take k ?R = ?R" by (simp add: R)
      have "?E = (apply_writes D (map (\<lambda>i. (lh_block s ! i, D (log_start s + i + 1))) [0..<nat (lh_n s)]))
          (log_start s := put32 0 0 (D (log_start s)))"
        unfolding t unfolding R B by (simp del: fun_upd_apply)
      then have "is_new s ?E"
        using installed_new [OF ok \<open>is_committed s D\<close> hdr_n_cleared [OF bs L(4)] n(3)] by (simp only:)
      then show ?thesis by blast
    qed
  qed
  then show ?thesis using bsE by (simp add: crash_inv_def)
qed

text \<open>
  The disks a power failure can leave: the disk after some of the writes of the commit,
  or after some of the writes of a recovery from such a disk.
\<close>

inductive crash_disk :: "fsh \<Rightarrow> 'x log_st_scheme \<Rightarrow> (nat \<Rightarrow> byte list) \<Rightarrow> bool" for G s where
  in_commit: "commit G s = Done () t \<Longrightarrow>
     crash_disk G s (apply_writes (disk s) (take k (drop (length (dhist s)) (dhist t))))"
| in_recovery: "crash_disk G s D \<Longrightarrow> booted G s D r \<Longrightarrow> recover_from_log G r = Done () t \<Longrightarrow>
     crash_disk G s (apply_writes D (take k (drop (length (dhist r)) (dhist t))))"

lemma crash_disk_inv:
  assumes ok: "log_ok G s" and n: "0 < lh_n s" and h0: "hdr_n (disk s (log_start s)) = 0" and sz: "block_sized G (disk s)"
    and "crash_disk G s D"
  shows "crash_inv G s D"
  using assms(5)
proof (induction rule: crash_disk.induct)
  case (in_commit t k)
  have "wp (commit G) (\<lambda>_ t. dhist t = dhist s @ commit_writes s) s"
    by (rule commit_wp [OF ok n]) (simp add: wrote_def)
  from DoneD [OF this in_commit(1)] commit_prefix [OF ok n h0 sz] show ?case by simp
next
  case (in_recovery D r t k)
  have "wp (recover_from_log G) (\<lambda>_ t. dhist t = dhist r @ recover_writes (log_start s) D) r"
    by (rule recover_wp [OF in_recovery(2) crash_good_log [OF ok in_recovery.IH]]) (simp add: wrote_def)
  from DoneD [OF this in_recovery(3)] recover_prefix [OF ok in_recovery.IH] show ?case by simp
qed



section \<open>end_op\<close>

lemma log_ok_upd [simp]:
  "log_ok G (outstanding_update f s) = log_ok G s" "log_ok G (committing_update g s) = log_ok G s"
  "commit_writes (outstanding_update f s) = commit_writes s" "commit_writes (committing_update g s) = commit_writes s"
  by (simp_all add: log_ok_def logged_def commit_writes_def log_copies_def home_copies_def)

lemma log_ok_km: "log_ok G s \<Longrightarrow> mach_inv {} m \<Longrightarrow> curproc m = curproc (km s) \<Longrightarrow> log_ok G (s\<lparr>km := m\<rparr>)"
  by (simp add: log_ok_def calm_def sized_def logged_def)

lemma wrote_empty: "log_ok G s \<Longrightarrow> wrote [] s s"
  by (simp add: wrote_def log_ok_def)

lemma commit_any:
  assumes "log_ok G s"
    and Q: "\<And>s'. wrote (if 0 < lh_n s then commit_writes s else []) s s' \<Longrightarrow> bio_st.more s' = bio_st.more (s\<lparr>lh_n := 0\<rparr>) \<Longrightarrow> Q () s'"
  shows "wp (commit G) Q s"
proof (cases "0 < lh_n s")
  case True
  with Q show ?thesis by (intro commit_wp [OF assms(1)]) auto
next
  case False
  then have "lh_n s = 0" using log_okD(7) [OF assms(1)] by simp
  then have "s\<lparr>lh_n := 0\<rparr> = s" by simp
  with False Q [OF _ refl] wrote_empty [OF assms(1)] show ?thesis
    unfolding commit_def wp_bindK wp_gets wp_whenK by (metis Q)
qed

lemma end_op_last:
  assumes ok: "log_ok G s" and o: "outstanding s = 1" "\<not> committing s"
    and Q: "\<And>s'. wrote (if 0 < lh_n s then commit_writes s else []) s s' \<Longrightarrow> lh_n s' = 0 \<Longrightarrow> outstanding s' = 0 \<Longrightarrow>
      \<not> committing s' \<Longrightarrow> lh_block s' = lh_block s \<Longrightarrow> log_start s' = log_start s \<Longrightarrow> log_size s' = log_size s \<Longrightarrow>
      log_dev s' = log_dev s \<Longrightarrow> log_st.more s' = log_st.more s \<Longrightarrow> Q () s'"
  shows "wp (end_op G) Q s"
proof -
  have m: "mach_inv {} (km s)" using ok by (simp add: log_ok_def calm_def)
  let ?t = "s\<lparr>outstanding := 0, committing := True\<rparr>"
  let ?fin = "seqK (onm (acquire LkLog)) (seqK (modify (\<lambda>s. s\<lparr>committing := False\<rparr>)) (
      seqK (wakeup (Some ChLog)) (onm (release LkLog))))"
  have "wp (commit G) (\<lambda>_. wp ?fin Q) (?t\<lparr>km := m'\<rparr>)"
    if m': "mach_inv {} m'" "curproc m' = curproc (km s)" "ident m' = ident (km s)" for m'
  proof (rule commit_any)
    show "log_ok G (?t\<lparr>km := m'\<rparr>)" by (rule log_ok_km) (use ok m' in simp_all)
    fix s1 assume w': "wrote (if 0 < lh_n (?t\<lparr>km := m'\<rparr>) then commit_writes (?t\<lparr>km := m'\<rparr>) else []) (?t\<lparr>km := m'\<rparr>) s1"
      and more: "bio_st.more s1 = bio_st.more ((?t\<lparr>km := m'\<rparr>)\<lparr>lh_n := 0\<rparr>)"
    have "commit_writes (?t\<lparr>km := m'\<rparr>) = commit_writes s"
      by (simp add: commit_writes_def log_copies_def home_copies_def)
    with w' m'(3) have w: "wrote (if 0 < lh_n s then commit_writes s else []) s s1"
      by (simp add: wrote_def bframe_def)
    note L = log_more [OF more, simplified]
    have c1: "mach_inv {} (km s1)" using w by (simp add: wrote_def calm_def)
    have "Q () (s1\<lparr>procs := map (wake (Some ChLog)) (procs s1), committing := False, km := m2\<rparr>)"
      if "mach_inv {} m2" "curproc m2 = curproc (km s1)" "ident m2 = ident (km s1)" for m2
      by (rule Q) (use w L that in \<open>auto simp: wrote_def calm_def bframe_def intro: woken_trans\<close>)
    then show "wp ?fin Q s1"
      unfolding wp_bindK wp_modify
      by (intro acquire_onm [OF c1]) (auto intro!: wakeup_wp [of "{LkLog}"] release_onm [of "{LkLog}"])
  qed
  note fin = this
  show ?thesis
    using o unfolding end_op_def wp_bindK wp_gets wp_modify
    by (intro acquire_onm [OF m]) (auto intro!: release_onm [of "{LkLog}"] fin)
qed


lemma end_op_more:
  assumes m: "mach_inv {} (km s)" and o: "1 < outstanding s" "\<not> committing s"
    and Q: "\<And>m'. mach_inv {} m' \<Longrightarrow> curproc m' = curproc (km s) \<Longrightarrow> ident m' = ident (km s) \<Longrightarrow>
      Q () (s\<lparr>procs := map (wake (Some ChLog)) (procs s), outstanding := outstanding s - 1, km := m'\<rparr>)"
  shows "wp (end_op G) Q s"
  using o unfolding end_op_def wp_bindK wp_gets wp_modify
  by (intro acquire_onm [OF m])
     (auto intro!: wakeup_wp [of "{LkLog}"] release_onm [of "{LkLog}"] Q)

text \<open>After the commit the log is empty and the disk is current.\<close>

lemma wrote_log_ok:
  assumes ok: "log_ok G s" and w: "wrote (commit_writes s) s s'" and "lh_n s' = 0" "lh_block s' = lh_block s"
    "log_start s' = log_start s" "log_size s' = log_size s" "log_dev s' = log_dev s"
  shows "log_ok G s'" "dirties s' = {}" "blk s' = disk s'"
proof -
  note D = log_okD [OF ok] and W = wroteD [OF w] and H = commit_head_ok [OF ok]
  have "fst ` set (commit_writes s) \<supseteq> set (logged s)"
    using fst_home_copies [OF ok] by (auto simp: commit_writes_def Let_def)
  then show d: "dirties s' = {}" using W(5) D(14) by auto
  show "blk s' = disk s'" using blk_clean [OF W(1)] d by (auto simp: fun_eq_iff)
  have "\<forall>w \<in> set (commit_writes s). length (snd w) = BSIZE G"
    using sized_writes [OF D(3)] H(1,4) by (auto simp: commit_writes_def Let_def commit_head_def)
  from sized_wrote [OF D(3) w this] show "log_ok G s'"
    using assms(1,3-7) d W by (simp add: log_ok_def logged_def param_defs)
qed

lemma commit_disk:
  assumes ok: "log_ok G s" and n: "0 < lh_n s"
  shows "is_new s (apply_writes (disk s) (commit_writes s))"
proof -
  have "commit_writes s = log_copies s @ [(log_start s, commit_head s)] @ home_copies s @ [(log_start s, put32 0 0 (commit_head s))]"
    by (simp add: commit_writes_def Let_def commit_head_def)
  then show ?thesis
    using installed_new [OF ok commit_point_committed [OF ok] commit_head_ok(5) [OF ok], of "\<lambda>i. blk s (lh_block s ! i)"]
    by (simp add: commit_point_def home_copies_def)
qed

section \<open>Properties\<close>

text \<open>
  C4.  Crash safety.  Let the log on disk be empty and let a commit of the logged blocks run.  Whatever
  disk a power failure leaves (after any prefix of the commit's disk writes, and after any
  prefix of the writes of any number of interrupted recoveries), a completed recovery makes
  every block outside the log area as it was before the commit, or every one as the
  transaction left it; the log is then empty.
\<close>

theorem commit_crash_safe:
  assumes "log_ok G s" "0 < lh_n s" "hdr_n (disk s (log_start s)) = 0" "block_sized G (disk s)"
    and "crash_disk G s D" "booted G s D r"
  shows "wp (recover_from_log G) (\<lambda>_ t. hdr_n (disk t (log_start s)) = 0 \<and>
     ((\<forall>b. b \<notin> log_area s \<longrightarrow> disk t b = disk s b) \<or> (\<forall>b. b \<notin> log_area s \<longrightarrow> disk t b = blk s b))) r"
proof -
  note inv = crash_disk_inv [OF assms(1-5)]
  show ?thesis
  proof (rule recover_wp [OF assms(6) crash_good_log [OF assms(1) inv]])
    fix t assume "wrote (recover_writes (log_start s) D) r t"
    moreover have "disk r = D" using assms(6) by (simp add: booted_def)
    ultimately have "disk t = apply_writes D (recover_writes (log_start s) D)" by (simp add: wrote_def)
    with recover_prefix [OF assms(1) inv, of "length (recover_writes (log_start s) D)"]
    show "hdr_n (disk t (log_start s)) = 0 \<and>
       ((\<forall>b. b \<notin> log_area s \<longrightarrow> disk t b = disk s b) \<or> (\<forall>b. b \<notin> log_area s \<longrightarrow> disk t b = blk s b))"
      by (auto simp: is_old_def is_new_def)
  qed
qed

text \<open>
  C5.  Durability.  The \<open>end_op\<close> of the last outstanding operation returns with every block
  of the transaction at its home location on disk, the log empty, no buffer pinned, and
  the invariant of the log restored; an \<open>end_op\<close> that is not the last writes nothing.
\<close>

theorem end_op_durable:
  assumes "log_ok G s" "\<not> committing s" "1 \<le> outstanding s" "0 < lh_n s"
  shows "wp (end_op G) (\<lambda>_ t. if outstanding s = 1
     then log_ok G t \<and> lh_n t = 0 \<and> dirties t = {} \<and> \<not> committing t \<and> outstanding t = 0 \<and>
          hdr_n (disk t (log_start s)) = 0 \<and> (\<forall>b. b \<notin> log_area s \<longrightarrow> disk t b = blk s b)
     else dhist t = dhist s \<and> disk t = disk s \<and> blk t = blk s \<and> lh_n t = lh_n s \<and> outstanding t = outstanding s - 1) s"
proof (cases "outstanding s = 1")
  case True
  show ?thesis
  proof (rule end_op_last [OF assms(1) True assms(2)])
    fix t assume w: "wrote (if 0 < lh_n s then commit_writes s else []) s t" and t: "lh_n t = 0" "outstanding t = 0" "\<not> committing t"
      "lh_block t = lh_block s" "log_start t = log_start s" "log_size t = log_size s" "log_dev t = log_dev s"
    from w assms(4) have w': "wrote (commit_writes s) s t" by simp
    note L = wrote_log_ok [OF assms(1) w' t(1,4-7)]
    have "disk t = apply_writes (disk s) (commit_writes s)" using w' by (simp add: wrote_def)
    with commit_disk [OF assms(1,4)] L t True
    show "if outstanding s = 1 then log_ok G t \<and> lh_n t = 0 \<and> dirties t = {} \<and> \<not> committing t \<and> outstanding t = 0 \<and>
          hdr_n (disk t (log_start s)) = 0 \<and> (\<forall>b. b \<notin> log_area s \<longrightarrow> disk t b = blk s b)
     else dhist t = dhist s \<and> disk t = disk s \<and> blk t = blk s \<and> lh_n t = lh_n s \<and> outstanding t = outstanding s - 1"
      by (simp add: is_new_def)
  qed
next
  case False
  with assms show ?thesis
    by (intro end_op_more) (auto simp: log_ok_def calm_def)
qed


text \<open>A concrete kernel with the log at blocks 2 to 31 and a blank disk; one logged block.\<close>

definition log0 :: "(nat \<Rightarrow> byte list) \<Rightarrow> 'x \<Rightarrow> 'x log_st_scheme" where
  "log0 D x = \<lparr>km = demo_mach True, ram = (\<lambda>_. replicate 4096 0), freelist = 0, use_lock = True, kend = 0x80200000, kdata = 0x80108000,
     procs = [demo_proc RUNNING 1 None, demo_proc RUNNABLE 2 None],
     initproc = Some 0, nextpid = 3, kpgdir = 0x80400000, cr3 = 0, esp0 = 0,
     slocks = (\<lambda>_. \<lparr>sl_locked = 0, sl_name = [], sl_pid = 0\<rparr>),
     bufs = replicate (Suc NBUF) (bss_buf 512), disk = D, dhist = [], disksize = 1000,
     lh_n = 0, lh_block = replicate LOGSIZE 0, log_start = 2, log_size = 30, outstanding = 1, committing = False, log_dev = 1, \<dots> = x\<rparr>"

lemma binit_frame:
  fixes s :: "'x log_st_scheme"
  shows "wp binit (\<lambda>_ s'. bio_st.more s' = bio_st.more s \<and> procs s' = procs s \<and> (\<forall>j. slocks s' (SlInode j) = slocks s (SlInode j))) s"
proof -
  have *: "wp (binit_loop n b) (\<lambda>_ s'. bio_st.more s' = bio_st.more s \<and> procs s' = procs s \<and>
      (\<forall>j. slocks s' (SlInode j) = slocks s (SlInode j))) s" for n b and s :: "'x log_st_scheme"
  proof (induction n arbitrary: b s)
    case (Suc n)
    show ?case by (simp add: initsleeplock_wp upd_slock_def) (rule wp_mono [OF Suc.IH], simp)
  qed simp
  show ?thesis by (simp add: binit_def initlock_def wp_onm upd_buf_def) (rule wp_mono [OF *], simp)
qed

lemma demo_log_any:
  assumes "\<forall>b. length (D b) = 512"
  shows "\<exists>s :: 'x log_st_scheme. tx_ok xv6_fsh {} s \<and> disk s = D \<and> lh_n s = 0 \<and> outstanding s = 1 \<and> \<not> committing s \<and>
     log_start s = 2 \<and> log_size s = 30 \<and> disksize s = 1000 \<and> log_st.more s = x \<and> procs s = procs (log0 D x) \<and>
     (\<forall>j. slocks s (SlInode j) = \<lparr>sl_locked = 0, sl_name = [], sl_pid = 0\<rparr>) \<and> km s = demo_mach True"
proof -
  have b: "bufs (log0 D x) = replicate (Suc NBUF) (bss_buf 512)" by (simp add: log0_def)
  from binit_wp [OF b] binit_frame [of "log0 D x"] obtain s where s: "bc_inv {} s" "disk s = disk (log0 D x)" "blk s = disk (log0 D x)"
    "disksize s = disksize (log0 D x)" "\<forall>i < NBUF. b_flags (bufs s ! i) = 0" "bio_st.more s = bio_st.more (log0 D x)"
    "procs s = procs (log0 D x)" "\<forall>j. slocks s (SlInode j) = slocks (log0 D x) (SlInode j)"
    by (auto simp: wp_Done)
  note L = log_more [OF s(6)]
  have m: "log_st.more s = x" using s(6) by (cases s) (simp add: log0_def)
  have d: "dirties s = {}" using s(5) by (auto simp: dirties_def)
  let ?s = "s\<lparr>km := demo_mach True\<rparr>"
  have "tx_ok xv6_fsh {} ?s"
    using assms s(1-4) d L xv6_fsh_ok by (simp add: tx_ok_def calm_def sized_def logged_def log0_def xv6_fsh_def param_defs)
  then show ?thesis using s L m by (intro exI [of _ ?s]) (simp add: log0_def)
qed

lemma demo_log_ex:
  assumes "\<forall>b. length (D b) = 512"
  shows "\<exists>s :: log_st. tx_ok xv6_fsh {} s \<and> disk s = D \<and> lh_n s = 0 \<and> outstanding s = 1 \<and> \<not> committing s \<and>
     log_start s = 2 \<and> log_size s = 30 \<and> disksize s = 1000"
  using demo_log_any [OF assms, where x = "()"] by auto

text \<open>Block 40 is read, changed and logged.\<close>

lemma demo_logged_ex:
  "\<exists>s :: log_st. log_ok xv6_fsh s \<and> lh_n s = 1 \<and> disk s = (\<lambda>_. replicate 512 0) \<and> blk s = (\<lambda>_. replicate 512 0)(40 := replicate 512 1) \<and>
     outstanding s = 1 \<and> \<not> committing s \<and> log_start s = 2 \<and> log_size s = 30 \<and> disksize s = 1000"
proof -
  obtain s :: log_st where s: "tx_ok xv6_fsh {} s" "disk s = (\<lambda>_. replicate 512 0)" "lh_n s = 0" "outstanding s = 1" "\<not> committing s"
     "log_start s = 2" "log_size s = 30" "disksize s = 1000" using demo_log_ex [of "\<lambda>_. replicate 512 0"] by auto
  have t: "calm s" "bc_inv {} s" "dirties s = {}" using s(1,3) by (auto simp: tx_ok_def logged_def)
  have z: "blk s = (\<lambda>_. replicate 512 0)" using blk_clean [OF t(2)] t(3) s(2) by (simp add: fun_eq_iff)
  let ?f = "\<lambda>k. k\<lparr>b_data := (\<lambda>_. replicate 512 1) k\<rparr>"
  let ?R = "\<lambda>s. log_ok xv6_fsh s \<and> lh_n s = 1 \<and> disk s = (\<lambda>_. replicate 512 0) \<and> blk s = (\<lambda>_. replicate 512 0)(40 := replicate 512 1) \<and>
     outstanding s = 1 \<and> \<not> committing s \<and> log_start s = 2 \<and> log_size s = 30 \<and> disksize s = 1000"
  have "wp (bread 1 40) (\<lambda>i. wp (modify (upd_buf i ?f)) (\<lambda>_. wp (log_write i) (\<lambda>_. wp (brelse i) (\<lambda>_. ?R)))) s"
  proof (rule bread_wp [OF t(1,2)])
    show "slot s 40 \<noteq> None \<or> (\<exists>i<NBUF. i \<notin> {} \<and> \<not> dirty (bufs s ! i))" using buffer_left [OF t(2)] t(3) by auto
    fix i s1 assume p1: "bread_post {} 40 s i s1"
    note h1 = bread_held [OF p1]
    have more: "bio_st.more s1 = bio_st.more s" using p1 by (simp add: bread_post_def)
    note L1 = log_more [OF more]
    define s2 where "s2 = upd_buf i ?f s1"
    have p2: "upd_post {i} i (replicate 512 1) s1 s2" using upd_data [OF h1(2,1), of i "\<lambda>_. replicate 512 1"] by (simp add: s2_def)
    then have more2: "bio_st.more s2 = bio_st.more s1" by (simp add: upd_post_def)
    note L2 = log_more [OF more2]
    have tx: "tx_ok xv6_fsh {i} s2"
      using s p1 p2 L1 L2 z unfolding tx_ok_def bread_post_def upd_post_def
      by (simp add: sized_def logged_def log_area_def bframe_def xv6_fsh_def)
    have bn: "b_blockno (bufs s2 ! i) = 40" "blk s2 = (blk s)(40 := replicate 512 1)" "disk s2 = disk s"
      "b_data (bufs s2 ! i) = replicate 512 1"
      using p1 p2 by (simp_all add: bread_post_def upd_post_def)
    show "wp (modify (upd_buf i ?f)) (\<lambda>_. wp (log_write i) (\<lambda>_. wp (brelse i) (\<lambda>_. ?R))) s1"
      unfolding wp_modify s2_def [symmetric]
    proof (rule log_write_tx [OF tx])
      fix s3 assume p3: "logw_post xv6_fsh {i} i s2 s3"
      then have t3: "tx_ok xv6_fsh {i} s3" "dirty (bufs s3 ! i)" "dirties s3 = {40}" "blk s3 = blk s2" "disk s3 = disk s2"
        using bn s(3) L1 L2 tx by (auto simp: logw_post_def tx_ok_def logged_def)
      have n3: "lh_n s3 = 1"
        using tx_card [OF t3(1)] t3(3) t3(1) by (simp add: tx_ok_def)
      show "wp (brelse i) (\<lambda>_. ?R) s3"
      proof (rule brelse_wp)
        fix s4 assume p4: "brelse_post {i} i s3 s4"
        then have more4: "bio_st.more s4 = bio_st.more s3" by (simp add: brelse_post_def)
        note L4 = log_more [OF more4]
        have "log_ok xv6_fsh s4"
          using t3(1) p4 L4 unfolding tx_log_ok [symmetric] tx_ok_def brelse_post_def
          by (simp add: sized_def logged_def log_area_def bframe_def)
        then show "?R s4"
          using p1 p2 p3 p4 L1 L2 L4 n3 t3 bn z s by (simp add: brelse_post_def logw_post_def upd_post_def bread_post_def bframe_def)
      qed (use t3 in \<open>auto simp: tx_ok_def\<close>)
    qed (use bn s L1 L2 in \<open>simp_all add: log_area_def param_defs\<close>)
  qed (use s in simp_all)
  then show ?thesis unfolding wp_Done by blast
qed


theorem commit_crash_safe_witness:
  "\<exists>(s :: log_st) D (r :: log_st). crash_disk xv6_fsh s D \<and> D \<noteq> disk s \<and> D 40 \<noteq> blk s 40 \<and>
     wp (recover_from_log xv6_fsh) (\<lambda>_ t. hdr_n (disk t (log_start s)) = 0 \<and>
     ((\<forall>b. b \<notin> log_area s \<longrightarrow> disk t b = disk s b) \<or> (\<forall>b. b \<notin> log_area s \<longrightarrow> disk t b = blk s b))) r"
proof -
  obtain s :: log_st where s: "log_ok xv6_fsh s" "lh_n s = 1" "disk s = (\<lambda>_. replicate 512 0)"
     "blk s = (\<lambda>_. replicate 512 0)(40 := replicate 512 1)" "log_start s = 2" "disksize s = 1000" using demo_logged_ex by blast
  have "wp (commit xv6_fsh) (\<lambda>_ t. dhist t = dhist s @ commit_writes s) s"
    by (rule commit_wp [OF s(1)]) (use s(2) in \<open>simp_all add: wrote_def\<close>)
  then obtain t where t: "commit xv6_fsh s = Done () t" "dhist t = dhist s @ commit_writes s" by (auto simp: wp_Done)
  define D where "D = apply_writes (disk s) (take 1 (commit_writes s))"
  have inv: "bc_inv {} s" using s(1) by (simp add: log_ok_def)
  have ne: "replicate 512 (0::byte) \<noteq> replicate 512 1" by (simp add: replicate_eq_replicate)
  have "set (logged s) = dirties s" using s(1) by (auto simp: log_ok_def)
  moreover have "logged s = [lh_block s ! 0]" using s(1,2) by (simp add: logged_def log_ok_def take_Suc_conv_app_nth param_defs)
  moreover have "40 \<in> dirties s" using blk_clean [OF inv, of 40] s(3,4) ne by auto
  ultimately have h: "lh_block s ! 0 = 40" by (metis list.set(1,2) singletonD)
  then have D: "D = (\<lambda>_. replicate 512 0)(3 := replicate 512 1)"
    using s(2-5) by (simp add: D_def commit_writes_def log_copies_def apply_writes_def Let_def numeral_3_eq_3)
  have len: "\<forall>b. length (D b) = 512" by (simp add: D)
  have c: "crash_disk xv6_fsh s D" using in_commit [OF t(1), of 1] t(2) by (simp add: D_def)
  obtain r :: log_st where r: "tx_ok xv6_fsh {} r" "disk r = D" "lh_n r = 0" "log_start r = 2" "disksize r = 1000"
    using demo_log_ex [OF len] by blast
  have b: "booted xv6_fsh s D r" using r s by (auto simp: booted_def tx_ok_def logged_def)
  have z: "hdr_n (disk s (log_start s)) = 0" "block_sized xv6_fsh (disk s)" using s by (simp_all add: hdr_n_def block_sized_def xv6_fsh_def get32_def un32_def)
  have "D \<noteq> disk s" "D 40 \<noteq> blk s 40" using ne s(3,4) unfolding D by (auto simp: fun_eq_iff)
  note ne = this
  show ?thesis
    by (rule exI [of _ s], rule exI [of _ D], rule exI [of _ r], intro conjI c commit_crash_safe [OF s(1) _ z c b])
       (use s(2) ne in simp_all)
qed

theorem end_op_durable_witness:
  "\<exists>s :: log_st. blk s 40 \<noteq> disk s 40 \<and> outstanding s = 1 \<and>
     wp (end_op xv6_fsh) (\<lambda>_ t. if outstanding s = 1
     then log_ok xv6_fsh t \<and> lh_n t = 0 \<and> dirties t = {} \<and> \<not> committing t \<and> outstanding t = 0 \<and>
          hdr_n (disk t (log_start s)) = 0 \<and> (\<forall>b. b \<notin> log_area s \<longrightarrow> disk t b = blk s b)
     else dhist t = dhist s \<and> disk t = disk s \<and> blk t = blk s \<and> lh_n t = lh_n s \<and> outstanding t = outstanding s - 1) s"
proof -
  obtain s :: log_st where s: "log_ok xv6_fsh s" "lh_n s = 1" "disk s = (\<lambda>_. replicate 512 0)" "outstanding s = 1" "\<not> committing s"
     "blk s = (\<lambda>_. replicate 512 0)(40 := replicate 512 1)" using demo_logged_ex by blast
  have ne: "replicate 512 (1::byte) \<noteq> replicate 512 0" by (simp add: replicate_eq_replicate)
  show ?thesis
    by (intro exI [of _ s] conjI end_op_durable) (use s ne in simp_all)
qed

text \<open>
  C6.  Absorption.  Inside a transaction with room in the log, \<open>log_write\<close> on a held buffer records
  its block once: a block already logged takes no new slot.  The block is pinned in the cache, the
  disk is not written and the invariant of the transaction is kept.
\<close>

theorem log_write_absorbs:
  assumes "tx_ok G H s" "i \<in> H" "b_blockno (bufs s ! i) \<notin> log_area s"
    and "lh_n s + 1 < int NBUF" "lh_n s + 1 < log_size s" "1 \<le> outstanding s"
  shows "wp (log_write i) (\<lambda>_ t. tx_ok G H t \<and> set (logged t) = insert (b_blockno (bufs s ! i)) (set (logged s)) \<and>
     lh_n t = (if b_blockno (bufs s ! i) \<in> set (logged s) then lh_n s else lh_n s + 1) \<and>
     dirty (bufs t ! i) \<and> blk t = blk s \<and> dhist t = dhist s) s"
proof (rule log_write_tx [OF assms])
  fix t assume p: "logw_post G H i s t"
  then have t: "tx_ok G H t" "dirties t = insert (b_blockno (bufs s ! i)) (dirties s)" by (auto simp: logw_post_def)
  have l: "set (logged t) = dirties t" "set (logged s) = dirties s" using assms(1) t(1) by (auto simp: tx_ok_def)
  have fin: "finite (dirties s)" unfolding l(2) [symmetric] by simp
  have "0 \<le> lh_n s" "0 \<le> lh_n t" using assms(1) t(1) by (auto simp: tx_ok_def)
  then have "lh_n t = (if b_blockno (bufs s ! i) \<in> set (logged s) then lh_n s else lh_n s + 1)"
    using tx_card [OF assms(1)] tx_card [OF t(1)] t(2) fin unfolding l(2) by (auto simp: card_insert_if insert_absorb)
  with p t l show "tx_ok G H t \<and> set (logged t) = insert (b_blockno (bufs s ! i)) (set (logged s)) \<and>
     lh_n t = (if b_blockno (bufs s ! i) \<in> set (logged s) then lh_n s else lh_n s + 1) \<and>
     dirty (bufs t ! i) \<and> blk t = blk s \<and> dhist t = dhist s" by (simp add: logw_post_def)
qed

theorem log_write_absorbs_witness:
  "\<exists>(s :: log_st) i. i < NBUF \<and> wp (log_write i) (\<lambda>_ t. tx_ok xv6_fsh {i} t \<and>
     set (logged t) = insert (b_blockno (bufs s ! i)) (set (logged s)) \<and>
     lh_n t = (if b_blockno (bufs s ! i) \<in> set (logged s) then lh_n s else lh_n s + 1) \<and>
     dirty (bufs t ! i) \<and> blk t = blk s \<and> dhist t = dhist s) s"
proof -
  obtain s :: log_st where s: "log_ok xv6_fsh s" "lh_n s = 1" "outstanding s = 1" "log_start s = 2" "log_size s = 30" "disksize s = 1000"
    "disk s = (\<lambda>_. replicate 512 0)" "blk s = (\<lambda>_. replicate 512 0)(40 := replicate 512 1)"
    using demo_logged_ex by blast
  then have t: "calm s" "bc_inv {} s" by (auto simp: log_ok_def)
  have "wp (bread 1 40) (\<lambda>i t. i < NBUF \<and> tx_ok xv6_fsh {i} t \<and> b_blockno (bufs t ! i) = 40 \<and> lh_n t = 1 \<and>
     outstanding t = 1 \<and> log_start t = 2 \<and> log_size t = 30) s"
  proof (rule bread_wp [OF t])
    have "40 \<in> dirties s" using blk_clean [OF t(2), of 40] s(7,8) by (auto simp: replicate_eq_replicate)
    then show "slot s 40 \<noteq> None \<or> (\<exists>i<NBUF. i \<notin> {} \<and> \<not> dirty (bufs s ! i))" using dirty_slot [OF t(2)] by auto
    fix i t' assume p: "bread_post {} 40 s i t'"
    then have more: "bio_st.more t' = bio_st.more s" by (simp add: bread_post_def)
    show "i < NBUF \<and> tx_ok xv6_fsh {i} t' \<and> b_blockno (bufs t' ! i) = 40 \<and> lh_n t' = 1 \<and> outstanding t' = 1 \<and>
       log_start t' = 2 \<and> log_size t' = 30"
      using s p log_more [OF more] unfolding tx_log_ok [symmetric] tx_ok_def bread_post_def
      by (simp add: sized_def logged_def log_area_def bframe_def)
  qed (use s in simp_all)
  then obtain i and t' :: log_st where "i < NBUF" "tx_ok xv6_fsh {i} t'" "b_blockno (bufs t' ! i) = 40" "lh_n t' = 1" "outstanding t' = 1"
    "log_start t' = 2" "log_size t' = 30" unfolding wp_Done by blast
  note r = this
  show ?thesis
    by (rule exI [of _ t'], rule exI [of _ i], intro conjI log_write_absorbs) (use r in \<open>simp_all add: log_area_def param_defs\<close>)
qed



text \<open>
  The reservation is one block too generous.  A log made by \<open>mkfs\<close> has \<open>log_size = LOGSIZE\<close> blocks, the
  first of which is the header.  With 20 blocks logged, \<open>begin_op\<close> admits one more operation of up to
  \<open>MAXOPBLOCKS\<close> blocks; the last of them panics.
\<close>

theorem reservation_overrun:
  assumes "mach_inv {} (km s)" "\<not> committing s" "lh_n s = 20" "outstanding s = 0" "log_size s = int LOGSIZE"
  shows "wp begin_op (\<lambda>_ t. outstanding t = 1 \<and>
     (\<forall>i. log_write i (t\<lparr>lh_n := lh_n t + int MAXOPBLOCKS - 1\<rparr>) = Panicked ''too big a transaction'')) s"
  by (rule begin_op_wp [OF assms(1)])
     (use assms in \<open>auto simp: has_room_def param_defs intro!: log_write_panics(1)\<close>)

end
