(* ===== verification/Fs.thy ===== *)
theory Fs
  imports Crash
begin

unbundle bit_operations_syntax

text \<open>
  The file system (\<open>fs.c\<close>): block allocator, inodes and the inode cache, file contents, directories
  and path names, over the log and the block cache.  An inode pointer is an index of \<open>icache.inode\<close>,
  a null pointer None.  \<open>readi\<close> returns the bytes it copies to \<open>dst\<close> with its count; \<open>writei\<close> takes the
  bytes at \<open>src\<close>.  Offsets and counts are natural numbers below \<open>2 ^ 32\<close> with the wrap-around of
  \<open>off + n\<close> written out.

  The device switch \<open>devsw\<close> holds C function pointers that end in the console driver; it is an
  argument \<open>dv\<close> of the routines that reach \<open>readi\<close> or \<open>writei\<close>: the device number gives the read and the
  write routine, if present.  The greeting \<open>iinit\<close> prints on the console is left out.
\<close>

section \<open>State\<close>

definition T_DIR :: int where [param_defs]: "T_DIR = 1"

definition T_FILE :: int where [param_defs]: "T_FILE = 2"

definition T_DEV :: int where [param_defs]: "T_DEV = 3"

record inode =
  i_dev :: nat
  i_inum :: nat
  i_ref :: int
  i_valid :: bool
  i_type :: int
  i_major :: int
  i_minor :: int
  i_nlink :: int
  i_size :: nat
  i_addrs :: "nat list"

record fs_st = log_st +
  sb :: superblock
  inodes :: "inode list"

record stat =
  st_type :: int
  st_dev :: nat
  st_ino :: nat
  st_nlink :: int
  st_size :: nat

type_synonym 's dev_read = "nat \<Rightarrow> nat \<Rightarrow> ('s, int \<times> byte list) kop"
type_synonym 's dev_write = "nat \<Rightarrow> byte list \<Rightarrow> ('s, int) kop"
type_synonym 's devsw = "nat \<Rightarrow> 's dev_read option \<times> 's dev_write option"

definition upd_inode :: "nat \<Rightarrow> (inode \<Rightarrow> inode) \<Rightarrow> 'x fs_st_scheme \<Rightarrow> 'x fs_st_scheme" where
  "upd_inode i f s = s\<lparr>inodes := (inodes s)[i := f (inodes s ! i)]\<rparr>"

definition geti :: "nat \<Rightarrow> (inode \<Rightarrow> 'a) \<Rightarrow> ('x fs_st_scheme, 'a) kop" where
  "geti i f = gets (\<lambda>s. f (inodes s ! i))"

definition bdata :: "nat \<Rightarrow> 'x bio_st_scheme \<Rightarrow> byte list" where
  "bdata b s = b_data (bufs s ! b)"

definition set_bdata :: "nat \<Rightarrow> (byte list \<Rightarrow> byte list) \<Rightarrow> ('x bio_st_scheme, unit) kop" where
  "set_bdata b f = modify (upd_buf b (\<lambda>k. k\<lparr>b_data := f (b_data k)\<rparr>))"

section \<open>Blocks\<close>

definition bzero :: "fsh \<Rightarrow> nat \<Rightarrow> nat \<Rightarrow> ('x fs_st_scheme, unit) kop" where
  "bzero G dev bno = bindK (bread dev bno) (\<lambda>bp.
     seqK (set_bdata bp (\<lambda>d. replicate (BSIZE G) 0 @ drop (BSIZE G) d)) (
     seqK (log_write bp)
     (brelse bp)))"

definition bit_mask :: "nat \<Rightarrow> byte" where
  "bit_mask bi = push_bit (bi mod 8) 1"

definition bit_free :: "byte list \<Rightarrow> nat \<Rightarrow> bool" where
  "bit_free d bi \<longleftrightarrow> d ! (bi div 8) AND bit_mask bi = 0"

definition mark_bit :: "nat \<Rightarrow> byte list \<Rightarrow> byte list" where
  "mark_bit bi d = d[bi div 8 := d ! (bi div 8) OR bit_mask bi]"

definition clear_bit :: "nat \<Rightarrow> byte list \<Rightarrow> byte list" where
  "clear_bit bi d = d[bi div 8 := d ! (bi div 8) AND NOT (bit_mask bi)]"

text \<open>The values of \<open>b\<close> in the outer loop, and the loop over them.\<close>

definition group_starts :: "fsh \<Rightarrow> nat \<Rightarrow> nat list" where
  "group_starts G sz = map (\<lambda>k. k * BPB G) [0..<(sz + BPB G - 1) div BPB G]"

fun balloc_from :: "fsh \<Rightarrow> nat \<Rightarrow> nat list \<Rightarrow> ('x fs_st_scheme, nat) kop" where
  "balloc_from G dev [] = panic ''balloc: out of blocks''"
| "balloc_from G dev (b # bs) =
     bindK (gets sb) (\<lambda>sbk.
     bindK (bread dev (BBLOCK G b sbk)) (\<lambda>bp.
     bindK (gets (bdata bp)) (\<lambda>d.
     case findix (bit_free d) 0 [0..<min (BPB G) (sb_size sbk - b)] of
       Some bi \<Rightarrow>
         seqK (set_bdata bp (mark_bit bi)) (
         seqK (log_write bp) (
         seqK (brelse bp) (
         seqK (bzero G dev (b + bi))
         (ret (b + bi)))))
     | None \<Rightarrow> seqK (brelse bp) (balloc_from G dev bs))))"

definition balloc :: "fsh \<Rightarrow> nat \<Rightarrow> ('x fs_st_scheme, nat) kop" where
  "balloc G dev = bindK (gets sb) (\<lambda>sbk. balloc_from G dev (group_starts G (sb_size sbk)))"

definition bfree :: "fsh \<Rightarrow> nat \<Rightarrow> nat \<Rightarrow> ('x fs_st_scheme, unit) kop" where
  "bfree G dev b =
     bindK (readsb G dev) (\<lambda>sbk.
     seqK (modify (\<lambda>s. s\<lparr>sb := sbk\<rparr>)) (
     bindK (bread dev (BBLOCK G b sbk)) (\<lambda>bp.
     bindK (gets (bdata bp)) (\<lambda>d.
     if bit_free d (b mod BPB G) then panic ''freeing free block''
     else seqK (set_bdata bp (clear_bit (b mod BPB G))) (
          seqK (log_write bp)
          (brelse bp))))))"

section \<open>Inodes\<close>

fun iinit_loop :: "nat \<Rightarrow> nat \<Rightarrow> ('x fs_st_scheme, unit) kop" where
  "iinit_loop 0 i = ret ()"
| "iinit_loop (Suc n) i = seqK (initsleeplock (SlInode i) ''inode'') (iinit_loop n (Suc i))"

definition iinit :: "fsh \<Rightarrow> nat \<Rightarrow> ('x fs_st_scheme, unit) kop" where
  "iinit G dev =
     seqK (onm (initlock LkIcache ''icache'')) (
     seqK (iinit_loop NINODE 0) (
     bindK (readsb G dev) (\<lambda>sbk. modify (\<lambda>s. s\<lparr>sb := sbk\<rparr>))))"

text \<open>
  The scan of \<open>iget\<close>: the first entry in use for this inode, and otherwise the first entry not in use.
\<close>

definition iget :: "nat \<Rightarrow> nat \<Rightarrow> ('x fs_st_scheme, nat) kop" where
  "iget dev inum =
     seqK (onm (acquire LkIcache)) (
     bindK (gets inodes) (\<lambda>is.
     case findix (\<lambda>ip. i_ref ip > 0 \<and> i_dev ip = dev \<and> i_inum ip = inum) 0 is of
       Some i \<Rightarrow>
         seqK (modify (upd_inode i (\<lambda>ip. ip\<lparr>i_ref := i_ref ip + 1\<rparr>))) (
         seqK (onm (release LkIcache))
         (ret i))
     | None \<Rightarrow>
         (case findix (\<lambda>ip. i_ref ip = 0) 0 is of
            None \<Rightarrow> panic ''iget: no inodes''
          | Some i \<Rightarrow>
              seqK (modify (upd_inode i (\<lambda>ip. ip\<lparr>i_dev := dev, i_inum := inum, i_ref := 1, i_valid := False\<rparr>))) (
              seqK (onm (release LkIcache))
              (ret i)))))"

definition zero_dinode :: "fsh \<Rightarrow> int \<Rightarrow> dinode" where
  "zero_dinode G type = \<lparr>di_type = type, di_major = 0, di_minor = 0, di_nlink = 0, di_size = 0,
     di_addrs = replicate (NDIRECT G + 1) 0\<rparr>"

fun ialloc_from :: "fsh \<Rightarrow> nat \<Rightarrow> int \<Rightarrow> nat list \<Rightarrow> ('x fs_st_scheme, nat) kop" where
  "ialloc_from G dev type [] = panic ''ialloc: no inodes''"
| "ialloc_from G dev type (inum # inums) =
     bindK (gets sb) (\<lambda>sbk.
     bindK (bread dev (IBLOCK G inum sbk)) (\<lambda>bp.
     bindK (gets (\<lambda>s. din_get G (bdata bp s) (inum mod IPB G))) (\<lambda>dip.
     if di_type dip = 0 then
       seqK (set_bdata bp (din_put G (inum mod IPB G) (zero_dinode G type))) (
       seqK (log_write bp) (
       seqK (brelse bp)
       (iget dev inum)))
     else seqK (brelse bp) (ialloc_from G dev type inums))))"

definition ialloc :: "fsh \<Rightarrow> nat \<Rightarrow> int \<Rightarrow> ('x fs_st_scheme, nat) kop" where
  "ialloc G dev type = bindK (gets sb) (\<lambda>sbk. ialloc_from G dev type [1..<sb_ninodes sbk])"

definition dinode_of :: "inode \<Rightarrow> dinode" where
  "dinode_of ip = \<lparr>di_type = i_type ip, di_major = i_major ip, di_minor = i_minor ip, di_nlink = i_nlink ip,
     di_size = i_size ip, di_addrs = i_addrs ip\<rparr>"

definition iupdate :: "fsh \<Rightarrow> nat \<Rightarrow> ('x fs_st_scheme, unit) kop" where
  "iupdate G i =
     bindK (geti i id) (\<lambda>ip.
     bindK (gets sb) (\<lambda>sbk.
     bindK (bread (i_dev ip) (IBLOCK G (i_inum ip) sbk)) (\<lambda>bp.
     seqK (set_bdata bp (din_put G (i_inum ip mod IPB G) (dinode_of ip))) (
     seqK (log_write bp)
     (brelse bp)))))"

definition idup :: "nat \<Rightarrow> ('x fs_st_scheme, nat) kop" where
  "idup i =
     seqK (onm (acquire LkIcache)) (
     seqK (modify (upd_inode i (\<lambda>ip. ip\<lparr>i_ref := i_ref ip + 1\<rparr>))) (
     seqK (onm (release LkIcache))
     (ret i)))"

definition load_dinode :: "dinode \<Rightarrow> inode \<Rightarrow> inode" where
  "load_dinode d ip = ip\<lparr>i_type := di_type d, i_major := di_major d, i_minor := di_minor d, i_nlink := di_nlink d,
     i_size := di_size d, i_addrs := di_addrs d\<rparr>"

definition ilock :: "fsh \<Rightarrow> nat option \<Rightarrow> ('x fs_st_scheme, unit) kop" where
  "ilock G p =
     (case p of None \<Rightarrow> panic ''ilock''
      | Some i \<Rightarrow>
          bindK (geti i i_ref) (\<lambda>r.
          if r < 1 then panic ''ilock''
          else seqK (acquiresleep (SlInode i)) (
               bindK (geti i id) (\<lambda>ip.
               if i_valid ip then ret ()
               else bindK (gets sb) (\<lambda>sbk.
                    bindK (bread (i_dev ip) (IBLOCK G (i_inum ip) sbk)) (\<lambda>bp.
                    bindK (gets (\<lambda>s. din_get G (bdata bp s) (i_inum ip mod IPB G))) (\<lambda>dip.
                    seqK (modify (upd_inode i (load_dinode dip))) (
                    seqK (brelse bp) (
                    seqK (modify (upd_inode i (\<lambda>ip. ip\<lparr>i_valid := True\<rparr>))) (
                    bindK (geti i i_type) (\<lambda>t.
                    if t = 0 then panic ''ilock: no type'' else ret ())))))))))))"

definition iunlock :: "nat option \<Rightarrow> ('x fs_st_scheme, unit) kop" where
  "iunlock p =
     (case p of None \<Rightarrow> panic ''iunlock''
      | Some i \<Rightarrow>
          bindK (holdingsleep (SlInode i)) (\<lambda>h.
          bindK (geti i i_ref) (\<lambda>r.
          if h = 0 \<or> r < 1 then panic ''iunlock'' else releasesleep (SlInode i))))"

section \<open>Contents\<close>

definition bmap :: "fsh \<Rightarrow> nat \<Rightarrow> nat \<Rightarrow> ('x fs_st_scheme, nat) kop" where
  "bmap G i bn =
     bindK (geti i id) (\<lambda>ip.
     if bn < NDIRECT G then
       (if i_addrs ip ! bn = 0 then
          bindK (balloc G (i_dev ip)) (\<lambda>addr.
          seqK (modify (upd_inode i (\<lambda>ip. ip\<lparr>i_addrs := (i_addrs ip)[bn := addr]\<rparr>)))
          (ret addr))
        else ret (i_addrs ip ! bn))
     else let bn = bn - NDIRECT G in
     if bn < NINDIRECT G then
       bindK (if i_addrs ip ! NDIRECT G = 0 then
                bindK (balloc G (i_dev ip)) (\<lambda>addr.
                seqK (modify (upd_inode i (\<lambda>ip. ip\<lparr>i_addrs := (i_addrs ip)[NDIRECT G := addr]\<rparr>)))
                (ret addr))
              else ret (i_addrs ip ! NDIRECT G)) (\<lambda>addr.
       bindK (bread (i_dev ip) addr) (\<lambda>bp.
       bindK (gets (\<lambda>s. unat (get32 (4 * bn) (bdata bp s)))) (\<lambda>a.
       if a = 0 then
         bindK (balloc G (i_dev ip)) (\<lambda>a.
         seqK (set_bdata bp (put32 (4 * bn) (of_nat a))) (
         seqK (log_write bp) (
         seqK (brelse bp)
         (ret a))))
       else seqK (brelse bp) (ret a))))
     else panic ''bmap: out of range'')"

fun itrunc_direct :: "fsh \<Rightarrow> nat \<Rightarrow> nat list \<Rightarrow> ('x fs_st_scheme, unit) kop" where
  "itrunc_direct G i [] = ret ()"
| "itrunc_direct G i (k # ks) =
     bindK (geti i id) (\<lambda>ip.
     seqK (whenK (i_addrs ip ! k \<noteq> 0) (
       seqK (bfree G (i_dev ip) (i_addrs ip ! k))
       (modify (upd_inode i (\<lambda>ip. ip\<lparr>i_addrs := (i_addrs ip)[k := 0]\<rparr>)))))
     (itrunc_direct G i ks))"

fun itrunc_indirect :: "fsh \<Rightarrow> nat \<Rightarrow> nat \<Rightarrow> nat list \<Rightarrow> ('x fs_st_scheme, unit) kop" where
  "itrunc_indirect G dev bp [] = ret ()"
| "itrunc_indirect G dev bp (j # js) =
     bindK (gets (\<lambda>s. unat (get32 (4 * j) (bdata bp s)))) (\<lambda>a.
     seqK (whenK (a \<noteq> 0) (bfree G dev a))
     (itrunc_indirect G dev bp js))"

definition itrunc :: "fsh \<Rightarrow> nat \<Rightarrow> ('x fs_st_scheme, unit) kop" where
  "itrunc G i =
     seqK (itrunc_direct G i [0..<NDIRECT G]) (
     bindK (geti i id) (\<lambda>ip.
     seqK (whenK (i_addrs ip ! NDIRECT G \<noteq> 0) (
       bindK (bread (i_dev ip) (i_addrs ip ! NDIRECT G)) (\<lambda>bp.
       seqK (itrunc_indirect G (i_dev ip) bp [0..<NINDIRECT G]) (
       seqK (brelse bp) (
       seqK (bfree G (i_dev ip) (i_addrs ip ! NDIRECT G))
       (modify (upd_inode i (\<lambda>ip. ip\<lparr>i_addrs := (i_addrs ip)[NDIRECT G := 0]\<rparr>)))))))) (
     seqK (modify (upd_inode i (\<lambda>ip. ip\<lparr>i_size := 0\<rparr>)))
     (iupdate G i))))"

definition iput :: "fsh \<Rightarrow> nat \<Rightarrow> ('x fs_st_scheme, unit) kop" where
  "iput G i =
     seqK (acquiresleep (SlInode i)) (
     bindK (geti i id) (\<lambda>ip.
     seqK (whenK (i_valid ip \<and> i_nlink ip = 0) (
       seqK (onm (acquire LkIcache)) (
       bindK (geti i i_ref) (\<lambda>r.
       seqK (onm (release LkIcache)) (
       whenK (r = 1) (
         seqK (itrunc G i) (
         seqK (modify (upd_inode i (\<lambda>ip. ip\<lparr>i_type := 0\<rparr>))) (
         seqK (iupdate G i)
         (modify (upd_inode i (\<lambda>ip. ip\<lparr>i_valid := False\<rparr>))))))))))) (
     seqK (releasesleep (SlInode i)) (
     seqK (onm (acquire LkIcache)) (
     seqK (modify (upd_inode i (\<lambda>ip. ip\<lparr>i_ref := i_ref ip - 1\<rparr>)))
     (onm (release LkIcache)))))))"

definition iunlockput :: "fsh \<Rightarrow> nat \<Rightarrow> ('x fs_st_scheme, unit) kop" where
  "iunlockput G i = seqK (iunlock (Some i)) (iput G i)"

definition stati :: "nat \<Rightarrow> ('x fs_st_scheme, stat) kop" where
  "stati i = geti i (\<lambda>ip. \<lparr>st_type = i_type ip, st_dev = i_dev ip, st_ino = i_inum ip, st_nlink = i_nlink ip, st_size = i_size ip\<rparr>)"

text \<open>
  The copying loop of \<open>readi\<close>.  An iteration copies at least one byte, so the number of bytes left is
  enough fuel.
\<close>

fun readi_loop :: "fsh \<Rightarrow> nat \<Rightarrow> nat \<Rightarrow> nat \<Rightarrow> nat \<Rightarrow> nat \<Rightarrow> byte list \<Rightarrow> ('x fs_st_scheme, byte list) kop" where
  "readi_loop G 0 i off n tot dst = (if tot < n then panic ''out of fuel'' else ret dst)"
| "readi_loop G (Suc fuel) i off n tot dst =
     (if tot < n then
        bindK (geti i i_dev) (\<lambda>dev.
        bindK (bmap G i (off div BSIZE G)) (\<lambda>addr.
        bindK (bread dev addr) (\<lambda>bp.
        let m = min (n - tot) (BSIZE G - off mod BSIZE G) in
        bindK (gets (bdata bp)) (\<lambda>d.
        seqK (brelse bp)
        (readi_loop G fuel i (off + m) n (tot + m) (dst @ take m (drop (off mod BSIZE G) d)))))))
      else ret dst)"

definition readi :: "fsh \<Rightarrow> 'x fs_st_scheme devsw \<Rightarrow> nat \<Rightarrow> nat \<Rightarrow> nat \<Rightarrow> ('x fs_st_scheme, int \<times> byte list) kop" where
  "readi G dv i off n =
     bindK (geti i id) (\<lambda>ip.
     if i_type ip = T_DEV then
       (if i_major ip < 0 \<or> i_major ip \<ge> int NDEV then ret (- 1, [])
        else case fst (dv (nat (i_major ip))) of None \<Rightarrow> ret (- 1, []) | Some rd \<Rightarrow> rd i n)
     else if off > i_size ip \<or> (off + n) mod 2 ^ 32 < off then ret (- 1, [])
     else let n = (if off + n > i_size ip then i_size ip - off else n) in
     bindK (readi_loop G n i off n 0 []) (\<lambda>dst. ret (int n, dst)))"

fun writei_loop :: "fsh \<Rightarrow> nat \<Rightarrow> nat \<Rightarrow> nat \<Rightarrow> byte list \<Rightarrow> nat \<Rightarrow> ('x fs_st_scheme, nat) kop" where
  "writei_loop G 0 i off src tot = (if tot < length src then panic ''out of fuel'' else ret off)"
| "writei_loop G (Suc fuel) i off src tot =
     (if tot < length src then
        bindK (geti i i_dev) (\<lambda>dev.
        bindK (bmap G i (off div BSIZE G)) (\<lambda>addr.
        bindK (bread dev addr) (\<lambda>bp.
        let m = min (length src - tot) (BSIZE G - off mod BSIZE G) in
        seqK (set_bdata bp (\<lambda>d. take (off mod BSIZE G) d @ take m (drop tot src) @ drop (off mod BSIZE G + m) d)) (
        seqK (log_write bp) (
        seqK (brelse bp)
        (writei_loop G fuel i (off + m) src (tot + m)))))))
      else ret off)"

definition writei :: "fsh \<Rightarrow> 'x fs_st_scheme devsw \<Rightarrow> nat \<Rightarrow> byte list \<Rightarrow> nat \<Rightarrow> ('x fs_st_scheme, int) kop" where
  "writei G dv i src off =
     bindK (geti i id) (\<lambda>ip.
     let n = length src in
     if i_type ip = T_DEV then
       (if i_major ip < 0 \<or> i_major ip \<ge> int NDEV then ret (- 1)
        else case snd (dv (nat (i_major ip))) of None \<Rightarrow> ret (- 1) | Some wr \<Rightarrow> wr i src)
     else if off > i_size ip \<or> (off + n) mod 2 ^ 32 < off then ret (- 1)
     else if off + n > MAXFILE G * BSIZE G then ret (- 1)
     else bindK (writei_loop G n i off src 0) (\<lambda>off.
          seqK (bindK (geti i i_size) (\<lambda>sz.
                whenK (n > 0 \<and> off > sz) (
                  seqK (modify (upd_inode i (\<lambda>ip. ip\<lparr>i_size := off\<rparr>)))
                  (iupdate G i))))
          (ret (int n))))"

section \<open>Directories\<close>

text \<open>
  A name is compared and stored up to \<open>DIRSIZ\<close> bytes.  \<open>cname\<close> is what \<open>strncmp\<close> and \<open>strncpy\<close> see of
  it: the bytes before the first NUL, at most \<open>DIRSIZ\<close> of them.
\<close>

definition cname :: "fsh \<Rightarrow> byte list \<Rightarrow> byte list" where
  "cname G s = take (DIRSIZ G) (takeWhile (\<lambda>c. c \<noteq> 0) s)"

definition namecmp :: "fsh \<Rightarrow> byte list \<Rightarrow> byte list \<Rightarrow> bool" where
  "namecmp G s t \<longleftrightarrow> cname G s = cname G t"

definition pad_name :: "fsh \<Rightarrow> byte list \<Rightarrow> byte list" where
  "pad_name G s = cname G s @ replicate (DIRSIZ G - length (cname G s)) 0"

text \<open>The offsets of the entries of a directory of \<open>size\<close> bytes.\<close>

definition entry_offs :: "fsh \<Rightarrow> nat \<Rightarrow> nat list" where
  "entry_offs G sz = map (\<lambda>k. k * DESZ G) [0..<(sz + DESZ G - 1) div DESZ G]"

fun dirlookup_from :: "fsh \<Rightarrow> 'x fs_st_scheme devsw \<Rightarrow> nat \<Rightarrow> byte list \<Rightarrow> nat list \<Rightarrow> ('x fs_st_scheme, (nat \<times> nat) option) kop" where
  "dirlookup_from G dv dp name [] = ret None"
| "dirlookup_from G dv dp name (off # offs) =
     bindK (readi G dv dp off (DESZ G)) (\<lambda>(r, bs).
     if r \<noteq> int (DESZ G) then panic ''dirlookup read''
     else let de = de_dec G bs in
     if de_inum de = 0 then dirlookup_from G dv dp name offs
     else if namecmp G name (de_name de) then
       bindK (geti dp i_dev) (\<lambda>dev.
       bindK (iget dev (de_inum de)) (\<lambda>ip. ret (Some (ip, off))))
     else dirlookup_from G dv dp name offs)"

text \<open>The result is the inode and the byte offset of the entry.\<close>

definition dirlookup :: "fsh \<Rightarrow> 'x fs_st_scheme devsw \<Rightarrow> nat \<Rightarrow> byte list \<Rightarrow> ('x fs_st_scheme, (nat \<times> nat) option) kop" where
  "dirlookup G dv dp name =
     bindK (geti dp id) (\<lambda>d.
     if i_type d \<noteq> T_DIR then panic ''dirlookup not DIR''
     else dirlookup_from G dv dp name (entry_offs G (i_size d)))"

fun dirlink_slot :: "fsh \<Rightarrow> 'x fs_st_scheme devsw \<Rightarrow> nat \<Rightarrow> nat \<Rightarrow> nat list \<Rightarrow> ('x fs_st_scheme, nat) kop" where
  "dirlink_slot G dv dp lst [] = ret lst"
| "dirlink_slot G dv dp lst (off # offs) =
     bindK (readi G dv dp off (DESZ G)) (\<lambda>(r, bs).
     if r \<noteq> int (DESZ G) then panic ''dirlink read''
     else if de_inum (de_dec G bs) = 0 then ret off
     else dirlink_slot G dv dp lst offs)"

definition dirlink :: "fsh \<Rightarrow> 'x fs_st_scheme devsw \<Rightarrow> nat \<Rightarrow> byte list \<Rightarrow> nat \<Rightarrow> ('x fs_st_scheme, int) kop" where
  "dirlink G dv dp name inum =
     bindK (dirlookup G dv dp name) (\<lambda>found.
     case found of
       Some (ip, _) \<Rightarrow> seqK (iput G ip) (ret (- 1))
     | None \<Rightarrow>
         bindK (geti dp i_size) (\<lambda>sz.
         bindK (dirlink_slot G dv dp (DESZ G * ((sz + DESZ G - 1) div DESZ G)) (entry_offs G sz)) (\<lambda>off.
         bindK (writei G dv dp (de_enc G \<lparr>de_inum = inum mod 2 ^ 16, de_name = pad_name G name\<rparr>) off) (\<lambda>r.
         if r \<noteq> int (DESZ G) then panic ''dirlink'' else ret 0))))"

section \<open>Paths\<close>

abbreviation slash :: byte where "slash \<equiv> 47"

text \<open>
  A path is its bytes before the NUL.  \<open>skipelem\<close> returns the rest of the path and the name copied.
\<close>

definition skipelem :: "fsh \<Rightarrow> byte list \<Rightarrow> (byte list \<times> byte list) option" where
  "skipelem G path =
     (let path = dropWhile (\<lambda>c. c = slash) path in
      if path = [] then None
      else let elem = takeWhile (\<lambda>c. c \<noteq> slash) path; path = dropWhile (\<lambda>c. c \<noteq> slash) path
           in Some (dropWhile (\<lambda>c. c = slash) path, if length elem \<ge> DIRSIZ G then take (DIRSIZ G) elem else elem))"

lemma skipelem_shorter: "skipelem G path = Some (rest, name) \<Longrightarrow> length rest < length path"
proof -
  assume a: "skipelem G path = Some (rest, name)"
  let ?p = "dropWhile (\<lambda>c. c = slash) path"
  have ne: "?p \<noteq> []" and r: "rest = dropWhile (\<lambda>c. c = slash) (dropWhile (\<lambda>c. c \<noteq> slash) ?p)"
    using a by (auto simp: skipelem_def Let_def split: if_splits)
  have "hd ?p \<noteq> slash" using hd_dropWhile [OF ne] .
  with ne obtain c p' where p: "?p = c # p'" "c \<noteq> slash" by (cases ?p) auto
  then have "length rest \<le> length p'"
    unfolding r using length_dropWhile_le [of "\<lambda>c. c = slash" "dropWhile (\<lambda>c. c \<noteq> slash) p'"]
      length_dropWhile_le [of "\<lambda>c. c \<noteq> slash" p'] by simp
  moreover have "length ?p \<le> length path" by (rule length_dropWhile_le)
  ultimately show ?thesis using p(1) by simp
qed

function namex_loop :: "fsh \<Rightarrow> 'x fs_st_scheme devsw \<Rightarrow> bool \<Rightarrow> byte list \<Rightarrow> byte list \<Rightarrow> nat \<Rightarrow> ('x fs_st_scheme, (nat \<times> byte list) option) kop" where
  "namex_loop G dv parent path name ip =
     (case skipelem G path of
        None \<Rightarrow> if parent then seqK (iput G ip) (ret None) else ret (Some (ip, name))
      | Some (rest, name) \<Rightarrow>
          seqK (ilock G (Some ip)) (
          bindK (geti ip i_type) (\<lambda>t.
          if t \<noteq> T_DIR then seqK (iunlockput G ip) (ret None)
          else if parent \<and> rest = [] then seqK (iunlock (Some ip)) (ret (Some (ip, name)))
          else bindK (dirlookup G dv ip name) (\<lambda>found.
               case found of
                 None \<Rightarrow> seqK (iunlockput G ip) (ret None)
               | Some (nxt, _) \<Rightarrow>
                   seqK (iunlockput G ip) (namex_loop G dv parent rest name nxt)))))"
  by pat_completeness auto
termination
  by (relation "measure (\<lambda>(G, dv, parent, path, name, ip). length path)") (auto dest: skipelem_shorter)

declare namex_loop.simps [simp del]

text \<open>The result is the inode and the last name copied.\<close>

definition namex :: "fsh \<Rightarrow> 'x fs_st_scheme devsw \<Rightarrow> byte list \<Rightarrow> bool \<Rightarrow> ('x fs_st_scheme, (nat \<times> byte list) option) kop" where
  "namex G dv path parent =
     bindK (if path \<noteq> [] \<and> hd path = slash then iget ROOTDEV (ROOTINO G)
            else bindK (onm myproc) (\<lambda>p.
                 case p of None \<Rightarrow> panic ''null dereference''
                 | Some p \<Rightarrow> bindK (gets (\<lambda>s. p_cwd (procs s ! p))) (\<lambda>c.
                     case c of None \<Rightarrow> panic ''null dereference'' | Some ip \<Rightarrow> idup ip))) (\<lambda>ip.
     namex_loop G dv parent path [] ip)"

definition namei :: "fsh \<Rightarrow> 'x fs_st_scheme devsw \<Rightarrow> byte list \<Rightarrow> ('x fs_st_scheme, nat option) kop" where
  "namei G dv path = bindK (namex G dv path False) (\<lambda>r. ret (map_option fst r))"

definition nameiparent :: "fsh \<Rightarrow> 'x fs_st_scheme devsw \<Rightarrow> byte list \<Rightarrow> ('x fs_st_scheme, (nat \<times> byte list) option) kop" where
  "nameiparent G dv path = namex G dv path True"

end
