(* ===== verification/Fs_Blocks.thy ===== *)
theory Fs_Blocks
  imports Fs
begin

unbundle bit_operations_syntax

text \<open>
  Transactions on blocks, and the block allocator.  The rules here run the four calls a routine of the
  file system makes on a block (\<open>bread\<close>, a change of the data, \<open>log_write\<close>, \<open>brelse\<close>) inside a transaction:
  they keep the invariant of the log and change the current contents of that block only.  On them rest
  the properties of \<open>balloc\<close> and \<open>bfree\<close>.
\<close>

section \<open>Block operations inside a transaction\<close>

lemma wp_bind_fun: "wp (bindK m f) Q = wp m (\<lambda>a. wp (f a) Q)"
  by (rule ext) simp

lemma wp_ret_fun: "wp (ret a) Q = Q a"
  by (rule ext) simp

text \<open>What no block operation of a transaction changes; \<open>H\<close> are buffers held throughout.\<close>

definition tx_same :: "nat set \<Rightarrow> 'x log_st_scheme \<Rightarrow> 'x log_st_scheme \<Rightarrow> bool" where
  "tx_same H s s' \<longleftrightarrow> disk s' = disk s \<and> dhist s' = dhist s \<and> outstanding s' = outstanding s \<and> log_size s' = log_size s \<and>
     log_start s' = log_start s \<and> committing s' = committing s \<and> bframe s s' \<and> log_st.more s' = log_st.more s \<and>
     (\<forall>j \<in> H. payload (bufs s' ! j) = payload (bufs s ! j))"

lemma tx_same_refl [simp]: "tx_same H s s"
  by (simp add: tx_same_def)

lemma tx_same_trans: "tx_same H s t \<Longrightarrow> tx_same K t u \<Longrightarrow> H \<subseteq> K \<Longrightarrow> tx_same H s u"
  by (auto simp: tx_same_def intro: bframe_trans)

lemma fs_more:
  fixes s s' :: "'x fs_st_scheme"
  assumes "log_st.more s' = log_st.more s"
  shows "sb s' = sb s" "inodes s' = inodes s" "fs_st.more s' = fs_st.more s"
  using assms by (cases s; cases s'; simp)+

lemma tx_sameD:
  assumes "tx_same H s (s' :: 'x fs_st_scheme)"
  shows "sb s' = sb s" "inodes s' = inodes s" "disksize s' = disksize s" "log_area s' = log_area s"
    "outstanding s' = outstanding s" "log_size s' = log_size s" "calm s' \<Longrightarrow> ident (km s') = ident (km s)"
    "\<And>j. j \<in> H \<Longrightarrow> b_blockno (bufs s' ! j) = b_blockno (bufs s ! j)"
  using assms fs_more [of s' s] by (auto simp: tx_same_def bframe_def log_area_def payload_def)

text \<open>Room for \<open>k\<close> more blocks in the log and in the cache.\<close>

definition log_room :: "nat \<Rightarrow> nat set \<Rightarrow> 'x log_st_scheme \<Rightarrow> bool" where
  "log_room k H s \<longleftrightarrow> lh_n s + int k + int (card H) < int NBUF \<and> lh_n s + int k < log_size s \<and> 1 \<le> outstanding s"

definition read_post :: "fsh \<Rightarrow> nat set \<Rightarrow> nat \<Rightarrow> 'x log_st_scheme \<Rightarrow> nat \<Rightarrow> 'x log_st_scheme \<Rightarrow> bool" where
  "read_post G H b s i s' \<longleftrightarrow> tx_ok G (insert i H) s' \<and> i \<notin> H \<and> i < NBUF \<and> b_blockno (bufs s' ! i) = b \<and> bdata i s' = blk s b \<and>
     blk s' = blk s \<and> dirties s' = dirties s \<and> lh_n s' = lh_n s \<and> lh_block s' = lh_block s \<and> tx_same H s s'"

lemma tx_cong:
  fixes s s' :: "'x log_st_scheme"
  assumes "tx_ok G H s" "bc_inv K s'" "calm s'" "blk s' = blk s" "dirties s' = dirties s" "bframe s s'" "bio_st.more s' = bio_st.more s"
  shows "tx_ok G K s'"
  using assms log_more [OF assms(7)] by (simp add: tx_ok_def sized_def logged_def log_area_def bframe_def)

lemma finite_held: "bc_inv H s \<Longrightarrow> finite H"
  using bc_invD(2) [of H s] by (auto intro: finite_subset [of H "{..<NBUF}"])

lemma tx_held: "tx_ok G H s \<Longrightarrow> bc_inv H s" "tx_ok G H s \<Longrightarrow> calm s" "tx_ok G H s \<Longrightarrow> fsh_ok G" "tx_ok G H s \<Longrightarrow> sized G s"
  by (auto simp: tx_ok_def)

lemma bread_tx:
  assumes ok: "tx_ok G H s" and b: "b < disksize s" "\<forall>i \<in> H. b_blockno (bufs s ! i) \<noteq> b" and r: "lh_n s + int (card H) < int NBUF"
    and Q: "\<And>i s'. read_post G H b s i s' \<Longrightarrow> Q i s'"
  shows "wp (bread 1 b) Q s"
proof (rule bread_wp [OF tx_held(2) [OF ok] tx_held(1) [OF ok] b])
  have "card (dirties s) = nat (lh_n s)" "0 \<le> lh_n s" using tx_card [OF ok] ok by (auto simp: tx_ok_def)
  then have "card (dirties s) + card H < NBUF" using r by linarith
  then show "slot s b \<noteq> None \<or> (\<exists>i<NBUF. i \<notin> H \<and> \<not> dirty (bufs s ! i))" using buffer_left [OF tx_held(1) [OF ok]] by blast
  fix i s' assume p: "bread_post H b s i s'"
  then have more: "bio_st.more s' = bio_st.more s" by (simp add: bread_post_def)
  have "tx_ok G (insert i H) s'" by (rule tx_cong [OF ok]) (use p in \<open>auto simp: bread_post_def\<close>)
  then show "Q i s'" using p log_more [OF more] by (intro Q) (simp add: read_post_def bread_post_def tx_same_def bdata_def)
qed

lemma brelse_tx:
  assumes ok: "tx_ok G H s" and i: "i \<in> H" and clean: "dirty (bufs s ! i) \<or> b_data (bufs s ! i) = disk s (b_blockno (bufs s ! i))"
    and Q: "\<And>s'. tx_ok G (H - {i}) s' \<Longrightarrow> blk s' = blk s \<Longrightarrow> dirties s' = dirties s \<Longrightarrow> lh_n s' = lh_n s \<Longrightarrow> lh_block s' = lh_block s \<Longrightarrow>
      tx_same (H - {i}) s s' \<Longrightarrow> Q () s'"
  shows "wp (brelse i) Q s"
proof (rule brelse_wp [OF tx_held(2) [OF ok] tx_held(1) [OF ok] i clean])
  fix s' assume p: "brelse_post H i s s'"
  then have more: "bio_st.more s' = bio_st.more s" by (simp add: brelse_post_def)
  have "tx_ok G (H - {i}) s'" by (rule tx_cong [OF ok]) (use p in \<open>auto simp: brelse_post_def\<close>)
  then show "Q () s'" by (rule Q) (use p log_more [OF more] in \<open>auto simp: brelse_post_def tx_same_def\<close>)
qed

lemma blk_clean_held:
  assumes inv: "bc_inv H s" and b: "\<forall>i \<in> H. b_blockno (bufs s ! i) \<noteq> b" "b \<notin> dirties s"
  shows "blk s b = disk s b"
proof (cases "slot s b")
  case (Some i)
  then have i: "i < NBUF" "valid (bufs s ! i)" "b_blockno (bufs s ! i) = b" using slot_Some [OF inv] by auto
  then have "i \<notin> H" "\<not> dirty (bufs s ! i)" using b by (auto simp: dirties_def)
  then show ?thesis using bc_invD(3) [OF inv i(1)] i Some by (auto simp: buf_ok_def blk_def)
qed (simp add: blk_def)

text \<open>A block that is only read is released as it was.\<close>

lemma read_clean:
  assumes "read_post G H b s i s'" "bc_inv H s" "\<forall>i \<in> H. b_blockno (bufs s ! i) \<noteq> b"
  shows "dirty (bufs s' ! i) \<or> b_data (bufs s' ! i) = disk s' (b_blockno (bufs s' ! i))"
proof (cases "b \<in> dirties s'")
  case True
  have inv: "bc_inv (insert i H) s'" "b_blockno (bufs s' ! i) = b" using assms(1) by (auto simp: read_post_def tx_ok_def)
  obtain j where "j < NBUF" "dirty (bufs s' ! j)" "b_blockno (bufs s' ! j) = b" using True by (auto simp: dirties_def)
  then have "j = i" using bc_invD(4) [OF inv(1), of j i] fdirty_dev [OF inv(1), of j] held_ok [OF inv(1), of i] inv(2) by auto
  then show ?thesis using \<open>dirty (bufs s' ! j)\<close> by simp
next
  case False
  then have "blk s b = disk s b" using assms by (intro blk_clean_held) (auto simp: read_post_def)
  then show ?thesis using assms(1) by (simp add: read_post_def tx_same_def bdata_def)
qed

text \<open>The change of a held block, its entry in the log and its release.\<close>

lemma update_tail_wp:
  assumes ok: "tx_ok G H s" and i: "i \<in> H" "b_blockno (bufs s ! i) \<notin> log_area s" and r: "log_room 1 {} s"
    and len: "length (f (bdata i s)) = BSIZE G"
    and Q: "\<And>s'. tx_ok G (H - {i}) s' \<Longrightarrow> blk s' = (blk s)(b_blockno (bufs s ! i) := f (bdata i s)) \<Longrightarrow>
      dirties s' = insert (b_blockno (bufs s ! i)) (dirties s) \<Longrightarrow> lh_n s \<le> lh_n s' \<Longrightarrow> lh_n s' \<le> lh_n s + 1 \<Longrightarrow>
      tx_same (H - {i}) s s' \<Longrightarrow> Q () s'"
  shows "wp (seqK (set_bdata i f) (seqK (log_write i) (brelse i))) Q s"
  unfolding wp_bindK set_bdata_def wp_modify
proof -
  let ?s = "upd_buf i (\<lambda>k. k\<lparr>b_data := f (b_data k)\<rparr>) s"
  have p: "upd_post H i (f (bdata i s)) s ?s" using upd_data [OF tx_held(2) [OF ok] tx_held(1) [OF ok] i(1), of "\<lambda>k. f (b_data k)"] by (simp add: bdata_def)
  then have more: "bio_st.more ?s = bio_st.more s" by (simp add: upd_post_def)
  note L = log_more [OF more]
  have tx: "tx_ok G H ?s"
    using ok p L len by (simp add: tx_ok_def upd_post_def sized_def logged_def log_area_def bframe_def)
  show "wp (log_write i) (\<lambda>_. wp (brelse i) Q) ?s"
  proof (rule log_write_tx [OF tx i(1)])
    show "b_blockno (bufs ?s ! i) \<notin> log_area ?s" using i(2) p L by (simp add: upd_post_def log_area_def)
    show "lh_n ?s + 1 < int NBUF" "lh_n ?s + 1 < log_size ?s" "1 \<le> outstanding ?s" using r L by (auto simp: log_room_def)
    fix s2 assume q: "logw_post G H i ?s s2"
    then have d: "dirty (bufs s2 ! i)" and t2: "tx_ok G H s2" by (auto simp: logw_post_def)
    show "wp (brelse i) Q s2"
    proof (rule brelse_tx [OF t2 i(1)])
      fix s3 assume t3: "tx_ok G (H - {i}) s3" "blk s3 = blk s2" "dirties s3 = dirties s2" "lh_n s3 = lh_n s2" "tx_same (H - {i}) s2 s3"
      have "tx_same (H - {i}) s s2" using p q L by (auto simp: tx_same_def upd_post_def logw_post_def payload_def intro: bframe_trans)
      then have "tx_same (H - {i}) s s3" using t3(5) by (rule tx_same_trans) simp
      then show "Q () s3" using t3 p q L by (intro Q) (auto simp: upd_post_def logw_post_def)
    qed (use d in simp)
  qed
qed


section \<open>The free bitmap\<close>

lemma bit_free_iff: "bit_free d j \<longleftrightarrow> \<not> bit (d ! (j div 8)) (j mod 8)"
  by (simp add: bit_free_def bit_mask_def push_bit_eq_mult and_exp_eq_0_iff_not_bit)

lemma div_mod_8: "i \<noteq> (j::nat) \<Longrightarrow> i div 8 = j div 8 \<Longrightarrow> i mod 8 \<noteq> j mod 8"
  by (metis div_mult_mod_eq)

lemma bit_free_mark:
  assumes "i < 8 * length d" "j < 8 * length d"
  shows "bit_free (mark_bit i d) j \<longleftrightarrow> j \<noteq> i \<and> bit_free d j"
proof -
  have "i div 8 < length d" using assms by (simp add: less_mult_imp_div_less mult.commute)
  then show ?thesis
    using div_mod_8 [of i j] by (cases "i div 8 = j div 8") (auto simp: bit_free_iff mark_bit_def bit_mask_def bit_simps)
qed

lemma bit_free_clear:
  assumes "i < 8 * length d" "j < 8 * length d"
  shows "bit_free (clear_bit i d) j \<longleftrightarrow> j = i \<or> bit_free d j"
proof -
  have "i div 8 < length d" using assms by (simp add: less_mult_imp_div_less mult.commute)
  then show ?thesis
    using div_mod_8 [of i j] by (cases "i div 8 = j div 8") (auto simp: bit_free_iff clear_bit_def bit_mask_def bit_simps)
qed

lemma length_mark_clear [simp]: "length (mark_bit i d) = length d" "length (clear_bit i d) = length d"
  by (simp_all add: mark_bit_def clear_bit_def)

text \<open>The number of bitmap blocks, whether a block is in use, and a sane layout of the bitmap.\<close>

definition bitmap_blocks :: "fsh \<Rightarrow> nat \<Rightarrow> nat" where
  "bitmap_blocks G sz = (sz + BPB G - 1) div BPB G"

definition bitmap_area :: "fsh \<Rightarrow> 'x fs_st_scheme \<Rightarrow> nat set" where
  "bitmap_area G s = {sb_bmapstart (sb s)..<sb_bmapstart (sb s) + bitmap_blocks G (sb_size (sb s))}"

definition block_used :: "fsh \<Rightarrow> 'x fs_st_scheme \<Rightarrow> nat \<Rightarrow> bool" where
  "block_used G s b \<longleftrightarrow> \<not> bit_free (blk s (BBLOCK G b (sb s))) (b mod BPB G)"

definition bitmap_ok :: "fsh \<Rightarrow> 'x fs_st_scheme \<Rightarrow> bool" where
  "bitmap_ok G s \<longleftrightarrow> sb_size (sb s) \<le> disksize s \<and> (\<forall>b \<in> bitmap_area G s. b < disksize s \<and> b \<notin> log_area s) \<and>
     (\<forall>b < sb_size (sb s). b \<in> bitmap_area G s \<union> log_area s \<longrightarrow> block_used G s b)"

lemma BBLOCK_area:
  assumes "fsh_ok G" "b < sb_size (sb s)"
  shows "BBLOCK G b (sb s) \<in> bitmap_area G s"
proof -
  have p: "0 < BPB G" using assms(1) by (simp add: fsh_ok_def)
  have "b div BPB G < bitmap_blocks G (sb_size (sb s))"
  proof -
    have "Suc (b div BPB G) = (b + BPB G) div BPB G" using p div_add_self2 [of "BPB G" b] by linarith
    also have "\<dots> \<le> bitmap_blocks G (sb_size (sb s))" unfolding bitmap_blocks_def using assms(2) p by (intro div_le_mono) linarith
    finally show ?thesis by simp
  qed
  then show ?thesis using assms(1) by (simp add: bitmap_area_def fsh_ok_def)
qed

definition balloc_post :: "fsh \<Rightarrow> nat set \<Rightarrow> 'x fs_st_scheme \<Rightarrow> nat \<Rightarrow> 'x fs_st_scheme \<Rightarrow> bool" where
  "balloc_post G H s b t \<longleftrightarrow> b < sb_size (sb s) \<and> \<not> block_used G s b \<and> (\<forall>c < b. block_used G s c) \<and> tx_ok G H t \<and>
     blk t = (blk s)(BBLOCK G b (sb s) := mark_bit (b mod BPB G) (blk s (BBLOCK G b (sb s))), b := replicate (BSIZE G) 0) \<and>
     dirties t = {BBLOCK G b (sb s), b} \<union> dirties s \<and> lh_n s \<le> lh_n t \<and> lh_n t \<le> lh_n s + 2 \<and> tx_same H s t"

text \<open>No held buffer is a bitmap block or a free block.\<close>

definition held_used :: "fsh \<Rightarrow> nat set \<Rightarrow> 'x fs_st_scheme \<Rightarrow> bool" where
  "held_used G H s \<longleftrightarrow> (\<forall>i \<in> H. b_blockno (bufs s ! i) \<notin> bitmap_area G s \<and>
     (b_blockno (bufs s ! i) < sb_size (sb s) \<longrightarrow> block_used G s (b_blockno (bufs s ! i))))"

lemma bzero_wp:
  assumes ok: "tx_ok G H s" and b: "b < disksize s" "b \<notin> log_area s" "\<forall>i \<in> H. b_blockno (bufs s ! i) \<noteq> b" and r: "log_room 1 H s"
    and Q: "\<And>s'. tx_ok G H s' \<Longrightarrow> blk s' = (blk s)(b := replicate (BSIZE G) 0) \<Longrightarrow> dirties s' = insert b (dirties s) \<Longrightarrow>
      lh_n s \<le> lh_n s' \<Longrightarrow> lh_n s' \<le> lh_n s + 1 \<Longrightarrow> tx_same H s s' \<Longrightarrow> Q () s'"
  shows "wp (bzero G 1 b) Q s"
  unfolding bzero_def wp_bindK [of "bread 1 b"]
proof (rule bread_tx [OF ok b(1,3)])
  show "lh_n s + int (card H) < int NBUF" using r by (simp add: log_room_def)
  fix i t assume p: "read_post G H b s i t"
  then have ok': "tx_ok G (insert i H) t" and i: "i \<notin> H" "b_blockno (bufs t ! i) = b" and e: "insert i H - {i} = H"
    and same: "tx_same H s t" by (auto simp: read_post_def)
  note D = tx_sameD [OF same]
  have len: "length (bdata i t) = BSIZE G" using p ok by (simp add: read_post_def tx_ok_def sized_def)
  show "wp (seqK (set_bdata i (\<lambda>d. replicate (BSIZE G) 0 @ drop (BSIZE G) d)) (seqK (log_write i) (brelse i))) Q t"
    by (rule update_tail_wp [OF ok'])
       (use p D len i b r e in \<open>auto simp: read_post_def log_room_def intro!: Q tx_same_trans [OF same]\<close>)
qed

lemma group_bits:
  assumes "fsh_ok G" "bi < BPB G"
  shows "BBLOCK G (k * BPB G + bi) sbk = BBLOCK G (k * BPB G) sbk" "(k * BPB G + bi) mod BPB G = bi" "(k * BPB G + bi) div BPB G = k"
  using assms by (simp_all add: fsh_ok_def)


text \<open>A step that changes no block: a bitmap block is read and released.\<close>

definition tx_quiet :: "fsh \<Rightarrow> nat set \<Rightarrow> 'x log_st_scheme \<Rightarrow> 'x log_st_scheme \<Rightarrow> bool" where
  "tx_quiet G H s t \<longleftrightarrow> tx_ok G H t \<and> blk t = blk s \<and> dirties t = dirties s \<and> lh_n t = lh_n s \<and> lh_block t = lh_block s \<and> tx_same H s t"

lemma read_release_wp:
  assumes ok: "tx_ok G H s" and b: "\<forall>i \<in> H. b_blockno (bufs s ! i) \<noteq> b" and p: "read_post G H b s i t"
    and Q: "\<And>s'. tx_quiet G H s s' \<Longrightarrow> Q () s'"
  shows "wp (brelse i) Q t"
proof (rule brelse_tx)
  show "tx_ok G (insert i H) t" "i \<in> insert i H" using p by (auto simp: read_post_def)
  show "dirty (bufs t ! i) \<or> b_data (bufs t ! i) = disk t (b_blockno (bufs t ! i))" by (rule read_clean [OF p tx_held(1) [OF ok] b])
  have e: "insert i H - {i} = H" using p by (auto simp: read_post_def)
  fix s' assume "tx_ok G (insert i H - {i}) s'" "blk s' = blk t" "dirties s' = dirties t" "lh_n s' = lh_n t" "lh_block s' = lh_block t" "tx_same (insert i H - {i}) t s'"
  then show "Q () s'" unfolding e using p
    by (intro Q) (auto simp: tx_quiet_def read_post_def intro: tx_same_trans)
qed

lemma quiet_keeps:
  fixes s t :: "'x fs_st_scheme"
  assumes "tx_quiet G H s t"
  shows "bitmap_ok G s \<Longrightarrow> bitmap_ok G t" "held_used G H s \<Longrightarrow> held_used G H t" "log_room k H s \<Longrightarrow> log_room k H t"
    "block_used G t b \<longleftrightarrow> block_used G s b" "sb t = sb s" "balloc_post G H t b u \<Longrightarrow> balloc_post G H s b u"
proof -
  have q: "blk t = blk s" "dirties t = dirties s" "lh_n t = lh_n s" "tx_same H s t" using assms by (auto simp: tx_quiet_def)
  note D = tx_sameD [OF q(4)]
  show u: "block_used G t b \<longleftrightarrow> block_used G s b" for b using q D by (simp add: block_used_def)
  have a: "bitmap_area G t = bitmap_area G s" using D by (simp add: bitmap_area_def)
  show "bitmap_ok G s \<Longrightarrow> bitmap_ok G t" using D u a by (simp add: bitmap_ok_def)
  show "held_used G H s \<Longrightarrow> held_used G H t" using D u a by (simp add: held_used_def)
  show "log_room k H s \<Longrightarrow> log_room k H t" using q D by (simp add: log_room_def)
  show "sb t = sb s" by (rule D(1))
  show "balloc_post G H t b u \<Longrightarrow> balloc_post G H s b u"
    using q D u tx_same_trans [OF q(4)] by (auto simp: balloc_post_def)
qed

lemma free_block:
  assumes "bitmap_ok G s" "held_used G H s" "fsh_ok G" "b < sb_size (sb s)" "\<not> block_used G s b"
  shows "b < disksize s" "b \<notin> log_area s" "b \<notin> bitmap_area G s" "\<forall>i \<in> H. b_blockno (bufs s ! i) \<noteq> b" "b \<noteq> BBLOCK G b (sb s)"
    "BBLOCK G b (sb s) < disksize s" "BBLOCK G b (sb s) \<notin> log_area s" "\<forall>i \<in> H. b_blockno (bufs s ! i) \<noteq> BBLOCK G b (sb s)"
  using assms BBLOCK_area [OF assms(3,4)] by (auto simp: bitmap_ok_def held_used_def)

text \<open>The first free bit of a group is found: mark it, then zero the block.\<close>

lemma balloc_take_wp:
  fixes s t :: "'x fs_st_scheme"
  assumes ok: "tx_ok G H s" and bm: "bitmap_ok G s" and hu: "held_used G H s" and r: "log_room 2 H s"
    and b: "b < sb_size (sb s)" "\<not> block_used G s b" "\<forall>c < b. block_used G s c" "bi = b mod BPB G"
    and p: "read_post G H (BBLOCK G b (sb s)) s i t"
    and Q: "\<And>u. balloc_post G H s b u \<Longrightarrow> Q b u"
  shows "wp (seqK (set_bdata i (mark_bit bi)) (seqK (log_write i) (seqK (brelse i) (seqK (bzero G 1 b) (ret b))))) Q t"
proof -
  note fb = free_block [OF bm hu tx_held(3) [OF ok] b(1,2)]
  let ?B = "BBLOCK G b (sb s)"
  have p': "tx_ok G (insert i H) t" "i \<notin> H" "b_blockno (bufs t ! i) = ?B" "bdata i t = blk s ?B" "tx_same H s t" "blk t = blk s"
    "lh_n t = lh_n s" "dirties t = dirties s" and e: "insert i H - {i} = H" using p by (auto simp: read_post_def)
  note D = tx_sameD [OF p'(5)]
  have len: "length (blk s ?B) = BSIZE G" using ok by (simp add: tx_ok_def sized_def)
  have "wp (seqK (set_bdata i (mark_bit bi)) (seqK (log_write i) (brelse i))) (\<lambda>_. wp (bzero G 1 b) (\<lambda>_. Q b)) t"
  proof (rule update_tail_wp [OF p'(1)], simp, goal_cases)
    case (4 v)
    note same = tx_same_trans [OF p'(5) 4(6) [unfolded e]] and E = tx_sameD [OF tx_same_trans [OF p'(5) 4(6) [unfolded e]]]
    show ?case
    proof (rule bzero_wp [OF 4(1) [unfolded e]])
      show "b < disksize v" "b \<notin> log_area v" "\<forall>i \<in> H. b_blockno (bufs v ! i) \<noteq> b" using fb E by auto
      show "log_room 1 H v" using r 4(5) p'(7) E by (simp add: log_room_def)
      fix u assume u: "tx_ok G H u" "blk u = (blk v)(b := replicate (BSIZE G) 0)" "dirties u = insert b (dirties v)" "lh_n v \<le> lh_n u"
        "lh_n u \<le> lh_n v + 1" "tx_same H v u"
      have "tx_same H s u" using tx_same_trans [OF same u(6)] by simp
      then show "Q b u" using u 4 b p' by (intro Q) (auto simp: balloc_post_def)
    qed
  qed (use fb D r p' len in \<open>auto simp: log_room_def\<close>)
  then show ?thesis by (simp add: wp_bind_fun wp_ret_fun)
qed


lemma group_free:
  assumes "fsh_ok G" "d = blk s (BBLOCK G (k * BPB G) (sb s))" "bi < BPB G"
  shows "bit_free d bi \<longleftrightarrow> \<not> block_used G s (k * BPB G + bi)"
  using assms group_bits [OF assms(1,3)] by (simp add: block_used_def)

lemma below_group:
  assumes "\<forall>c < k * B. P c" "\<forall>bi < (m::nat). P (k * B + bi)"
  shows "\<forall>c < k * B + m. P (c::nat)"
proof (intro allI impI)
  fix c assume "c < k * B + m"
  then show "P c" using assms by (cases "c < k * B") (auto dest: spec [of _ "c - k * B"])
qed

lemma balloc_from_wp:
  fixes s :: "'x fs_st_scheme"
  assumes "tx_ok G H s" "bitmap_ok G s" "held_used G H s" "log_room 2 H s" "\<exists>b < sb_size (sb s). \<not> block_used G s b"
    "\<forall>c < k * BPB G. c < sb_size (sb s) \<longrightarrow> block_used G s c" "k + n = bitmap_blocks G (sb_size (sb s))"
    "\<And>b t. balloc_post G H s b t \<Longrightarrow> Q b t"
  shows "wp (balloc_from G 1 (map (\<lambda>k. k * BPB G) [k..<k + n])) Q s"
  using assms
proof (induction n arbitrary: k s)
  case 0
  have "0 < BPB G" using 0(1) by (simp add: tx_ok_def fsh_ok_def)
  then have "sb_size (sb s) \<le> k * BPB G" using 0(7) dividend_less_div_times [of "BPB G" "sb_size (sb s) + BPB G - 1"]
    by (simp add: bitmap_blocks_def)
  then show ?case using 0(5,6) by fastforce
next
  case (Suc n)
  let ?B = "BBLOCK G (k * BPB G) (sb s)" and ?m = "min (BPB G) (sb_size (sb s) - k * BPB G)"
  note F = tx_held(3) [OF Suc(2)]
  have p0: "0 < BPB G" using F by (simp add: fsh_ok_def)
  have "Suc k \<le> (sb_size (sb s) + BPB G - 1) div BPB G" using Suc(8) by (simp add: bitmap_blocks_def)
  then have "k * BPB G < sb_size (sb s)" using p0 by (simp add: less_eq_div_iff_mult_less_eq)
  note B = BBLOCK_area [OF F this]
  then have B': "?B < disksize s" "\<forall>i \<in> H. b_blockno (bufs s ! i) \<noteq> ?B" using Suc(3,4) by (auto simp: bitmap_ok_def held_used_def)
  have l: "map (\<lambda>k. k * BPB G) [k..<k + Suc n] = k * BPB G # map (\<lambda>k. k * BPB G) [Suc k..<Suc k + n]" by (simp add: upt_conv_Cons)
  show ?case unfolding l balloc_from.simps wp_bindK wp_gets
  proof (rule bread_tx [OF Suc(2) B'])
    show "lh_n s + int (card H) < int NBUF" using Suc(5) by (simp add: log_room_def)
    fix i t assume p: "read_post G H ?B s i t"
    then have d: "bdata i t = blk s ?B" by (simp add: read_post_def)
    let ?f = "findix (bit_free (bdata i t)) 0 [0..<?m]"
    note gf = group_free [OF F d]
    show "wp (case ?f of None \<Rightarrow> seqK (brelse i) (balloc_from G 1 (map (\<lambda>k. k * BPB G) [Suc k..<Suc k + n]))
       | Some bi \<Rightarrow> seqK (set_bdata i (mark_bit bi)) (seqK (log_write i) (seqK (brelse i) (seqK (bzero G 1 (k * BPB G + bi)) (ret (k * BPB G + bi)))))) Q t"
    proof (cases ?f)
      case None
      then have "\<forall>bi < ?m. block_used G s (k * BPB G + bi)" using gf by (auto simp: findix_None)
      then have "\<forall>c < k * BPB G + ?m. c < sb_size (sb s) \<longrightarrow> block_used G s c" by (intro below_group [OF Suc(7)]) simp
      then have u: "\<forall>c < Suc k * BPB G. c < sb_size (sb s) \<longrightarrow> block_used G s c" by (auto simp: min_def split: if_splits)
      have "wp (brelse i) (\<lambda>_. wp (balloc_from G 1 (map (\<lambda>k. k * BPB G) [Suc k..<Suc k + n])) Q) t"
      proof (rule read_release_wp [OF Suc(2) B'(2) p])
        fix v assume q: "tx_quiet G H s v"
        note K = quiet_keeps [OF q]
        show "wp (balloc_from G 1 (map (\<lambda>k. k * BPB G) [Suc k..<Suc k + n])) Q v"
        proof (rule Suc.IH)
          show "tx_ok G H v" using q by (simp add: tx_quiet_def)
        qed (use K Suc.prems u in auto)
      qed
      then show ?thesis using None by simp
    next
      case (Some bi)
      then have bi: "bi < ?m" "bit_free (bdata i t) bi" "\<forall>c < bi. \<not> bit_free (bdata i t) c"
        using findix_SomeD [OF Some] by (auto dest: less_trans)
      note g = group_bits [OF F, of bi k]
      have "\<forall>c < k * BPB G + bi. c < sb_size (sb s) \<longrightarrow> block_used G s c" using bi gf Suc(7) by (intro below_group) auto
      then have u: "\<forall>c < k * BPB G + bi. block_used G s c" using bi(1) by auto
      show ?thesis unfolding Some option.case
        by (rule balloc_take_wp [OF Suc(2-5) _ _ u _ _ Suc(9)]) (use bi gf g p in auto)
    qed
  qed
qed


lemma balloc_wp:
  fixes s :: "'x fs_st_scheme"
  assumes "tx_ok G H s" "bitmap_ok G s" "held_used G H s" "log_room 2 H s" "\<exists>b < sb_size (sb s). \<not> block_used G s b"
    and Q: "\<And>b t. balloc_post G H s b t \<Longrightarrow> Q b t"
  shows "wp (balloc G 1) Q s"
  unfolding balloc_def wp_bindK wp_gets group_starts_def
  using balloc_from_wp [OF assms(1-5), of 0 "bitmap_blocks G (sb_size (sb s))" Q] Q by (simp add: bitmap_blocks_def)

lemma used_size:
  assumes "fsh_ok G" "sized G s"
  shows "b mod BPB G < 8 * length (blk s x)"
  using assms by (simp add: fsh_ok_def sized_def mult.commute)

text \<open>Two blocks share a bitmap bit only if they are the same.\<close>

lemma same_bit:
  assumes "fsh_ok G" "BBLOCK G b sbk = BBLOCK G c sbk" "b mod BPB G = c mod BPB G"
  shows "b = c"
  using assms div_mult_mod_eq [of b "BPB G"] div_mult_mod_eq [of c "BPB G"] by (simp add: fsh_ok_def)

lemma mark_used:
  fixes s t :: "'x fs_st_scheme"
  assumes ok: "fsh_ok G" "sized G s" and sb: "sb t = sb s"
    and blk: "blk t (BBLOCK G c (sb s)) = ((blk s)(BBLOCK G b (sb s) := mark_bit (b mod BPB G) (blk s (BBLOCK G b (sb s))))) (BBLOCK G c (sb s))"
  shows "block_used G t c \<longleftrightarrow> c = b \<or> block_used G s c"
  using bit_free_mark [OF used_size [OF ok] used_size [OF ok], of b _ c] same_bit [OF ok(1), of b "sb s" c] sb blk
  by (cases "BBLOCK G c (sb s) = BBLOCK G b (sb s)") (auto simp: block_used_def)

lemma clear_used:
  fixes s t :: "'x fs_st_scheme"
  assumes ok: "fsh_ok G" "sized G s" and sb: "sb t = sb s"
    and blk: "blk t (BBLOCK G c (sb s)) = ((blk s)(BBLOCK G b (sb s) := clear_bit (b mod BPB G) (blk s (BBLOCK G b (sb s))))) (BBLOCK G c (sb s))"
  shows "block_used G t c \<longleftrightarrow> c \<noteq> b \<and> block_used G s c"
  using bit_free_clear [OF used_size [OF ok] used_size [OF ok], of b _ c] same_bit [OF ok(1), of b "sb s" c] sb blk
  by (cases "BBLOCK G c (sb s) = BBLOCK G b (sb s)") (auto simp: block_used_def)

lemma readsb_tx:
  fixes s :: "'x fs_st_scheme"
  assumes ok: "tx_ok G H s" and b: "1 < disksize s" "\<forall>i \<in> H. b_blockno (bufs s ! i) \<noteq> 1" and r: "lh_n s + int (card H) < int NBUF"
    and Q: "\<And>t. tx_quiet G H s t \<Longrightarrow> Q (sb_dec G (blk s 1)) t"
  shows "wp (readsb G 1) Q s"
  unfolding readsb_def wp_bindK wp_gets
proof (rule bread_tx [OF ok b r])
  fix i t assume p: "read_post G H 1 s i t"
  then have d: "b_data (bufs t ! i) = blk s 1" by (simp add: read_post_def bdata_def)
  show "wp (brelse i) (\<lambda>_. wp (ret (sb_dec G (b_data (bufs t ! i)))) Q) t"
    by (rule read_release_wp [OF ok b(2) p]) (use Q in \<open>simp add: d\<close>)
qed

definition bfree_post :: "fsh \<Rightarrow> nat set \<Rightarrow> nat \<Rightarrow> 'x fs_st_scheme \<Rightarrow> 'x fs_st_scheme \<Rightarrow> bool" where
  "bfree_post G H b s t \<longleftrightarrow> tx_ok G H t \<and> blk t = (blk s)(BBLOCK G b (sb s) := clear_bit (b mod BPB G) (blk s (BBLOCK G b (sb s)))) \<and>
     dirties t = insert (BBLOCK G b (sb s)) (dirties s) \<and> lh_n s \<le> lh_n t \<and> lh_n t \<le> lh_n s + 1 \<and> tx_same H s t"

lemma bfree_wp:
  fixes s :: "'x fs_st_scheme"
  assumes ok: "tx_ok G H s" and bm: "bitmap_ok G s" and hu: "held_used G H s" and r: "log_room 1 H s"
    and b: "b < sb_size (sb s)" "block_used G s b" and sb: "sb s = sb_dec G (blk s 1)" "1 < disksize s" "\<forall>i \<in> H. b_blockno (bufs s ! i) \<noteq> 1"
    and Q: "\<And>t. bfree_post G H b s t \<Longrightarrow> Q () t"
  shows "wp (bfree G 1 b) Q s"
  unfolding bfree_def wp_bindK [of "readsb G 1"]
proof (rule readsb_tx [OF ok sb(2,3)])
  let ?B = "BBLOCK G b (sb s)"
  show "lh_n s + int (card H) < int NBUF" using r by (simp add: log_room_def)
  fix t assume q: "tx_quiet G H s t"
  note K = quiet_keeps [OF q]
  have t: "tx_ok G H t" "t\<lparr>sb := sb s\<rparr> = t" "blk t = blk s" "tx_same H s t" "lh_n t = lh_n s" "dirties t = dirties s" using q K(5) by (auto simp: tx_quiet_def)
  note D = tx_sameD [OF t(4)] and B = BBLOCK_area [OF tx_held(3) [OF ok] b(1)]
  have B': "?B < disksize t" "\<forall>i \<in> H. b_blockno (bufs t ! i) \<noteq> ?B" "?B \<notin> log_area t"
    using bm hu B D by (auto simp: bitmap_ok_def held_used_def)
  let ?rest = "\<lambda>i. bindK (gets (bdata i)) (\<lambda>d. if bit_free d (b mod BPB G) then panic ''freeing free block''
     else seqK (set_bdata i (clear_bit (b mod BPB G))) (seqK (log_write i) (brelse i)))"
  have "wp (bread 1 ?B) (\<lambda>i. wp (?rest i) Q) t"
  proof (rule bread_tx [OF t(1) B'(1,2)])
    show "lh_n t + int (card H) < int NBUF" using r t(5) by (simp add: log_room_def)
    fix i u assume p: "read_post G H ?B t i u"
    then have p': "tx_ok G (insert i H) u" "b_blockno (bufs u ! i) = ?B" "bdata i u = blk s ?B" "blk u = blk s" "tx_same H t u" "lh_n u = lh_n s"
      "dirties u = dirties s" and e: "insert i H - {i} = H" using t by (auto simp: read_post_def)
    note E = tx_sameD [OF p'(5)] and same = tx_same_trans [OF t(4) p'(5)]
    have len: "length (blk s ?B) = BSIZE G" using ok by (simp add: tx_ok_def sized_def)
    have "wp (seqK (set_bdata i (clear_bit (b mod BPB G))) (seqK (log_write i) (brelse i))) Q u"
    proof (rule update_tail_wp [OF p'(1)], simp, goal_cases)
      case (4 v)
      then show ?case using p' tx_same_trans [OF same] by (intro Q) (auto simp: bfree_post_def e)
    qed (use p' B' E D r len in \<open>auto simp: log_room_def\<close>)
    then show "wp (?rest i) Q u" using b(2) p'(3) by (simp add: block_used_def)
  qed
  then show "wp (seqK (modify (\<lambda>s'. s'\<lparr>sb := sb_dec G (blk s 1)\<rparr>)) (bindK (bread 1 (BBLOCK G b (sb_dec G (blk s 1)))) ?rest)) Q t"
    using t(2) sb(1) by simp
qed


section \<open>Properties\<close>

lemma balloc_bits:
  fixes s t :: "'x fs_st_scheme"
  assumes "tx_ok G H s" "bitmap_ok G s" "held_used G H s" "balloc_post G H s b t"
  shows "\<forall>c < sb_size (sb s). block_used G t c \<longleftrightarrow> c = b \<or> block_used G s c" "b \<notin> bitmap_area G s"
    "\<forall>c. c \<noteq> b \<and> c \<notin> bitmap_area G s \<longrightarrow> blk t c = blk s c" "blk t b = replicate (BSIZE G) 0" "sb t = sb s"
proof -
  have F: "fsh_ok G" "sized G s" using assms(1) by (auto simp: tx_ok_def)
  have p: "b < sb_size (sb s)" "\<not> block_used G s b" "tx_same H s t"
    "blk t = (blk s)(BBLOCK G b (sb s) := mark_bit (b mod BPB G) (blk s (BBLOCK G b (sb s))), b := replicate (BSIZE G) 0)"
    using assms(4) by (auto simp: balloc_post_def)
  show sb: "sb t = sb s" by (rule tx_sameD [OF p(3)])
  show nb: "b \<notin> bitmap_area G s" by (rule free_block [OF assms(2,3) F(1) p(1,2)])
  show "\<forall>c < sb_size (sb s). block_used G t c \<longleftrightarrow> c = b \<or> block_used G s c"
  proof (intro allI impI)
    fix c assume c: "c < sb_size (sb s)"
    then have "BBLOCK G c (sb s) \<noteq> b" using BBLOCK_area [OF F(1) c] nb by auto
    then show "block_used G t c \<longleftrightarrow> c = b \<or> block_used G s c" using p(4) sb by (intro mark_used [OF F]) auto
  qed
  show "\<forall>c. c \<noteq> b \<and> c \<notin> bitmap_area G s \<longrightarrow> blk t c = blk s c" "blk t b = replicate (BSIZE G) 0"
    using p(4) BBLOCK_area [OF F(1) p(1)] by auto
qed

text \<open>
  C20.  Block allocation.  Inside a transaction with room for two more blocks, on a disk with a free block,
  \<open>balloc\<close> returns the lowest free block number.  It marks that block in the bitmap and no other, it zeroes the
  block, and it leaves every other block outside the bitmap as it was.  The log and cache invariant holds
  after it.
\<close>

theorem balloc_lowest_free:
  fixes s :: "'x fs_st_scheme"
  assumes "tx_ok G {} s" "bitmap_ok G s" "log_room 2 {} s" "\<exists>b < sb_size (sb s). \<not> block_used G s b"
  shows "wp (balloc G 1) (\<lambda>b t. b < sb_size (sb s) \<and> \<not> block_used G s b \<and> (\<forall>c < b. block_used G s c) \<and>
     (\<forall>c < sb_size (sb s). block_used G t c \<longleftrightarrow> c = b \<or> block_used G s c) \<and> blk t b = replicate (BSIZE G) 0 \<and>
     (\<forall>c. c \<noteq> b \<and> c \<notin> bitmap_area G s \<longrightarrow> blk t c = blk s c) \<and> tx_ok G {} t \<and> lh_n t \<le> lh_n s + 2) s"
proof (rule balloc_wp [OF assms(1,2) _ assms(3,4)])
  show h: "held_used G {} s" by (simp add: held_used_def)
  fix b t assume p: "balloc_post G {} s b t"
  note B = balloc_bits [OF assms(1,2) h p]
  show "b < sb_size (sb s) \<and> \<not> block_used G s b \<and> (\<forall>c < b. block_used G s c) \<and>
     (\<forall>c < sb_size (sb s). block_used G t c \<longleftrightarrow> c = b \<or> block_used G s c) \<and> blk t b = replicate (BSIZE G) 0 \<and>
     (\<forall>c. c \<noteq> b \<and> c \<notin> bitmap_area G s \<longrightarrow> blk t c = blk s c) \<and> tx_ok G {} t \<and> lh_n t \<le> lh_n s + 2"
    using p by (intro conjI B) (auto simp: balloc_post_def)
qed

text \<open>
  A disk of 60 blocks: the super block in block 1, the log in blocks 2 to 31, the bitmap in block 45, which marks
  blocks 0 to 47.
\<close>

definition demo_sb :: superblock where
  "demo_sb = \<lparr>sb_size = 60, sb_nblocks = 12, sb_ninodes = 104, sb_nlog = 30, sb_logstart = 2, sb_inodestart = 32, sb_bmapstart = 45\<rparr>"

definition demo_disk :: "nat \<Rightarrow> byte list" where
  "demo_disk b = (if b = 1 then concat (map le32 [60, 12, 104, 30, 2, 32, 45]) @ replicate 484 0
     else if b = 45 then replicate 6 (- 1) @ replicate 506 0 else replicate 512 0)"

lemma demo_sb_dec: "sb_dec xv6_fsh (demo_disk 1) = demo_sb"
  using un32s_le32 [of "[60, 12, 104, 30, 2, 32, 45]" 7 "replicate 484 0"]
  by (simp add: demo_disk_def demo_sb_def xv6_fsh_def Let_def del: un32s.simps)

lemma demo_fs_ex:
  "\<exists>s :: fs_st. tx_ok xv6_fsh {} s \<and> blk s = demo_disk \<and> sb s = demo_sb \<and> inodes s = is \<and> log_room k {} s = (k < 30) \<and> bitmap_ok xv6_fsh s \<and>
     (\<forall>b < 60. block_used xv6_fsh s b \<longleftrightarrow> b < 48) \<and> disksize s = 1000 \<and> log_area s = {2..<32} \<and> log_start s = 2 \<and> log_size s = 30 \<and>
     (\<forall>j. slocks s (SlInode j) = \<lparr>sl_locked = 0, sl_name = [], sl_pid = 0\<rparr>) \<and> km s = demo_mach True"
proof -
  have len: "\<forall>b. length (demo_disk b) = 512" by (simp add: demo_disk_def le32_def)
  obtain s :: fs_st where s: "tx_ok xv6_fsh {} s" "disk s = demo_disk" "lh_n s = 0" "outstanding s = 1" "log_start s = 2" "log_size s = 30"
    "disksize s = 1000" "log_st.more s = fs_st.fields demo_sb is" "\<forall>j. slocks s (SlInode j) = \<lparr>sl_locked = 0, sl_name = [], sl_pid = 0\<rparr>"
    "km s = demo_mach True"
    using demo_log_any [OF len, where x = "fs_st.fields demo_sb is"] by blast
  have f: "sb s = demo_sb" "inodes s = is" using s(8) by (cases s; simp add: fs_st.defs)+
  have t: "bc_inv {} s" "dirties s = {}" using s(1,3) by (auto simp: tx_ok_def logged_def)
  have z: "blk s = demo_disk" using blk_clean [OF t(1)] t(2) s(2) by (simp add: fun_eq_iff)
  have u: "block_used xv6_fsh s b \<longleftrightarrow> b < 48" if "b < 60" for b
  proof -
    have "b div 8 < 6 \<longleftrightarrow> b < 48" by auto
    then show ?thesis using that z f(1)
      by (auto simp: block_used_def bit_free_iff demo_disk_def demo_sb_def xv6_fsh_def nth_append)
  qed
  have a: "bitmap_area xv6_fsh s = {45}" using f by (auto simp: bitmap_area_def bitmap_blocks_def demo_sb_def xv6_fsh_def)
  have l: "log_area s = {2..<32}" using s by (auto simp: log_area_def)
  have "bitmap_ok xv6_fsh s" using u a l f(1) s(7) by (simp add: bitmap_ok_def demo_sb_def)
  moreover have "log_room k {} s = (k < 30)" using s(3,4,6) by (auto simp: log_room_def param_defs)
  ultimately show ?thesis using s(1,5,6,7,9,10) z f u l by blast
qed


theorem balloc_lowest_free_witness:
  "\<exists>s :: fs_st. tx_ok xv6_fsh {} s \<and> bitmap_ok xv6_fsh s \<and> log_room 2 {} s \<and>
     wp (balloc xv6_fsh 1) (\<lambda>b t. b = 48 \<and> block_used xv6_fsh t 48 \<and> \<not> block_used xv6_fsh t 49 \<and> blk t 48 = replicate 512 0) s"
proof -
  obtain s :: fs_st where s: "tx_ok xv6_fsh {} s" "bitmap_ok xv6_fsh s" "log_room 2 {} s" "sb s = demo_sb" "\<forall>b < 60. block_used xv6_fsh s b \<longleftrightarrow> b < 48"
    using demo_fs_ex [of "[]" 2] by auto
  have "\<exists>b < sb_size (sb s). \<not> block_used xv6_fsh s b" using s(4,5) by (intro exI [of _ 48]) (simp add: demo_sb_def)
  note T = balloc_lowest_free [OF s(1-3) this]
  have "wp (balloc xv6_fsh 1) (\<lambda>b t. b = 48 \<and> block_used xv6_fsh t 48 \<and> \<not> block_used xv6_fsh t 49 \<and> blk t 48 = replicate 512 0) s"
  proof (rule wp_mono [OF T], elim conjE, intro conjI)
    fix b t assume b: "b < sb_size (sb s)" "\<not> block_used xv6_fsh s b" "\<forall>c < b. block_used xv6_fsh s c"
      "\<forall>c < sb_size (sb s). block_used xv6_fsh t c \<longleftrightarrow> c = b \<or> block_used xv6_fsh s c" "blk t b = replicate (BSIZE xv6_fsh) 0"
    have "\<not> b < 48" "\<not> 48 < b" using b(1-3) s(4,5) by (auto simp: demo_sb_def dest: spec [of _ 48])
    then show e: "b = 48" by simp
    show "block_used xv6_fsh t 48" "\<not> block_used xv6_fsh t 49" "blk t 48 = replicate 512 0"
      using b(4,5) e s(4,5) by (auto simp: demo_sb_def xv6_fsh_def)
  qed
  then show ?thesis using s by blast
qed

text \<open>The super block in memory is the one on disk, and its block is in use and no bitmap block.\<close>

definition sb_ok :: "fsh \<Rightarrow> 'x fs_st_scheme \<Rightarrow> bool" where
  "sb_ok G s \<longleftrightarrow> sb s = sb_dec G (blk s 1) \<and> 1 < disksize s \<and> 1 < sb_size (sb s) \<and> 1 \<notin> bitmap_area G s \<and> block_used G s 1"

lemma balloc_keeps:
  fixes s t :: "'x fs_st_scheme"
  assumes ok: "tx_ok G {} s" and bm: "bitmap_ok G s" and so: "sb_ok G s" and p: "balloc_post G {} s b t"
  shows "bitmap_ok G t" "sb_ok G t" "block_used G t b" "b < sb_size (sb t)" "BBLOCK G b (sb t) = BBLOCK G b (sb s)"
    "blk t (BBLOCK G b (sb s)) = mark_bit (b mod BPB G) (blk s (BBLOCK G b (sb s)))"
proof -
  have h: "held_used G {} s" by (simp add: held_used_def)
  note B = balloc_bits [OF ok bm h p] and D = tx_sameD [of "{}" s t]
  have p': "b < sb_size (sb s)" "tx_same {} s t" "\<not> block_used G s b"
    "blk t = (blk s)(BBLOCK G b (sb s) := mark_bit (b mod BPB G) (blk s (BBLOCK G b (sb s))), b := replicate (BSIZE G) 0)"
    using p by (auto simp: balloc_post_def)
  have a: "bitmap_area G t = bitmap_area G s" using B(5) by (simp add: bitmap_area_def)
  show "bitmap_ok G t" using bm B(1,5) D(3,4) [OF p'(2)] a by (simp add: bitmap_ok_def)
  have o: "1 < sb_size (sb s)" "1 < disksize s" "1 \<notin> bitmap_area G s" "block_used G s 1" and e: "sb_dec G (blk s 1) = sb s"
    using so unfolding sb_ok_def by auto
  then have "blk t 1 = blk s 1" "block_used G t 1" using B(1,3) p'(3) by metis+
  then show "sb_ok G t" using o e B(5) D(3) [OF p'(2)] a by (simp add: sb_ok_def)
  show "block_used G t b" "b < sb_size (sb t)" "BBLOCK G b (sb t) = BBLOCK G b (sb s)" using B(1,5) p'(1) by simp_all
  show "blk t (BBLOCK G b (sb s)) = mark_bit (b mod BPB G) (blk s (BBLOCK G b (sb s)))"
    using p'(4) B(2) BBLOCK_area [OF tx_held(3) [OF ok] p'(1)] by auto
qed

text \<open>
  C21.  Allocation and release.  Releasing with \<open>bfree\<close> the block that \<open>balloc\<close> returned gives back exactly the
  free bitmap of before: every block is in use if and only if it was.  Neither call panics.
\<close>

theorem balloc_bfree:
  fixes s :: "'x fs_st_scheme"
  assumes "tx_ok G {} s" "bitmap_ok G s" "sb_ok G s" "log_room 3 {} s" "\<exists>b < sb_size (sb s). \<not> block_used G s b"
  shows "wp (bindK (balloc G 1) (bfree G 1)) (\<lambda>_ t. tx_ok G {} t \<and> bitmap_ok G t \<and>
     (\<forall>c < sb_size (sb s). block_used G t c \<longleftrightarrow> block_used G s c)) s"
  unfolding wp_bindK
proof (rule balloc_wp [OF assms(1,2) _ _ assms(5)])
  show h: "held_used G {} s" and "log_room 2 {} s" using assms(4) by (auto simp: held_used_def log_room_def)
  fix b t assume p: "balloc_post G {} s b t"
  note K = balloc_keeps [OF assms(1-3) p] and B = balloc_bits [OF assms(1,2) h p]
  have t: "tx_ok G {} t" "log_room 1 {} t" "\<not> block_used G s b" "held_used G {} t"
    using p assms(4) tx_sameD [of "{}" s t] by (auto simp: balloc_post_def log_room_def held_used_def)
  show "wp (bfree G 1 b) (\<lambda>_ t. tx_ok G {} t \<and> bitmap_ok G t \<and> (\<forall>c < sb_size (sb s). block_used G t c \<longleftrightarrow> block_used G s c)) t"
  proof (rule bfree_wp [OF t(1) K(1) t(4,2) K(4,3)])
    show "sb t = sb_dec G (blk t 1)" "1 < disksize t" using K(2) by (auto simp: sb_ok_def)
    fix u assume u: "bfree_post G {} b t u"
    then have u': "tx_ok G {} u" "tx_same {} t u"
      "blk u = (blk t)(BBLOCK G b (sb t) := clear_bit (b mod BPB G) (blk t (BBLOCK G b (sb t))))" by (auto simp: bfree_post_def)
    note D = tx_sameD [OF u'(2)]
    have c: "block_used G u c \<longleftrightarrow> c \<noteq> b \<and> block_used G t c" for c
      by (rule clear_used) (use t(1) D u'(3) in \<open>auto simp: tx_ok_def\<close>)
    then have e: "\<forall>c < sb_size (sb s). block_used G u c \<longleftrightarrow> block_used G s c" using B(1) t(3) by auto
    have "bitmap_area G u = bitmap_area G s" "log_area u = log_area s" "disksize u = disksize s" "sb u = sb s"
      using D B(5) tx_sameD(3,4) [of "{}" s t] p by (auto simp: bitmap_area_def balloc_post_def)
    then show "tx_ok G {} u \<and> bitmap_ok G u \<and> (\<forall>c < sb_size (sb s). block_used G u c \<longleftrightarrow> block_used G s c)"
      using u'(1) e assms(2) by (simp add: bitmap_ok_def)
  qed simp
qed

theorem balloc_bfree_witness:
  "\<exists>s :: fs_st. tx_ok xv6_fsh {} s \<and> bitmap_ok xv6_fsh s \<and> sb_ok xv6_fsh s \<and> log_room 3 {} s \<and>
     wp (bindK (balloc xv6_fsh 1) (bfree xv6_fsh 1)) (\<lambda>_ t. tx_ok xv6_fsh {} t \<and> bitmap_ok xv6_fsh t \<and>
     (\<forall>c < sb_size (sb s). block_used xv6_fsh t c \<longleftrightarrow> block_used xv6_fsh s c)) s"
proof -
  obtain s :: fs_st where s: "tx_ok xv6_fsh {} s" "bitmap_ok xv6_fsh s" "log_room 3 {} s" "sb s = demo_sb" "\<forall>b < 60. block_used xv6_fsh s b \<longleftrightarrow> b < 48"
    "blk s = demo_disk" "disksize s = 1000" using demo_fs_ex [of "[]" 3] by auto
  have f: "\<exists>b < sb_size (sb s). \<not> block_used xv6_fsh s b" using s(4,5) by (intro exI [of _ 48]) (simp add: demo_sb_def)
  have o: "sb_ok xv6_fsh s"
    unfolding sb_ok_def s(6) demo_sb_dec s(4)
    using s(4,5,7) by (simp add: demo_sb_def xv6_fsh_def bitmap_area_def bitmap_blocks_def)
  show ?thesis using balloc_bfree [OF s(1,2) o s(3) f] s(1-3) o by blast
qed

end
