(* ===== verification/Vm.thy ===== *)
theory Vm
  imports Proc
begin

unbundle bit_operations_syntax

text \<open>
  Page tables (\<open>vm.c\<close> and the address macros of \<open>mmu.h\<close>).  A page directory and the page tables below
  it are pages of \<open>ram\<close>, read and written as arrays of 1024 little-endian words.  A pointer to an entry is
  the address of its page with the index of the entry, a null pointer None.  The messages \<open>allocuvm\<close> prints
  on the console are left out.  Reading through a null pointer is a panic of the model.

  The loops over pages are over the list of the values their index takes.  The sizes they get are at most
  \<open>KERNBASE\<close>, so no index wraps around.  The loop of \<open>mappages\<close> ends at an address and has as fuel
  the number of pages up to it.
\<close>

section \<open>Addresses and entries\<close>

definition DEVSPACE :: u32 where [param_defs]: "DEVSPACE = 0xFE000000"

definition KERNLINK :: u32 where [param_defs]: "KERNLINK = KERNBASE + EXTMEM"

definition PDX :: "u32 \<Rightarrow> nat" where
  "PDX va = unat (drop_bit 22 va AND 0x3FF)"

definition PTX :: "u32 \<Rightarrow> nat" where
  "PTX va = unat (drop_bit 12 va AND 0x3FF)"

definition PGADDR :: "u32 \<Rightarrow> u32 \<Rightarrow> u32 \<Rightarrow> u32" where
  "PGADDR d t off = push_bit 22 d OR push_bit 12 t OR off"

definition PTE_P :: u32 where [param_defs]: "PTE_P = 1"

definition PTE_W :: u32 where [param_defs]: "PTE_W = 2"

definition PTE_U :: u32 where [param_defs]: "PTE_U = 4"

definition PTE_ADDR :: "u32 \<Rightarrow> u32" where
  "PTE_ADDR pte = pte AND NOT 0xFFF"

definition PTE_FLAGS :: "u32 \<Rightarrow> u32" where
  "PTE_FLAGS pte = pte AND 0xFFF"

type_synonym pteref = "u32 \<times> nat"

definition get_pte :: "pteref \<Rightarrow> 'x mem_st_scheme \<Rightarrow> u32" where
  "get_pte r s = get32 (4 * snd r) (ram s (fst r))"

definition set_pte :: "pteref \<Rightarrow> u32 \<Rightarrow> ('x mem_st_scheme, unit) kop" where
  "set_pte r v = modify (\<lambda>s. s\<lparr>ram := (ram s)(fst r := put32 (4 * snd r) v (ram s (fst r)))\<rparr>)"

definition set_page :: "u32 \<Rightarrow> byte list \<Rightarrow> ('x mem_st_scheme, unit) kop" where
  "set_page v d = modify (\<lambda>s. s\<lparr>ram := (ram s)(v := d)\<rparr>)"

text \<open>The addresses \<open>a\<close>, \<open>a + PGSIZE\<close>, ... below \<open>lim\<close>.\<close>

definition page_addrs :: "u32 \<Rightarrow> u32 \<Rightarrow> u32 list" where
  "page_addrs a lim = map (\<lambda>k. a + of_nat k * PGSIZE) [0..<(unat lim - unat a + 4095) div 4096]"

section \<open>Mapping pages\<close>

definition walkpgdir :: "u32 \<Rightarrow> u32 \<Rightarrow> bool \<Rightarrow> ('x mem_st_scheme, pteref option) kop" where
  "walkpgdir pgdir va alloc =
     bindK (gets (get_pte (pgdir, PDX va))) (\<lambda>pde.
     if pde AND PTE_P \<noteq> 0 then ret (Some (P2V (PTE_ADDR pde), PTX va))
     else if \<not> alloc then ret None
     else bindK kalloc (\<lambda>pgtab.
          if pgtab = 0 then ret None
          else seqK (set_page pgtab (replicate 4096 0)) (
               seqK (set_pte (pgdir, PDX va) (V2P pgtab OR PTE_P OR PTE_W OR PTE_U))
               (ret (Some (pgtab, PTX va))))))"

fun mappages_loop :: "nat \<Rightarrow> u32 \<Rightarrow> u32 \<Rightarrow> u32 \<Rightarrow> u32 \<Rightarrow> u32 \<Rightarrow> ('x mem_st_scheme, int) kop" where
  "mappages_loop 0 pgdir a lst pa perm = panic ''out of fuel''"
| "mappages_loop (Suc n) pgdir a lst pa perm =
     bindK (walkpgdir pgdir a True) (\<lambda>r. case r of
       None \<Rightarrow> ret (- 1)
     | Some pte \<Rightarrow>
       bindK (gets (get_pte pte)) (\<lambda>e.
       if e AND PTE_P \<noteq> 0 then panic ''remap''
       else seqK (set_pte pte (pa OR perm OR PTE_P)) (
            if a = lst then ret 0
            else mappages_loop n pgdir (a + PGSIZE) lst (pa + PGSIZE) perm)))"

definition mappages :: "u32 \<Rightarrow> u32 \<Rightarrow> u32 \<Rightarrow> u32 \<Rightarrow> u32 \<Rightarrow> ('x mem_st_scheme, int) kop" where
  "mappages pgdir va sz pa perm =
     (let a = PGROUNDDOWN va; lst = PGROUNDDOWN (va + sz - 1)
      in mappages_loop (Suc (unat (lst - a) div 4096)) pgdir a lst pa perm)"

text \<open>The table \<open>kmap\<close>: virtual address, physical start and end, permissions.\<close>

definition kmap :: "'x mem_st_scheme \<Rightarrow> (u32 \<times> u32 \<times> u32 \<times> u32) list" where
  "kmap s = [(KERNBASE, 0, EXTMEM, PTE_W),
     (KERNLINK, V2P KERNLINK, V2P (kdata s), 0),
     (kdata s, V2P (kdata s), PHYSTOP, PTE_W),
     (DEVSPACE, DEVSPACE, 0, PTE_W)]"

section \<open>Releasing pages\<close>

text \<open>The next value of \<open>a\<close> where there is no page table for \<open>a\<close>, before the increment.\<close>

definition skip_table :: "u32 \<Rightarrow> u32" where
  "skip_table a = PGADDR (of_nat (PDX a) + 1) 0 0 - PGSIZE"

fun deallocuvm_loop :: "nat \<Rightarrow> u32 \<Rightarrow> u32 \<Rightarrow> u32 \<Rightarrow> ('x mem_st_scheme, unit) kop" where
  "deallocuvm_loop 0 pgdir a oldsz = (if a < oldsz then panic ''out of fuel'' else ret ())"
| "deallocuvm_loop (Suc n) pgdir a oldsz =
     (if a < oldsz then
        bindK (walkpgdir pgdir a False) (\<lambda>r. case r of
          None \<Rightarrow> deallocuvm_loop n pgdir (skip_table a + PGSIZE) oldsz
        | Some pte \<Rightarrow>
          bindK (gets (get_pte pte)) (\<lambda>e.
          seqK (whenK (e AND PTE_P \<noteq> 0) (
            if PTE_ADDR e = 0 then panic ''kfree''
            else seqK (kfree (P2V (PTE_ADDR e))) (set_pte pte 0)))
          (deallocuvm_loop n pgdir (a + PGSIZE) oldsz)))
      else ret ())"

definition deallocuvm :: "u32 \<Rightarrow> u32 \<Rightarrow> u32 \<Rightarrow> ('x mem_st_scheme, u32) kop" where
  "deallocuvm pgdir oldsz newsz =
     (if newsz \<ge> oldsz then ret oldsz
      else seqK (deallocuvm_loop (Suc (unat oldsz div 4096)) pgdir (PGROUNDUP newsz) oldsz) (ret newsz))"

fun free_tables :: "u32 \<Rightarrow> nat list \<Rightarrow> ('x mem_st_scheme, unit) kop" where
  "free_tables pgdir [] = ret ()"
| "free_tables pgdir (i # is) =
     bindK (gets (get_pte (pgdir, i))) (\<lambda>e.
     seqK (whenK (e AND PTE_P \<noteq> 0) (kfree (P2V (PTE_ADDR e))))
     (free_tables pgdir is))"

definition freevm :: "u32 \<Rightarrow> ('x mem_st_scheme, unit) kop" where
  "freevm pgdir =
     (if pgdir = 0 then panic ''freevm: no pgdir''
      else seqK (deallocuvm pgdir KERNBASE 0) (
           seqK (free_tables pgdir [0..<1024])
           (kfree pgdir)))"

section \<open>Address spaces\<close>

fun setupkvm_maps :: "u32 \<Rightarrow> (u32 \<times> u32 \<times> u32 \<times> u32) list \<Rightarrow> ('x mem_st_scheme, u32) kop" where
  "setupkvm_maps pgdir [] = ret pgdir"
| "setupkvm_maps pgdir ((virt, phys_start, phys_end, perm) # ks) =
     bindK (mappages pgdir virt (phys_end - phys_start) phys_start perm) (\<lambda>r.
     if r < 0 then seqK (freevm pgdir) (ret 0)
     else setupkvm_maps pgdir ks)"

definition setupkvm :: "('x mem_st_scheme, u32) kop" where
  "setupkvm = bindK kalloc (\<lambda>pgdir.
     if pgdir = 0 then ret 0
     else seqK (set_page pgdir (replicate 4096 0)) (
          if P2V PHYSTOP > DEVSPACE then panic ''PHYSTOP too high''
          else bindK (gets kmap) (setupkvm_maps pgdir)))"

definition kvmalloc :: "('x pt_st_scheme, unit) kop" where
  "kvmalloc = bindK setupkvm (\<lambda>d. seqK (modify (\<lambda>s. s\<lparr>kpgdir := d\<rparr>)) switchkvm)"

definition inituvm :: "u32 \<Rightarrow> byte list \<Rightarrow> ('x mem_st_scheme, unit) kop" where
  "inituvm pgdir init =
     (if length init \<ge> 4096 then panic ''inituvm: more than a page''
      else bindK kalloc (\<lambda>mem.
           if mem = 0 then panic ''null dereference''
           else seqK (set_page mem (replicate 4096 0)) (
                bindK (mappages pgdir 0 PGSIZE (V2P mem) (PTE_W OR PTE_U)) (\<lambda>_.
                modify (\<lambda>s. s\<lparr>ram := (ram s)(mem := init @ drop (length init) (ram s mem))\<rparr>)))))"

fun allocuvm_loop :: "u32 \<Rightarrow> u32 \<Rightarrow> u32 \<Rightarrow> u32 list \<Rightarrow> ('x mem_st_scheme, u32) kop" where
  "allocuvm_loop pgdir oldsz newsz [] = ret newsz"
| "allocuvm_loop pgdir oldsz newsz (a # as) =
     bindK kalloc (\<lambda>mem.
     if mem = 0 then seqK (deallocuvm pgdir newsz oldsz) (ret 0)
     else seqK (set_page mem (replicate 4096 0)) (
          bindK (mappages pgdir a PGSIZE (V2P mem) (PTE_W OR PTE_U)) (\<lambda>r.
          if r < 0 then seqK (deallocuvm pgdir newsz oldsz) (seqK (kfree mem) (ret 0))
          else allocuvm_loop pgdir oldsz newsz as)))"

definition allocuvm :: "u32 \<Rightarrow> u32 \<Rightarrow> u32 \<Rightarrow> ('x mem_st_scheme, u32) kop" where
  "allocuvm pgdir oldsz newsz =
     (if newsz \<ge> KERNBASE then ret 0
      else if newsz < oldsz then ret oldsz
      else allocuvm_loop pgdir oldsz newsz (page_addrs (PGROUNDUP oldsz) newsz))"

definition clearpteu :: "u32 \<Rightarrow> u32 \<Rightarrow> ('x mem_st_scheme, unit) kop" where
  "clearpteu pgdir uva = bindK (walkpgdir pgdir uva False) (\<lambda>r. case r of
       None \<Rightarrow> panic ''clearpteu''
     | Some pte \<Rightarrow> bindK (gets (get_pte pte)) (\<lambda>e. set_pte pte (e AND NOT PTE_U)))"

fun copyuvm_loop :: "u32 \<Rightarrow> u32 \<Rightarrow> u32 list \<Rightarrow> ('x mem_st_scheme, u32) kop" where
  "copyuvm_loop pgdir d [] = ret d"
| "copyuvm_loop pgdir d (i # is) =
     bindK (walkpgdir pgdir i False) (\<lambda>r. case r of
       None \<Rightarrow> panic ''copyuvm: pte should exist''
     | Some pte \<Rightarrow>
       bindK (gets (get_pte pte)) (\<lambda>e.
       if e AND PTE_P = 0 then panic ''copyuvm: page not present''
       else bindK kalloc (\<lambda>mem.
            if mem = 0 then seqK (freevm d) (ret 0)
            else seqK (modify (\<lambda>s. s\<lparr>ram := (ram s)(mem := ram s (P2V (PTE_ADDR e)))\<rparr>)) (
                 bindK (mappages d i PGSIZE (V2P mem) (PTE_FLAGS e)) (\<lambda>r.
                 if r < 0 then seqK (freevm d) (ret 0)
                 else copyuvm_loop pgdir d is)))))"

definition copyuvm :: "u32 \<Rightarrow> u32 \<Rightarrow> ('x mem_st_scheme, u32) kop" where
  "copyuvm pgdir sz = bindK setupkvm (\<lambda>d. if d = 0 then ret 0 else copyuvm_loop pgdir d (page_addrs 0 sz))"

definition uva2ka :: "u32 \<Rightarrow> u32 \<Rightarrow> ('x mem_st_scheme, u32) kop" where
  "uva2ka pgdir uva = bindK (walkpgdir pgdir uva False) (\<lambda>r. case r of
       None \<Rightarrow> panic ''null dereference''
     | Some pte \<Rightarrow>
       bindK (gets (get_pte pte)) (\<lambda>e.
       if e AND PTE_P = 0 then ret 0
       else if e AND PTE_U = 0 then ret 0
       else ret (P2V (PTE_ADDR e))))"

text \<open>\<open>memmove\<close> of \<open>bs\<close> to offset \<open>off\<close> of the page at \<open>v\<close>.\<close>

definition move_in :: "u32 \<Rightarrow> nat \<Rightarrow> byte list \<Rightarrow> ('x mem_st_scheme, unit) kop" where
  "move_in v off bs = modify (\<lambda>s. s\<lparr>ram := (ram s)(v := take off (ram s v) @ bs @ drop (off + length bs) (ram s v))\<rparr>)"

text \<open>The loop of \<open>copyout\<close>.  An iteration copies at least one byte.\<close>

fun copyout_loop :: "nat \<Rightarrow> u32 \<Rightarrow> u32 \<Rightarrow> byte list \<Rightarrow> ('x mem_st_scheme, int) kop" where
  "copyout_loop 0 pgdir va bs = (if bs \<noteq> [] then panic ''out of fuel'' else ret 0)"
| "copyout_loop (Suc n) pgdir va bs =
     (if bs = [] then ret 0
      else let va0 = PGROUNDDOWN va in
        bindK (uva2ka pgdir va0) (\<lambda>pa0.
        if pa0 = 0 then ret (- 1)
        else let m = min (4096 - unat (va - va0)) (length bs) in
          seqK (move_in pa0 (unat (va - va0)) (take m bs))
          (copyout_loop n pgdir (va0 + PGSIZE) (drop m bs))))"

definition copyout :: "u32 \<Rightarrow> u32 \<Rightarrow> byte list \<Rightarrow> ('x mem_st_scheme, int) kop" where
  "copyout pgdir va bs = copyout_loop (length bs) pgdir va bs"


section \<open>User memory\<close>

text \<open>
  The translation the processor does with the page directory in \<open>cr3\<close>: the page and the offset a virtual
  address refers to.  Kernel code reads present pages and writes those that are also writable; an access to
  any other address is a page fault in the kernel, after which \<open>trap\<close> panics.
\<close>

definition xlate :: "u32 \<Rightarrow> u32 \<Rightarrow> 'x pt_st_scheme \<Rightarrow> (u32 \<times> nat) option" where
  "xlate need va s =
     (let pde = get_pte (P2V (cr3 s), PDX va) s;
          pte = get_pte (P2V (PTE_ADDR pde), PTX va) s
      in if pde AND PTE_P \<noteq> 0 \<and> pte AND need = need then Some (P2V (PTE_ADDR pte), unat (va AND 0xFFF)) else None)"

definition load8 :: "u32 \<Rightarrow> ('x pt_st_scheme, byte) kop" where
  "load8 va = bindK (gets (xlate PTE_P va)) (\<lambda>r. case r of
       None \<Rightarrow> panic ''page fault''
     | Some (v, off) \<Rightarrow> gets (\<lambda>s. ram s v ! off))"

definition store8 :: "u32 \<Rightarrow> byte \<Rightarrow> ('x pt_st_scheme, unit) kop" where
  "store8 va c = bindK (gets (xlate (PTE_P OR PTE_W) va)) (\<lambda>r. case r of
       None \<Rightarrow> panic ''page fault''
     | Some (v, off) \<Rightarrow> modify (\<lambda>s. s\<lparr>ram := (ram s)(v := (ram s v)[off := c])\<rparr>))"

fun loadn :: "nat \<Rightarrow> u32 \<Rightarrow> ('x pt_st_scheme, byte list) kop" where
  "loadn 0 va = ret []"
| "loadn (Suc n) va = bindK (load8 va) (\<lambda>c. bindK (loadn n (va + 1)) (\<lambda>cs. ret (c # cs)))"

fun storen :: "u32 \<Rightarrow> byte list \<Rightarrow> ('x pt_st_scheme, unit) kop" where
  "storen va [] = ret ()"
| "storen va (c # cs) = seqK (store8 va c) (storen (va + 1) cs)"

definition uload32 :: "u32 \<Rightarrow> ('x pt_st_scheme, u32) kop" where
  "uload32 va = bindK (loadn 4 va) (\<lambda>bs. ret (get32 0 bs))"

definition ustore32 :: "u32 \<Rightarrow> u32 \<Rightarrow> ('x pt_st_scheme, unit) kop" where
  "ustore32 va v = storen va (le32 v)"

end
