(* ===== verification/File.thy ===== *)
theory File
  imports Fs_Blocks Vm
begin

text \<open>
  Open files (\<open>file.c\<close>, \<open>file.h\<close>) and pipes (\<open>pipe.c\<close>).  A file pointer is an index of \<open>ftable.file\<close>, a
  pipe pointer the address of the page \<open>kalloc\<close> gave, through which \<open>pipes\<close> gives its \<open>struct pipe\<close>.  Reads
  return the bytes they copy to the caller's buffer with the count, writes take the bytes of the buffer.

  \<open>await\<close> is a \<open>sleep\<close> in the middle of a routine: the process leaves the processor there.  What it does
  when it is scheduled again is the \<open>_resume\<close> routine of the same name.
\<close>

section \<open>State\<close>

datatype fdtype = FD_NONE | FD_PIPE | FD_INODE

record ofile =
  f_type :: fdtype
  f_ref :: int
  f_readable :: bool
  f_writable :: bool
  f_pipe :: u32
  f_ip :: "nat option"
  f_off :: nat

record pipe =
  pi_data :: "byte list"
  pi_nread :: u32
  pi_nwrite :: u32
  pi_readopen :: bool
  pi_writeopen :: bool

record file_st = fs_st +
  files :: "ofile list"
  pipes :: "u32 \<Rightarrow> pipe"

definition PIPESIZE :: nat where [param_defs]: "PIPESIZE = 512"

definition upd_file :: "nat \<Rightarrow> (ofile \<Rightarrow> ofile) \<Rightarrow> 'x file_st_scheme \<Rightarrow> 'x file_st_scheme" where
  "upd_file f g s = s\<lparr>files := (files s)[f := g (files s ! f)]\<rparr>"

definition upd_pipe :: "u32 \<Rightarrow> (pipe \<Rightarrow> pipe) \<Rightarrow> 'x file_st_scheme \<Rightarrow> 'x file_st_scheme" where
  "upd_pipe p g s = s\<lparr>pipes := (pipes s)(p := g (pipes s p))\<rparr>"

abbreviation LkPp :: "u32 \<Rightarrow> lockid" where "LkPp p \<equiv> LkPipe (unat p)"

definition await :: "chan \<Rightarrow> lockid \<Rightarrow> ('x pt_st_scheme, 'a) kop" where
  "await ch l = bindK (sleep (Some ch) (Some l)) (\<lambda>_. panic ''sleep returned'')"

definition my_killed :: "('x pt_st_scheme, bool) kop" where
  "my_killed = bindK (onm myproc) (\<lambda>po. case po of
     None \<Rightarrow> panic ''null dereference'' | Some p \<Rightarrow> gets (\<lambda>s. p_killed (procs s ! p)))"

section \<open>Pipes\<close>

definition pipeclose :: "u32 \<Rightarrow> bool \<Rightarrow> ('x file_st_scheme, unit) kop" where
  "pipeclose p wr =
     seqK (onm (acquire (LkPp p))) (
     seqK (if wr then seqK (modify (upd_pipe p (\<lambda>k. k\<lparr>pi_writeopen := False\<rparr>))) (wakeup (Some (ChPipeRead (unat p))))
           else seqK (modify (upd_pipe p (\<lambda>k. k\<lparr>pi_readopen := False\<rparr>))) (wakeup (Some (ChPipeWrite (unat p))))) (
     bindK (gets (\<lambda>s. pipes s p)) (\<lambda>k.
     if \<not> pi_readopen k \<and> \<not> pi_writeopen k then seqK (onm (release (LkPp p))) (kfree p)
     else onm (release (LkPp p)))))"

definition pipe_put :: "byte \<Rightarrow> pipe \<Rightarrow> pipe" where
  "pipe_put c k = k\<lparr>pi_data := (pi_data k)[unat (pi_nwrite k) mod PIPESIZE := c], pi_nwrite := pi_nwrite k + 1\<rparr>"

fun pipewrite_loop :: "u32 \<Rightarrow> int \<Rightarrow> byte list \<Rightarrow> ('x file_st_scheme, int) kop" where
  "pipewrite_loop p n [] =
     seqK (wakeup (Some (ChPipeRead (unat p)))) (
     seqK (onm (release (LkPp p)))
     (ret n))"
| "pipewrite_loop p n (c # cs) =
     bindK (gets (\<lambda>s. pipes s p)) (\<lambda>k.
     if pi_nwrite k = pi_nread k + of_nat PIPESIZE then
       bindK (if \<not> pi_readopen k then ret True else my_killed) (\<lambda>quit.
       if quit then seqK (onm (release (LkPp p))) (ret (- 1))
       else seqK (wakeup (Some (ChPipeRead (unat p)))) (await (ChPipeWrite (unat p)) (LkPp p)))
     else seqK (modify (upd_pipe p (pipe_put c))) (pipewrite_loop p n cs))"

definition pipewrite :: "u32 \<Rightarrow> byte list \<Rightarrow> ('x file_st_scheme, int) kop" where
  "pipewrite p bs = seqK (onm (acquire (LkPp p))) (pipewrite_loop p (int (length bs)) bs)"

text \<open>\<open>cs\<close> are the bytes not yet written.\<close>

definition pipewrite_resume :: "nat \<Rightarrow> bool \<Rightarrow> u32 \<Rightarrow> int \<Rightarrow> byte list \<Rightarrow> ('x file_st_scheme, int) kop" where
  "pipewrite_resume q saved p n cs = seqK (sleep_resume q (LkPp p) saved) (pipewrite_loop p n cs)"

fun piperead_copy :: "nat \<Rightarrow> u32 \<Rightarrow> ('x file_st_scheme, byte list) kop" where
  "piperead_copy 0 p = ret []"
| "piperead_copy (Suc n) p =
     bindK (gets (\<lambda>s. pipes s p)) (\<lambda>k.
     if pi_nread k = pi_nwrite k then ret []
     else seqK (modify (upd_pipe p (\<lambda>k. k\<lparr>pi_nread := pi_nread k + 1\<rparr>))) (
          bindK (piperead_copy n p) (\<lambda>cs.
          ret (pi_data k ! (unat (pi_nread k) mod PIPESIZE) # cs))))"

definition piperead_loop :: "u32 \<Rightarrow> nat \<Rightarrow> ('x file_st_scheme, int \<times> byte list) kop" where
  "piperead_loop p n =
     bindK (gets (\<lambda>s. pipes s p)) (\<lambda>k.
     if pi_nread k = pi_nwrite k \<and> pi_writeopen k then
       bindK my_killed (\<lambda>quit.
       if quit then seqK (onm (release (LkPp p))) (ret (- 1, []))
       else await (ChPipeRead (unat p)) (LkPp p))
     else bindK (piperead_copy n p) (\<lambda>cs.
          seqK (wakeup (Some (ChPipeWrite (unat p)))) (
          seqK (onm (release (LkPp p)))
          (ret (int (length cs), cs)))))"

definition piperead :: "u32 \<Rightarrow> nat \<Rightarrow> ('x file_st_scheme, int \<times> byte list) kop" where
  "piperead p n = seqK (onm (acquire (LkPp p))) (piperead_loop p n)"

definition piperead_resume :: "nat \<Rightarrow> bool \<Rightarrow> u32 \<Rightarrow> nat \<Rightarrow> ('x file_st_scheme, int \<times> byte list) kop" where
  "piperead_resume q saved p n = seqK (sleep_resume q (LkPp p) saved) (piperead_loop p n)"

section \<open>Files\<close>

definition fileinit :: "('x file_st_scheme, unit) kop" where
  "fileinit = onm (initlock LkFtable ''ftable'')"

definition filealloc :: "('x file_st_scheme, nat option) kop" where
  "filealloc =
     seqK (onm (acquire LkFtable)) (
     bindK (gets (\<lambda>s. findix (\<lambda>f. f_ref f = 0) 0 (files s))) (\<lambda>r. case r of
       Some f \<Rightarrow>
         seqK (modify (upd_file f (\<lambda>k. k\<lparr>f_ref := 1\<rparr>))) (
         seqK (onm (release LkFtable))
         (ret (Some f)))
     | None \<Rightarrow> seqK (onm (release LkFtable)) (ret None)))"

definition filedup :: "nat \<Rightarrow> ('x file_st_scheme, nat) kop" where
  "filedup f =
     seqK (onm (acquire LkFtable)) (
     bindK (gets (\<lambda>s. f_ref (files s ! f))) (\<lambda>r.
     if r < 1 then panic ''filedup''
     else seqK (modify (upd_file f (\<lambda>k. k\<lparr>f_ref := f_ref k + 1\<rparr>))) (
          seqK (onm (release LkFtable))
          (ret f))))"

definition the_ip :: "ofile \<Rightarrow> (nat \<Rightarrow> ('x fs_st_scheme, 'a) kop) \<Rightarrow> ('x fs_st_scheme, 'a) kop" where
  "the_ip k m = (case f_ip k of None \<Rightarrow> panic ''null dereference'' | Some ip \<Rightarrow> m ip)"

definition fileclose :: "fsh \<Rightarrow> nat \<Rightarrow> ('x file_st_scheme, unit) kop" where
  "fileclose G f =
     seqK (onm (acquire LkFtable)) (
     bindK (gets (\<lambda>s. f_ref (files s ! f))) (\<lambda>r.
     if r < 1 then panic ''fileclose''
     else seqK (modify (upd_file f (\<lambda>k. k\<lparr>f_ref := f_ref k - 1\<rparr>))) (
          bindK (gets (\<lambda>s. files s ! f)) (\<lambda>ff.
          if f_ref ff > 0 then onm (release LkFtable)
          else seqK (modify (upd_file f (\<lambda>k. k\<lparr>f_ref := 0, f_type := FD_NONE\<rparr>))) (
               seqK (onm (release LkFtable)) (
               case f_type ff of
                 FD_PIPE \<Rightarrow> pipeclose (f_pipe ff) (f_writable ff)
               | FD_INODE \<Rightarrow> the_ip ff (\<lambda>ip. seqK begin_op (seqK (iput G ip) (end_op G)))
               | FD_NONE \<Rightarrow> ret ()))))))"

definition pipealloc_bad :: "fsh \<Rightarrow> nat option \<Rightarrow> nat option \<Rightarrow> ('x file_st_scheme, (nat \<times> nat) option) kop" where
  "pipealloc_bad G f0 f1 =
     seqK (case f0 of None \<Rightarrow> ret () | Some f \<Rightarrow> fileclose G f) (
     seqK (case f1 of None \<Rightarrow> ret () | Some f \<Rightarrow> fileclose G f)
     (ret None))"

text \<open>The two files on success, None for \<open>-1\<close>.  At \<open>bad\<close> the page pointer is always null.\<close>

definition pipealloc :: "fsh \<Rightarrow> ('x file_st_scheme, (nat \<times> nat) option) kop" where
  "pipealloc G =
     bindK filealloc (\<lambda>r0. case r0 of
       None \<Rightarrow> pipealloc_bad G None None
     | Some f0 \<Rightarrow>
       bindK filealloc (\<lambda>r1. case r1 of
         None \<Rightarrow> pipealloc_bad G (Some f0) None
       | Some f1 \<Rightarrow>
         bindK kalloc (\<lambda>p.
         if p = 0 then pipealloc_bad G (Some f0) (Some f1)
         else seqK (modify (upd_pipe p (\<lambda>k. k\<lparr>pi_readopen := True, pi_writeopen := True, pi_nwrite := 0, pi_nread := 0\<rparr>))) (
              seqK (onm (initlock (LkPp p) ''pipe'')) (
              seqK (modify (upd_file f0 (\<lambda>k. k\<lparr>f_type := FD_PIPE, f_readable := True, f_writable := False, f_pipe := p\<rparr>))) (
              seqK (modify (upd_file f1 (\<lambda>k. k\<lparr>f_type := FD_PIPE, f_readable := False, f_writable := True, f_pipe := p\<rparr>)))
              (ret (Some (f0, f1)))))))))"

definition filestat :: "fsh \<Rightarrow> nat \<Rightarrow> ('x file_st_scheme, stat option) kop" where
  "filestat G f =
     bindK (gets (\<lambda>s. files s ! f)) (\<lambda>k.
     if f_type k = FD_INODE then
       seqK (ilock G (f_ip k)) (
       the_ip k (\<lambda>ip.
       bindK (stati ip) (\<lambda>st.
       seqK (iunlock (f_ip k))
       (ret (Some st)))))
     else ret None)"

definition fileread :: "fsh \<Rightarrow> 'x file_st_scheme devsw \<Rightarrow> nat \<Rightarrow> nat \<Rightarrow> ('x file_st_scheme, int \<times> byte list) kop" where
  "fileread G dv f n =
     bindK (gets (\<lambda>s. files s ! f)) (\<lambda>k.
     if \<not> f_readable k then ret (- 1, [])
     else if f_type k = FD_PIPE then piperead (f_pipe k) n
     else if f_type k = FD_INODE then
       seqK (ilock G (f_ip k)) (
       the_ip k (\<lambda>ip.
       bindK (gets (\<lambda>s. f_off (files s ! f))) (\<lambda>off.
       bindK (readi G dv ip off n) (\<lambda>(r, bs).
       seqK (whenK (r > 0) (modify (upd_file f (\<lambda>k. k\<lparr>f_off := f_off k + nat r\<rparr>)))) (
       seqK (iunlock (f_ip k))
       (ret (r, bs)))))))
     else panic ''fileread'')"

definition max_write :: nat where
  "max_write = ((MAXOPBLOCKS - 1 - 1 - 2) div 2) * 512"

text \<open>
  The loop of \<open>filewrite\<close> from byte \<open>i\<close>.  An iteration that does not leave the loop writes at least one
  byte, so the number of bytes is enough fuel.
\<close>

fun filewrite_loop :: "fsh \<Rightarrow> 'x file_st_scheme devsw \<Rightarrow> nat \<Rightarrow> nat \<Rightarrow> byte list \<Rightarrow> nat \<Rightarrow> ('x file_st_scheme, nat) kop" where
  "filewrite_loop G dv 0 f bs i = (if i < length bs then panic ''out of fuel'' else ret i)"
| "filewrite_loop G dv (Suc fuel) f bs i =
     (if i < length bs then
        let n1 = min (length bs - i) max_write in
        seqK begin_op (
        bindK (gets (\<lambda>s. files s ! f)) (\<lambda>k.
        seqK (ilock G (f_ip k)) (
        the_ip k (\<lambda>ip.
        bindK (gets (\<lambda>s. f_off (files s ! f))) (\<lambda>off.
        bindK (writei G dv ip (take n1 (drop i bs)) off) (\<lambda>r.
        seqK (whenK (r > 0) (modify (upd_file f (\<lambda>k. k\<lparr>f_off := f_off k + nat r\<rparr>)))) (
        seqK (iunlock (f_ip k)) (
        seqK (end_op G) (
        if r < 0 then ret i
        else if r \<noteq> int n1 then panic ''short filewrite''
        else filewrite_loop G dv fuel f bs (i + nat r))))))))))
      else ret i)"

definition filewrite :: "fsh \<Rightarrow> 'x file_st_scheme devsw \<Rightarrow> nat \<Rightarrow> byte list \<Rightarrow> ('x file_st_scheme, int) kop" where
  "filewrite G dv f bs =
     bindK (gets (\<lambda>s. files s ! f)) (\<lambda>k.
     if \<not> f_writable k then ret (- 1)
     else if f_type k = FD_PIPE then pipewrite (f_pipe k) bs
     else if f_type k = FD_INODE then
       bindK (filewrite_loop G dv (length bs) f bs 0) (\<lambda>i.
       ret (if i = length bs then int (length bs) else - 1))
     else panic ''filewrite'')"

end
