(* ===== verification/Pipe.thy ===== *)
theory Pipe
  imports File
begin

text \<open>
  Pipes as bounded queues.  The ring buffer with its two free-running 32-bit counters represents the list
  of the bytes written and not yet read, also when the counters wrap around.  \<open>pipewrite\<close> appends to that
  list and sleeps when it is full, \<open>piperead\<close> takes from its front and sleeps when it is empty.
\<close>

section \<open>Bounded queues\<close>

locale bounded_queue =
  fixes inv :: "'q \<Rightarrow> bool" and items :: "'q \<Rightarrow> 'a list" and put :: "'a \<Rightarrow> 'q \<Rightarrow> 'q" and front :: "'q \<Rightarrow> 'a" and drop1 :: "'q \<Rightarrow> 'q"
    and cap :: nat
  assumes bound: "inv q \<Longrightarrow> length (items q) \<le> cap"
    and put: "inv q \<Longrightarrow> length (items q) < cap \<Longrightarrow> inv (put a q) \<and> items (put a q) = items q @ [a]"
    and get: "inv q \<Longrightarrow> items q \<noteq> [] \<Longrightarrow> front q = hd (items q) \<and> inv (drop1 q) \<and> items (drop1 q) = tl (items q)"
begin

lemma put_all:
  assumes "inv q" "length (items q) + length as \<le> cap"
  shows "inv (fold put as q) \<and> items (fold put as q) = items q @ as"
  using assms
proof (induction as arbitrary: q)
  case (Cons a as)
  then show ?case using put [of q a] by simp
qed simp

lemma get_all:
  assumes "inv q" "n \<le> length (items q)"
  shows "inv ((drop1 ^^ n) q) \<and> items ((drop1 ^^ n) q) = drop n (items q)"
  using assms(2)
proof (induction n)
  case (Suc n)
  then have "inv ((drop1 ^^ n) q)" "items ((drop1 ^^ n) q) = drop n (items q)" "drop n (items q) \<noteq> []" by auto
  then show ?case using get [of "(drop1 ^^ n) q"] by (simp add: drop_Suc tl_drop)
qed (simp add: assms(1))

text \<open>A schedule of writes and reads: whatever the schedule, the bytes come out in the order they went in.\<close>

fun run :: "('a list + nat) list \<Rightarrow> 'q \<Rightarrow> 'a list \<times> 'q" where
  "run [] q = ([], q)"
| "run (Inl as # ops) q = run ops (if length (items q) + length as \<le> cap then fold put as q else q)"
| "run (Inr n # ops) q =
     (let m = min n (length (items q)); (out, q') = run ops ((drop1 ^^ m) q) in (take m (items q) @ out, q'))"

fun accepted :: "('a list + nat) list \<Rightarrow> 'q \<Rightarrow> 'a list" where
  "accepted [] q = []"
| "accepted (Inl as # ops) q =
     (if length (items q) + length as \<le> cap then as @ accepted ops (fold put as q) else accepted ops q)"
| "accepted (Inr n # ops) q = accepted ops ((drop1 ^^ min n (length (items q))) q)"

lemma stream:
  assumes "inv q" "run ops q = (out, q')"
  shows "inv q' \<and> out @ items q' = items q @ accepted ops q"
  using assms
proof (induction ops q arbitrary: out q' rule: accepted.induct)
  case (2 as ops q)
  then show ?case using put_all [of q as] by (auto split: if_splits)
next
  case (3 n ops q)
  let ?m = "min n (length (items q))"
  obtain out1 where o: "run ops ((drop1 ^^ ?m) q) = (out1, q')" "out = take ?m (items q) @ out1"
    using 3(3) by (auto simp: Let_def split: prod.splits)
  have g: "inv ((drop1 ^^ ?m) q)" "items ((drop1 ^^ ?m) q) = drop ?m (items q)" using get_all [OF 3(2), of ?m] by simp_all
  from 3(1) [OF g(1) o(1)] show ?case unfolding o(2) g(2) by simp
qed simp

end

section \<open>The ring buffer\<close>

definition pipe_len :: "pipe \<Rightarrow> nat" where
  "pipe_len k = unat (pi_nwrite k - pi_nread k)"

definition pipe_at :: "pipe \<Rightarrow> nat \<Rightarrow> byte" where
  "pipe_at k j = pi_data k ! (unat (pi_nread k + of_nat j) mod PIPESIZE)"

definition pipe_items :: "pipe \<Rightarrow> byte list" where
  "pipe_items k = map (pipe_at k) [0..<pipe_len k]"

definition pipe_ok :: "pipe \<Rightarrow> bool" where
  "pipe_ok k \<longleftrightarrow> length (pi_data k) = PIPESIZE \<and> pipe_len k \<le> PIPESIZE"

definition pipe_drop :: "pipe \<Rightarrow> pipe" where
  "pipe_drop k = k\<lparr>pi_nread := pi_nread k + 1\<rparr>"

lemma length_pipe_items [simp]: "length (pipe_items k) = pipe_len k"
  by (simp add: pipe_items_def)

text \<open>512 divides \<open>2 ^ 32\<close>, so the index of a counter does not notice its wrap-around.\<close>

lemma unat_add_mod_dvd: "n dvd 4294967296 \<Longrightarrow> unat (a + of_nat j :: u32) mod n = (unat a + j) mod n"
  by (simp add: unat_word_ariths(1) unat_of_nat take_bit_eq_mod mod_mod_cancel mod_add_right_eq)

lemmas unat_add_mod = unat_add_mod_dvd [of 512, simplified]

lemma ring_distinct:
  assumes "i < j" "j - i < n"
  shows "(a + i) mod n \<noteq> (a + j) mod (n :: nat)"
proof
  assume "(a + i) mod n = (a + j) mod n"
  then have "n dvd (a + j) - (a + i)" using assms(1) by (metis add_le_cancel_left less_imp_le mod_eq_dvd_iff_nat)
  then show False using assms by (auto dest: dvd_imp_le)
qed

lemma pipe_len_put:
  assumes "pipe_len k < 512"
  shows "unat (pi_nwrite k + 1 - pi_nread k) = Suc (pipe_len k)"
proof -
  have e: "pi_nwrite k + 1 - pi_nread k = (pi_nwrite k - pi_nread k) + 1" by simp
  have "unat (pi_nwrite k - pi_nread k) < 512" using assms by (simp add: pipe_len_def)
  then show ?thesis unfolding e pipe_len_def by (simp add: unat_word_ariths(1))
qed

lemma nwrite_at: "pi_nwrite k = pi_nread k + of_nat (pipe_len k)"
  by (simp add: pipe_len_def)

lemma pipe_put_items:
  assumes ok: "pipe_ok k" and len: "pipe_len k < PIPESIZE"
  shows "pipe_ok (pipe_put c k)" "pipe_items (pipe_put c k) = pipe_items k @ [c]"
proof -
  have l: "pipe_len (pipe_put c k) = Suc (pipe_len k)"
    using pipe_len_put [of k] len by (simp add: pipe_len_def pipe_put_def PIPESIZE_def)
  show "pipe_ok (pipe_put c k)" using ok len l by (simp add: pipe_ok_def) (simp add: pipe_put_def)
  have d: "length (pi_data k) = 512" using ok by (simp add: pipe_ok_def PIPESIZE_def)
  let ?w = "unat (pi_nwrite k) mod 512"
  have w: "?w = (unat (pi_nread k) + pipe_len k) mod 512" by (subst nwrite_at) (rule unat_add_mod)
  have "pipe_at (pipe_put c k) j = (if j = pipe_len k then c else pipe_at k j)" if "j < Suc (pipe_len k)" for j
  proof (cases "j = pipe_len k")
    case False
    then have "(unat (pi_nread k) + j) mod 512 \<noteq> ?w" unfolding w using that len by (intro ring_distinct) (auto simp: PIPESIZE_def)
    then show ?thesis using False by (simp add: pipe_at_def pipe_put_def PIPESIZE_def unat_add_mod)
  qed (use d w in \<open>simp add: pipe_at_def pipe_put_def PIPESIZE_def unat_add_mod\<close>)
  then show "pipe_items (pipe_put c k) = pipe_items k @ [c]" by (simp add: pipe_items_def l)
qed

lemma pipe_drop_items:
  assumes ok: "pipe_ok k" and ne: "pipe_items k \<noteq> []"
  shows "pipe_at k 0 = hd (pipe_items k)" "pipe_ok (pipe_drop k)" "pipe_items (pipe_drop k) = tl (pipe_items k)"
proof -
  have p: "0 < pipe_len k" using ne by (simp add: pipe_items_def)
  have e: "pi_nwrite k - (pi_nread k + 1) = (pi_nwrite k - pi_nread k) - 1" by simp
  have l: "pipe_len (pipe_drop k) = pipe_len k - 1"
    unfolding pipe_len_def pipe_drop_def using p by (simp add: e pipe_len_def unat_sub_if' word_le_nat_alt)
  show "pipe_at k 0 = hd (pipe_items k)" using p by (simp add: pipe_items_def hd_map upt_conv_Cons)
  show "pipe_ok (pipe_drop k)" using ok l unfolding pipe_ok_def by (auto simp: pipe_drop_def)
  have "pipe_at (pipe_drop k) j = pipe_at k (Suc j)" for j by (simp add: pipe_at_def pipe_drop_def add.assoc)
  then have "map (pipe_at (pipe_drop k)) [0..<pipe_len k - 1] = map (pipe_at k) (map Suc [0..<pipe_len k - 1])" by simp
  also have "map Suc [0..<pipe_len k - 1] = tl [0..<pipe_len k]" using p by (simp add: map_Suc_upt)
  finally show "pipe_items (pipe_drop k) = tl (pipe_items k)" by (simp add: pipe_items_def l flip: map_tl)
qed

interpretation pq: bounded_queue pipe_ok pipe_items pipe_put "\<lambda>k. pipe_at k 0" pipe_drop PIPESIZE
  by unfold_locales (use pipe_put_items pipe_drop_items in \<open>auto simp: pipe_ok_def\<close>)


text \<open>A pipe keeps the order of the bytes under every schedule of writes that fit and reads.\<close>

lemma pipe_stream:
  assumes "pipe_ok k" "pq.run ops k = (out, k')"
  shows "pipe_ok k' \<and> out @ pipe_items k' = pipe_items k @ pq.accepted ops k"
  by (rule pq.stream [OF assms])

section \<open>Writing and reading\<close>

lemma full_iff:
  assumes "pipe_ok k"
  shows "pi_nwrite k = pi_nread k + of_nat PIPESIZE \<longleftrightarrow> pipe_len k = PIPESIZE"
proof
  assume "pi_nwrite k = pi_nread k + of_nat PIPESIZE"
  then show "pipe_len k = PIPESIZE" by (simp add: pipe_len_def PIPESIZE_def)
next
  assume "pipe_len k = PIPESIZE"
  then show "pi_nwrite k = pi_nread k + of_nat PIPESIZE" using nwrite_at [of k] by simp
qed

lemma empty_iff: "pi_nread k = pi_nwrite k \<longleftrightarrow> pipe_items k = []"
proof
  assume "pipe_items k = []"
  then have "pipe_len k = 0" by (simp flip: length_pipe_items)
  then show "pi_nread k = pi_nwrite k" using nwrite_at [of k] by simp
qed (simp add: pipe_items_def pipe_len_def)

lemma pipe_put_open [simp]: "pi_readopen (pipe_put c k) = pi_readopen k" "pi_writeopen (pipe_put c k) = pi_writeopen k"
  by (simp_all add: pipe_put_def)

lemma upd_pipe_simps [simp]:
  "km (upd_pipe p f s) = km s" "procs (upd_pipe p f s) = procs s"
  "pipes (upd_pipe p f s) = (pipes s)(p := f (pipes s p))"
  by (simp_all add: upd_pipe_def)

lemma my_killed_wp:
  assumes "mach_inv H (km s)" "curproc (km s) = Some q"
    and "\<And>m'. mach_inv H m' \<Longrightarrow> curproc m' = Some q \<Longrightarrow> ident m' = ident (km s) \<Longrightarrow> Q (p_killed (procs s ! q)) (s\<lparr>km := m'\<rparr>)"
  shows "wp my_killed Q s"
  unfolding my_killed_def wp_bindK
  by (rule myproc_onm [OF assms(1)]) (use assms(2,3) in auto)

lemma await_wpx:
  assumes "mach_inv {l} (km s)" "curproc (km s) = Some p" "p < length (procs s)"
    and "\<And>m'. mach_inv {LkPtable} m' \<Longrightarrow> curproc m' = Some p \<Longrightarrow> ident m' = ident (km s) \<Longrightarrow>
      A (s\<lparr>procs := (procs s)[p := (procs s ! p)\<lparr>p_chan := Some ch, p_state := SLEEPING\<rparr>], km := m'\<rparr>)"
  shows "wpx (await ch l) Q A s"
  unfolding await_def wpx_bindK by (rule sleep_wpx [OF assms(1-3)]) (rule assms(4))

text \<open>What holds when the writer returns and when it sleeps, having written the bytes \<open>cs\<close> that fit.\<close>

definition wrote_all :: "u32 \<Rightarrow> byte list \<Rightarrow> 'x file_st_scheme \<Rightarrow> 'x file_st_scheme \<Rightarrow> bool" where
  "wrote_all p cs s t \<longleftrightarrow> pipe_len (pipes s p) + length cs \<le> PIPESIZE \<and> pipe_ok (pipes t p) \<and>
     pipe_items (pipes t p) = pipe_items (pipes s p) @ cs \<and> (\<forall>p'. p' \<noteq> p \<longrightarrow> pipes t p' = pipes s p') \<and>
     procs t = map (wake (Some (ChPipeRead (unat p)))) (procs s)"

definition write_sleeps :: "nat \<Rightarrow> u32 \<Rightarrow> byte list \<Rightarrow> 'x file_st_scheme \<Rightarrow> 'x file_st_scheme \<Rightarrow> bool" where
  "write_sleeps q p cs s t \<longleftrightarrow> pipe_len (pipes s p) + length cs > PIPESIZE \<and> pipe_ok (pipes t p) \<and>
     pipe_items (pipes t p) = take PIPESIZE (pipe_items (pipes s p) @ cs) \<and> (\<forall>p'. p' \<noteq> p \<longrightarrow> pipes t p' = pipes s p') \<and>
     p_state (procs t ! q) = SLEEPING \<and> p_chan (procs t ! q) = Some (ChPipeWrite (unat p))"

lemma write_step:
  assumes "pipe_ok (pipes s p)" "pipe_len (pipes s p) < PIPESIZE"
  shows "wrote_all p cs (upd_pipe p (pipe_put c) s) t \<Longrightarrow> wrote_all p (c # cs) s t"
    "write_sleeps q p cs (upd_pipe p (pipe_put c) s) t \<Longrightarrow> write_sleeps q p (c # cs) s t"
proof -
  have "pipe_len (pipe_put c (pipes s p)) = Suc (pipe_len (pipes s p))"
    using pipe_put_items(2) [OF assms, of c] by (metis length_append_singleton length_pipe_items)
  then show "wrote_all p cs (upd_pipe p (pipe_put c) s) t \<Longrightarrow> wrote_all p (c # cs) s t"
    "write_sleeps q p cs (upd_pipe p (pipe_put c) s) t \<Longrightarrow> write_sleeps q p (c # cs) s t"
    using pipe_put_items(2) [OF assms, of c] by (auto simp: wrote_all_def write_sleeps_def)
qed

lemma pipewrite_loop_wpx:
  fixes s :: "'x file_st_scheme"
  assumes "mach_inv {LkPp p} (km s)" "curproc (km s) = Some q" "q < length (procs s)" "\<not> p_killed (procs s ! q)"
    "pipe_ok (pipes s p)" "pi_readopen (pipes s p)"
  shows "wpx (pipewrite_loop p n cs) (\<lambda>r t. r = n \<and> wrote_all p cs s t \<and> mach_inv {} (km t)) (write_sleeps q p cs s) s"
  using assms
proof (induction cs arbitrary: s)
  case Nil
  show ?case
    by (rule wpx_wp, unfold pipewrite_loop.simps wp_bindK, rule wakeup_wp [OF Nil(1)], simp, rule release_onm [of "{LkPp p}"])
       (use Nil in \<open>auto simp: wrote_all_def pipe_ok_def\<close>)
next
  case (Cons c cs)
  let ?k = "pipes s p"
  show ?case
  proof (cases "pipe_len ?k = PIPESIZE")
    case True
    let ?A = "write_sleeps q p (c # cs) s"
    have sl: "wpx (await (ChPipeWrite (unat p)) (LkPp p)) Q ?A (s\<lparr>procs := map (wake ch) (procs s), km := m\<rparr>)"
      if "mach_inv {LkPp p} m" "curproc m = Some q" for ch m Q
      by (rule await_wpx [where p = q]) (use that True Cons.prems in \<open>auto simp: write_sleeps_def\<close>)
    have "wpx (seqK (wakeup (Some (ChPipeRead (unat p)))) (await (ChPipeWrite (unat p)) (LkPp p))) Q ?A (s\<lparr>km := m\<rparr>)"
      if "mach_inv {LkPp p} m" "curproc m = Some q" for m Q
      unfolding wpx_bindK
      by (rule wpx_wp, rule wakeup_wp [of "{LkPp p}"]) (use that sl in auto)
    note sw = this
    have "wpx (bindK my_killed (\<lambda>quit. if quit then seqK (onm (release (LkPp p))) (ret (- 1))
        else seqK (wakeup (Some (ChPipeRead (unat p)))) (await (ChPipeWrite (unat p)) (LkPp p)))) Q ?A s" for Q
      unfolding wpx_bindK [of my_killed]
      by (rule wpx_wp, rule my_killed_wp [OF Cons.prems(1,2)]) (use sw Cons.prems(4) in \<open>simp del: wpx_bindK\<close>)
    then show ?thesis using True Cons.prems(6) full_iff [OF Cons.prems(5)] by simp
  next
    case False
    then have lt: "pipe_len ?k < PIPESIZE" using Cons.prems by (simp add: pipe_ok_def)
    note st = write_step [OF Cons.prems(5) lt]
    have "wpx (pipewrite_loop p n cs) (\<lambda>r t. r = n \<and> wrote_all p cs (upd_pipe p (pipe_put c) s) t \<and> mach_inv {} (km t))
        (write_sleeps q p cs (upd_pipe p (pipe_put c) s)) (upd_pipe p (pipe_put c) s)"
      by (rule Cons.IH) (use Cons.prems pipe_put_items(1) [OF Cons.prems(5) lt] in auto)
    then have "wpx (pipewrite_loop p n cs) (\<lambda>r t. r = n \<and> wrote_all p (c # cs) s t \<and> mach_inv {} (km t))
        (write_sleeps q p (c # cs) s) (upd_pipe p (pipe_put c) s)"
      by (rule wpx_mono) (use st in auto)
    then show ?thesis using False full_iff [OF Cons.prems(5)] by simp
  qed
qed


definition read_done :: "u32 \<Rightarrow> nat \<Rightarrow> 'x file_st_scheme \<Rightarrow> 'x file_st_scheme \<Rightarrow> bool" where
  "read_done p n s t \<longleftrightarrow> (\<exists>k. t = s\<lparr>pipes := (pipes s)(p := k)\<rparr> \<and> pipe_ok k \<and> pipe_items k = drop n (pipe_items (pipes s p)))"

lemma read_done_refl:
  "pipe_ok (pipes s p) \<Longrightarrow> drop n (pipe_items (pipes s p)) = pipe_items (pipes s p) \<Longrightarrow> read_done p n s s"
  unfolding read_done_def by (intro exI [of _ "pipes s p"]) simp

lemma piperead_copy_wp:
  fixes s :: "'x file_st_scheme"
  assumes "pipe_ok (pipes s p)"
    and "\<And>t. read_done p n s t \<Longrightarrow> Q (take n (pipe_items (pipes s p))) t"
  shows "wp (piperead_copy n p) Q s"
  using assms
proof (induction n arbitrary: s Q)
  case 0
  have "read_done p 0 s s" using 0(1) by (simp add: read_done_refl)
  from 0(2) [OF this] show ?case by simp
next
  case (Suc n)
  let ?k = "pipes s p"
  show ?case
  proof (cases "pipe_items ?k = []")
    case True
    have "read_done p (Suc n) s s" using True Suc(2) by (simp add: read_done_refl)
    from Suc(3) [OF this] show ?thesis using True empty_iff [of ?k] by simp
  next
    case False
    note D = pipe_drop_items [OF Suc(2) False]
    let ?s = "upd_pipe p pipe_drop s"
    have "wp (piperead_copy n p) (\<lambda>cs. Q (pipe_at ?k 0 # cs)) ?s"
    proof (rule Suc.IH)
      show "pipe_ok (pipes ?s p)" using D(2) by simp
      fix t assume "read_done p n ?s t"
      then have "read_done p (Suc n) s t" using D(3) by (auto simp: read_done_def upd_pipe_def drop_Suc)
      from Suc(3) [OF this] show "Q (pipe_at ?k 0 # take n (pipe_items (pipes ?s p))) t"
        using D(1,3) False by (simp add: take_Suc)
    qed
    then show ?thesis using False empty_iff [of ?k] by (simp add: pipe_drop_def [abs_def] pipe_at_def wp_ret_fun)
  qed
qed


text \<open>A pipe with two bytes whose read counter is about to wrap around.\<close>

definition demo_pipe :: pipe where
  "demo_pipe = \<lparr>pi_data = [8] @ replicate 510 0 @ [7], pi_nread = 0xFFFFFFFF, pi_nwrite = 1, pi_readopen = True, pi_writeopen = True\<rparr>"

definition demo_file :: file_st where
  "demo_file = \<lparr>km = demo_mach True, ram = (\<lambda>_. replicate 4096 0), freelist = 0, use_lock = True, kend = 0x80200000, kdata = 0x80108000,
     procs = [demo_proc RUNNING 1 None, demo_proc RUNNABLE 2 None],
     initproc = Some 0, nextpid = 3, kpgdir = 0x80400000, cr3 = 0, esp0 = 0,
     slocks = (\<lambda>_. \<lparr>sl_locked = 0, sl_name = [], sl_pid = 0\<rparr>),
     bufs = replicate (Suc NBUF) (bss_buf 512), disk = (\<lambda>_. []), dhist = [], disksize = 1000,
     lh_n = 0, lh_block = replicate LOGSIZE 0, log_start = 2, log_size = 30, outstanding = 1, committing = False, log_dev = 1,
     sb = demo_sb, inodes = [], files = [], pipes = (\<lambda>_. demo_pipe)\<rparr>"

lemma demo_pipe_items: "pipe_items demo_pipe = [7, 8]" "pipe_ok demo_pipe"
proof -
  have l: "pipe_len demo_pipe = 2" by (simp add: pipe_len_def demo_pipe_def)
  have u: "[0..<2] = [0, 1::nat]" by (simp add: upt_conv_Cons)
  have a: "pipe_at demo_pipe 0 = 7" "pipe_at demo_pipe 1 = 8" by (simp_all add: pipe_at_def demo_pipe_def PIPESIZE_def nth_append)
  show "pipe_items demo_pipe = [7, 8]" unfolding pipe_items_def l u using a by simp
  show "pipe_ok demo_pipe" using l by (simp add: pipe_ok_def PIPESIZE_def) (simp add: demo_pipe_def)
qed




end
