(* ===== verification/Vm_Maps.thy ===== *)
theory Vm_Maps
  imports Vm
begin

unbundle bit_operations_syntax

text \<open>
  Page tables as finite maps.  A page directory with its page tables represents a map from virtual page
  numbers to entries.  \<open>walkpgdir\<close> leaves that map alone, even when it allocates a page table, and \<open>mappages\<close>
  adds the pages of its range to it.  Pages of the free list and of the tables stay apart.
\<close>

section \<open>Addresses and entries\<close>

lemma P2V_V2P [simp]: "P2V (V2P a) = a" "V2P (P2V a) = a"
  by (simp_all add: P2V_def V2P_def)

lemma low12: "(4095 :: u32) = mask 12"
  by (simp add: mask_eq_exp_minus_1)

lemma unat_low: "unat (a AND 4095 :: u32) = unat a mod 4096"
  unfolding low12 by (simp add: unsigned_take_bit_eq flip: take_bit_eq_mask) (simp add: take_bit_eq_mod)

lemma aligned_iff: "4096 dvd unat (a :: u32) \<longleftrightarrow> a AND 4095 = 0"
  using unat_low [of a] by (simp add: dvd_eq_mod_eq_0 word_unat_eq_iff)

lemma aligned_bits: "4096 dvd unat (a :: u32) \<longleftrightarrow> (\<forall>n < 12. \<not> bit a n)"
proof
  assume "4096 dvd unat a"
  then have "bit (a AND mask 12) n = False" for n using aligned_iff [of a] by (simp add: low12)
  then have c: "n < 32 \<longrightarrow> bit a n \<longrightarrow> \<not> n < 12" for n by (simp add: bit_simps)
  show "\<forall>n < 12. \<not> bit a n"
  proof (intro allI impI)
    fix n :: nat assume "n < 12"
    then show "\<not> bit a n" using c [of n] by simp
  qed
next
  assume "\<forall>n < 12. \<not> bit a n"
  then have "a AND mask 12 = 0" by (intro bit_word_eqI) (auto simp: bit_simps)
  then show "4096 dvd unat a" by (simp add: aligned_iff low12)
qed

lemma PTE_ADDR_or:
  assumes "4096 dvd unat a" "f AND NOT 4095 = 0"
  shows "PTE_ADDR (a OR f) = a"
proof (rule bit_word_eqI)
  fix n assume n: "n < LENGTH(32)"
  have "bit f n \<Longrightarrow> n < 12" using assms(2) n unfolding low12 by (auto simp: bit_eq_iff bit_simps)
  then show "bit (PTE_ADDR (a OR f)) n = bit a n"
    using assms(1) n unfolding PTE_ADDR_def low12 by (auto simp: bit_simps aligned_bits)
qed

lemma and_P: "e AND PTE_P = 0 \<longleftrightarrow> \<not> bit e 0"
  by (simp add: PTE_P_def and_one_eq odd_iff_mod_2_eq_one bit_0)

lemma PTE_present [simp]: "(a OR PTE_P) AND PTE_P \<noteq> 0"
  by (simp add: and_P bit_simps PTE_P_def)

lemma PDX_PTX: "PDX va = unat va div 4194304" "PTX va = unat va div 4096 mod 1024"
proof -
  have m: "(0x3FF :: u32) = mask 10" by (simp add: mask_eq_exp_minus_1)
  have u: "unat va < 4294967296" by simp
  have "PDX va = unat va div 4194304 mod 1024" unfolding PDX_def m
    by (simp add: unsigned_take_bit_eq unsigned_drop_bit_eq drop_bit_eq_div take_bit_eq_mod flip: take_bit_eq_mask)
      (simp add: unat_mod_distrib unat_div_distrib)
  also have "\<dots> = unat va div 4194304" using u by (intro mod_less) (simp add: less_mult_imp_div_less)
  finally show "PDX va = unat va div 4194304" .
  show "PTX va = unat va div 4096 mod 1024" unfolding PTX_def m
    by (simp add: unsigned_take_bit_eq unsigned_drop_bit_eq drop_bit_eq_div take_bit_eq_mod flip: take_bit_eq_mask)
      (simp add: unat_mod_distrib unat_div_distrib)
qed

lemma PDX_less [simp]: "PDX va < 1024" "PTX va < 1024"
proof -
  have "unat va < 4294967296" by simp
  then show "PDX va < 1024" unfolding PDX_PTX by (simp add: less_mult_imp_div_less)
qed (simp add: PDX_PTX)

lemma page_number: "unat va div 4096 = PDX va * 1024 + PTX va"
  unfolding PDX_PTX by (simp add: div_mult2_eq [of _ 4096 1024, simplified])

definition vpn :: "u32 \<Rightarrow> nat \<times> nat" where
  "vpn va = (PDX va, PTX va)"

lemma vpn_eq_iff: "vpn a = vpn b \<longleftrightarrow> unat a div 4096 = unat b div 4096"
proof
  show "vpn a = vpn b \<Longrightarrow> unat a div 4096 = unat b div 4096" by (simp add: vpn_def page_number)
  have "vpn a = (unat a div 4096 div 1024, unat a div 4096 mod 1024)" for a
    by (simp add: vpn_def PDX_PTX div_mult2_eq [of _ 4096 1024, simplified])
  then show "unat a div 4096 = unat b div 4096 \<Longrightarrow> vpn a = vpn b" by simp
qed

lemma vpn_next:
  assumes "0 < k" "k < 1048576"
  shows "vpn (a + of_nat k * PGSIZE) \<noteq> vpn a"
proof -
  have "unat (of_nat k * PGSIZE :: u32) = k * 4096" using assms by (simp add: PGSIZE_def unat_word_ariths unat_of_nat take_bit_eq_mod)
  then have "unat (a + of_nat k * PGSIZE) = (unat a + k * 4096) mod 4294967296" by (simp add: unat_word_ariths(1))
  also have "\<dots> div 4096 = (unat a div 4096 + k) mod 1048576"
    using mod_mult2_eq [of "unat a + k * 4096" 4096 1048576] by (simp add: add.commute)
  finally have e: "unat (a + of_nat k * PGSIZE) div 4096 = (unat a div 4096 + k) mod 1048576" .
  have "unat a div 4096 < 1048576" using unat_u32_bound [of a] by (simp add: less_mult_imp_div_less del: unat_u32_bound)
  then have "(unat a div 4096 + k) mod 1048576 \<noteq> unat a div 4096" using assms
    by (cases "unat a div 4096 + k < 1048576") (auto simp: le_mod_geq)
  then show ?thesis unfolding vpn_eq_iff e .
qed

section \<open>The map of a page directory\<close>

definition tab :: "u32 \<Rightarrow> nat \<Rightarrow> 'x mem_st_scheme \<Rightarrow> u32 option" where
  "tab d i s = (let e = get_pte (d, i) s in if e AND PTE_P = 0 then None else Some (P2V (PTE_ADDR e)))"

definition vmap :: "u32 \<Rightarrow> 'x mem_st_scheme \<Rightarrow> nat \<times> nat \<Rightarrow> u32 option" where
  "vmap d s = (\<lambda>(i, j). if i < 1024 \<and> j < 1024 then
     (case tab d i s of None \<Rightarrow> None
      | Some t \<Rightarrow> if get_pte (t, j) s AND PTE_P = 0 then None else Some (get_pte (t, j) s)) else None)"

definition pgdir_ok :: "u32 \<Rightarrow> u32 list \<Rightarrow> 'x mem_st_scheme \<Rightarrow> bool" where
  "pgdir_ok d xs s \<longleftrightarrow> d \<notin> set xs \<and> length (ram s d) = 4096 \<and>
     (\<forall>i < 1024. \<forall>t. tab d i s = Some t \<longrightarrow> t \<noteq> d \<and> t \<notin> set xs \<and> length (ram s t) = 4096) \<and>
     (\<forall>i < 1024. \<forall>j < 1024. \<forall>t. tab d i s = Some t \<longrightarrow> tab d j s = Some t \<longrightarrow> i = j)"

definition put_pte :: "pteref \<Rightarrow> u32 \<Rightarrow> 'x mem_st_scheme \<Rightarrow> 'x mem_st_scheme" where
  "put_pte r v s = s\<lparr>ram := (ram s)(fst r := put32 (4 * snd r) v (ram s (fst r)))\<rparr>"

lemma wp_set_pte [simp]: "wp (set_pte r v) Q s \<longleftrightarrow> Q () (put_pte r v s)"
  by (simp add: set_pte_def put_pte_def)

lemma get_put_pte:
  assumes "length (ram s (fst r)) = 4096" "snd r < 1024" "snd r' < 1024"
  shows "get_pte r' (put_pte r v s) = (if r' = r then v else get_pte r' s)"
proof -
  have "snd r' \<noteq> snd r \<Longrightarrow> 4 * snd r' + 4 \<le> 4 * snd r \<or> 4 * snd r + 4 \<le> 4 * snd r'" by linarith
  then show ?thesis
    using assms get32_put32_other [of "4 * snd r" "ram s (fst r)" "4 * snd r'" v]
    by (cases r; cases r') (auto simp: get_pte_def put_pte_def)
qed

lemma put_pte_simps [simp]:
  "km (put_pte r v s) = km s" "freelist (put_pte r v s) = freelist s" "use_lock (put_pte r v s) = use_lock s"
  "kend (put_pte r v s) = kend s" "kdata (put_pte r v s) = kdata s" "mem_st.more (put_pte r v s) = mem_st.more s"
  "length (ram s (fst r)) = 4096 \<Longrightarrow> snd r < 1024 \<Longrightarrow> length (ram (put_pte r v s) p) = length (ram s p)"
  "p \<noteq> fst r \<Longrightarrow> ram (put_pte r v s) p = ram s p"
  by (auto simp: put_pte_def)

lemma kmem_inv_put [simp]: "fst r \<notin> set xs \<Longrightarrow> kmem_inv xs (put_pte r v s) = kmem_inv xs s"
  by (simp add: kmem_inv_def put_pte_def)

text \<open>An entry of a page table is written.\<close>

lemma set_entry:
  assumes ok: "pgdir_ok d xs s" and i: "i < 1024" "j < 1024" and t: "tab d i s = Some t" and v: "v AND PTE_P \<noteq> 0"
  shows "pgdir_ok d xs (put_pte (t, j) v s)" "vmap d (put_pte (t, j) v s) = (vmap d s)((i, j) \<mapsto> v)"
proof -
  have t': "t \<noteq> d" "t \<notin> set xs" "length (ram s t) = 4096" using ok i t by (auto simp: pgdir_ok_def)
  have g: "get_pte (d, k) (put_pte (t, j) v s) = get_pte (d, k) s" for k using t'(1) by (simp add: get_pte_def)
  have T: "tab d k (put_pte (t, j) v s) = tab d k s" for k by (simp add: tab_def g)
  show "pgdir_ok d xs (put_pte (t, j) v s)" using ok t' i by (auto simp: pgdir_ok_def T)
  have "vmap d (put_pte (t, j) v s) (a, b) = ((vmap d s)((i, j) \<mapsto> v)) (a, b)" for a b
  proof (cases "a < 1024 \<and> b < 1024 \<and> tab d a s \<noteq> None")
    case True
    then obtain u where u: "tab d a s = Some u" by auto
    have "u = t \<longleftrightarrow> a = i" using ok True u t i by (auto simp: pgdir_ok_def)
    moreover have "get_pte (u, b) (put_pte (t, j) v s) = (if (u, b) = (t, j) then v else get_pte (u, b) s)"
      using t'(3) i True by (intro get_put_pte) auto
    ultimately show ?thesis using True u v by (auto simp: vmap_def T)
  next
    case False
    then show ?thesis using i t by (auto simp: vmap_def T)
  qed
  then show "vmap d (put_pte (t, j) v s) = (vmap d s)((i, j) \<mapsto> v)" by (simp add: fun_eq_iff)
qed


text \<open>A zeroed page becomes the page table of entry \<open>i\<close>.\<close>

definition put_table :: "u32 \<Rightarrow> nat \<Rightarrow> u32 \<Rightarrow> 'x mem_st_scheme \<Rightarrow> 'x mem_st_scheme" where
  "put_table d i t s = put_pte (d, i) (V2P t OR PTE_P OR PTE_W OR PTE_U) (s\<lparr>ram := (ram s)(t := replicate 4096 0)\<rparr>)"

lemma aligned_V2P:
  assumes "4096 dvd unat t"
  shows "4096 dvd unat (V2P t)"
proof -
  obtain k where k: "unat t = 4096 * k" using assms by (auto elim: dvdE)
  have "unat (V2P t) = (if 524288 \<le> k then 4096 * (k - 524288) else 4096 * (k + 524288))"
    by (simp add: V2P_def KERNBASE_def unat_sub_if' word_le_nat_alt k diff_mult_distrib2)
  then show ?thesis by simp
qed

lemma put_table_simps [simp]:
  "km (put_table d i t s) = km s" "use_lock (put_table d i t s) = use_lock s" "kend (put_table d i t s) = kend s"
  "kdata (put_table d i t s) = kdata s" "mem_st.more (put_table d i t s) = mem_st.more s"
  by (simp_all add: put_table_def)

lemma table_entry:
  assumes "4096 dvd unat t"
  shows "(V2P t OR PTE_P OR PTE_W OR PTE_U) AND PTE_P \<noteq> 0" "P2V (PTE_ADDR (V2P t OR PTE_P OR PTE_W OR PTE_U)) = t"
proof -
  have "PTE_ADDR (V2P t OR (PTE_P OR PTE_W OR PTE_U)) = V2P t"
    by (rule PTE_ADDR_or [OF aligned_V2P [OF assms]]) (simp add: param_defs)
  then show "P2V (PTE_ADDR (V2P t OR PTE_P OR PTE_W OR PTE_U)) = t" by (simp add: or.assoc)
  show "(V2P t OR PTE_P OR PTE_W OR PTE_U) AND PTE_P \<noteq> 0" unfolding and_P by (simp add: bit_simps PTE_P_def)
qed

lemma get_zero: "j < 1024 \<Longrightarrow> get32 (4 * j) (replicate 4096 0) = 0"
  by (simp add: get32_def un32_def)

lemma fresh_table:
  assumes ok: "pgdir_ok d (t # xs) s" and i: "i < 1024" "tab d i s = None" and t: "4096 dvd unat t" "t \<notin> set xs"
  shows "pgdir_ok d xs (put_table d i t s)" "vmap d (put_table d i t s) = vmap d s" "tab d i (put_table d i t s) = Some t"
    "kmem_inv xs (put_table d i t s) = kmem_inv xs s" "p \<noteq> d \<Longrightarrow> p \<noteq> t \<Longrightarrow> ram (put_table d i t s) p = ram s p"
proof -
  let ?s = "s\<lparr>ram := (ram s)(t := replicate 4096 0)\<rparr>" and ?s' = "put_table d i t s"
  have d: "t \<noteq> d" "d \<notin> set xs" "length (ram s d) = 4096" using ok by (auto simp: pgdir_ok_def)
  have g: "get_pte (d, k) ?s' = (if k = i then V2P t OR PTE_P OR PTE_W OR PTE_U else get_pte (d, k) s)" if "k < 1024" for k
    unfolding put_table_def using d i that by (subst get_put_pte) (auto simp: get_pte_def)
  have T: "tab d k ?s' = (if k = i then Some t else tab d k s)" if "k < 1024" for k
    using g [OF that] table_entry [OF t(1)] by (simp add: tab_def Let_def)
  show Ti: "tab d i ?s' = Some t" using T [OF i(1)] by simp
  have R: "ram ?s' p = (if p = t then replicate 4096 0 else ram s p)" if "p \<noteq> d" for p using that by (simp add: put_table_def)
  have L: "length (ram ?s' d) = 4096" using d i by (simp add: put_table_def)
  have old: "u \<noteq> t \<and> u \<noteq> d \<and> u \<notin> set xs \<and> length (ram s u) = 4096" if "k < 1024" "tab d k s = Some u" for k u
    using ok that by (auto simp: pgdir_ok_def)
  show "pgdir_ok d xs ?s'" unfolding pgdir_ok_def
  proof (intro conjI allI impI)
    fix k u assume k: "k < 1024" "tab d k ?s' = Some u"
    then consider "k = i" "u = t" | "k \<noteq> i" "tab d k s = Some u" using T by (auto split: if_splits)
    then have "u \<noteq> d \<and> u \<notin> set xs \<and> length (ram ?s' u) = 4096" using old [OF k(1)] d t by cases (auto simp: R)
    then show "u \<noteq> d" "u \<notin> set xs" "length (ram ?s' u) = 4096" by auto
  next
    fix k l u assume "k < 1024" "l < 1024" "tab d k ?s' = Some u" "tab d l ?s' = Some u"
    then show "k = l" using T old ok by (auto simp: pgdir_ok_def split: if_splits)
  qed (use d L in auto)
  have "vmap d ?s' (a, b) = vmap d s (a, b)" for a b
  proof (cases "a < 1024 \<and> b < 1024")
    case True
    have z: "get_pte (t, b) ?s' = 0" using True d R [of t] get_zero [of b] by (simp add: get_pte_def)
    have "get_pte (u, b) ?s' = get_pte (u, b) s" if "tab d a s = Some u" for u using old [of a u] True that R by (simp add: get_pte_def)
    then show ?thesis using True T [of a] z i by (auto simp: vmap_def split: option.splits)
  qed (auto simp: vmap_def)
  then show "vmap d ?s' = vmap d s" by (simp add: fun_eq_iff)
  show "kmem_inv xs ?s' = kmem_inv xs s" using d t
    by (simp add: put_table_def) (simp add: kmem_inv_def)
  show "p \<noteq> d \<Longrightarrow> p \<noteq> t \<Longrightarrow> ram ?s' p = ram s p" using R by simp
qed


section \<open>Walking and mapping\<close>

text \<open>What the memory operations leave alone; \<open>xs\<close> are the pages that were free.\<close>

definition vm_frame :: "lockid set \<Rightarrow> u32 list \<Rightarrow> 'x mem_st_scheme \<Rightarrow> 'x mem_st_scheme \<Rightarrow> bool" where
  "vm_frame H xs s t \<longleftrightarrow> mach_inv H (km t) \<and> curproc (km t) = curproc (km s) \<and> ident (km t) = ident (km s) \<and>
     use_lock t = use_lock s \<and> kend t = kend s \<and> kdata t = kdata s \<and> mem_st.more t = mem_st.more s"

lemma vm_frame_trans: "vm_frame H xs s t \<Longrightarrow> vm_frame H ys t u \<Longrightarrow> vm_frame H xs s u"
  by (simp add: vm_frame_def)

text \<open>The state of an address space: free pages, page directory, machine.\<close>

definition vm_ok :: "lockid set \<Rightarrow> u32 \<Rightarrow> u32 list \<Rightarrow> 'x mem_st_scheme \<Rightarrow> bool" where
  "vm_ok H d xs s \<longleftrightarrow> kmem_inv xs s \<and> pgdir_ok d xs s \<and> mach_inv H (km s) \<and> (use_lock s \<longrightarrow> LkKmem \<notin> H)"

definition walk_post :: "lockid set \<Rightarrow> u32 \<Rightarrow> u32 \<Rightarrow> u32 list \<Rightarrow> 'x mem_st_scheme \<Rightarrow> pteref option \<Rightarrow> 'x mem_st_scheme \<Rightarrow> u32 list \<Rightarrow> bool" where
  "walk_post H d va xs s r t ys \<longleftrightarrow> vm_ok H d ys t \<and> vmap d t = vmap d s \<and> (\<exists>us. xs = us @ ys \<and> length us \<le> 1) \<and> vm_frame H xs s t \<and>
     (case r of None \<Rightarrow> xs = [] \<and> ys = [] \<and> vmap d s (vpn va) = None
      | Some (tb, j) \<Rightarrow> tab d (PDX va) t = Some tb \<and> j = PTX va)"

lemma vmap_cong:
  assumes "ram s = ram t"
  shows "vmap d s = vmap d t"
proof -
  have g: "get_pte r s = get_pte r t" for r using assms by (simp add: get_pte_def)
  show ?thesis by (simp only: vmap_def tab_def g)
qed

lemma pgdir_ok_km [simp]:
  "tab d i (km_update f s) = tab d i s" "vmap d (km_update f s) = vmap d s" "pgdir_ok d xs (km_update f s) = pgdir_ok d xs s"
  "tab d i (taken s) = tab d i s" "vmap d (taken s) = vmap d s" "pgdir_ok d xs (taken s) = pgdir_ok d xs s"
  by (simp_all add: tab_def get_pte_def pgdir_ok_def vmap_cong [of "km_update f s" s] vmap_cong [of "taken s" s])

lemma page_aligned: "page_ok e v \<Longrightarrow> 4096 dvd unat v"
  by (simp add: page_ok_def mod_PGSIZE)

lemma walkpgdir_wp:
  fixes s :: "'x mem_st_scheme"
  assumes ok: "vm_ok H d xs s" and Q: "\<And>r t ys. walk_post H d va xs s r t ys \<Longrightarrow> Q r t"
  shows "wp (walkpgdir d va True) Q s"
proof (cases "tab d (PDX va) s")
  case (Some t)
  then have "walk_post H d va xs s (Some (t, PTX va)) s xs"
    using ok by (auto simp: walk_post_def vm_frame_def vm_ok_def)
  from Q [OF this] Some show ?thesis by (auto simp: walkpgdir_def tab_def Let_def split: if_splits)
next
  case None
  then have nop: "get_pte (d, PDX va) s AND PTE_P = 0" by (auto simp: tab_def Let_def split: if_splits)
  note o = ok [unfolded vm_ok_def]
  have "wp kalloc (\<lambda>p. wp (if p = 0 then ret None else seqK (set_page p (replicate 4096 0))
      (seqK (set_pte (d, PDX va) (V2P p OR PTE_P OR PTE_W OR PTE_U)) (ret (Some (p, PTX va))))) Q) s"
  proof (rule kalloc_wp [of H])
    fix m assume m: "mach_inv H m" "curproc m = curproc (km s)" "ident m = ident (km s)"
    let ?s = "(taken s)\<lparr>km := m\<rparr>"
    show "wp (if freelist s = 0 then ret None else seqK (set_page (freelist s) (replicate 4096 0))
      (seqK (set_pte (d, PDX va) (V2P (freelist s) OR PTE_P OR PTE_W OR PTE_U)) (ret (Some (freelist s, PTX va))))) Q ?s"
    proof (cases xs)
      case Nil
      moreover have "vmap d s (vpn va) = None" using None by (simp add: vmap_def vpn_def)
      ultimately have "walk_post H d va xs s None ?s []"
        using o m taken_inv [of "[]" s] by (simp add: walk_post_def vm_frame_def vm_ok_def)
      from Q [OF this] show ?thesis using kmem_head [of xs s] o Nil by simp
    next
      case (Cons p ys)
      then have p: "freelist s = p" "p \<noteq> 0" "4096 dvd unat p" "p \<notin> set ys" "kmem_inv ys (taken s)"
        using o kmem_head [of xs s] taken_inv [of xs s] page_aligned [of "kend s" p] page_ok_nz [of "kend s" p] by (auto simp: kmem_inv_def)
      have q: "pgdir_ok d (p # ys) ?s" "tab d (PDX va) ?s = None" using o Cons None by auto
      note F = fresh_table [OF q(1) PDX_less(1) q(2) p(3,4)]
      have "walk_post H d va xs s (Some (p, PTX va)) (put_table d (PDX va) p ?s) ys"
        using o m p(5) Cons F unfolding walk_post_def
        by (intro conjI exI [of _ "[p]"]) (simp_all add: vm_frame_def vm_ok_def)
      from Q [OF this] show ?thesis using p by (simp add: set_page_def put_table_def)
    qed
  qed (use o in auto)
  then show ?thesis using nop by (simp add: walkpgdir_def)
qed


text \<open>The pages \<open>a\<close>, \<open>a + PGSIZE\<close>, ... (\<open>n\<close> of them) are mapped to \<open>pa\<close>, \<open>pa + PGSIZE\<close>, ... and nothing else changes.\<close>

definition maps_to :: "nat \<Rightarrow> u32 \<Rightarrow> u32 \<Rightarrow> u32 \<Rightarrow> (nat \<times> nat \<Rightarrow> u32 option) \<Rightarrow> (nat \<times> nat \<Rightarrow> u32 option) \<Rightarrow> bool" where
  "maps_to n a pa perm f g \<longleftrightarrow>
     (\<forall>k < n. g (vpn (a + of_nat k * PGSIZE)) = Some ((pa + of_nat k * PGSIZE) OR perm OR PTE_P)) \<and>
     (\<forall>p. (\<forall>k < n. p \<noteq> vpn (a + of_nat k * PGSIZE)) \<longrightarrow> g p = f p)"

definition unmapped :: "nat \<Rightarrow> u32 \<Rightarrow> (nat \<times> nat \<Rightarrow> u32 option) \<Rightarrow> bool" where
  "unmapped n a f \<longleftrightarrow> (\<forall>k < n. f (vpn (a + of_nat k * PGSIZE)) = None)"

lemma Suc_page: "(a :: u32) + of_nat (Suc k) * PGSIZE = (a + PGSIZE) + of_nat k * PGSIZE"
  by (simp add: algebra_simps)

lemma maps_to_Suc:
  assumes n: "n < 1048576" and g: "maps_to n (a + PGSIZE) (pa + PGSIZE) perm (f(vpn a \<mapsto> pa OR perm OR PTE_P)) g"
  shows "maps_to (Suc n) a pa perm f g"
proof -
  have ne: "vpn ((a + PGSIZE) + of_nat k * PGSIZE) \<noteq> vpn a" if "k < n" for k
    using vpn_next [of "Suc k" a] that n unfolding Suc_page by simp
  have g2: "g p = (f(vpn a \<mapsto> pa OR perm OR PTE_P)) p" if "\<forall>k < n. p \<noteq> vpn ((a + PGSIZE) + of_nat k * PGSIZE)" for p
    using g that unfolding maps_to_def by blast
  have 0: "g (vpn a) = Some (pa OR perm OR PTE_P)" using g2 [of "vpn a"] ne by (metis fun_upd_same)
  have "g (vpn (a + of_nat k * PGSIZE)) = Some ((pa + of_nat k * PGSIZE) OR perm OR PTE_P)" if "k < Suc n" for k
    using that g 0 by (cases k) (auto simp: maps_to_def Suc_page simp del: of_nat_Suc)
  moreover have "g p = f p" if "\<forall>k < Suc n. p \<noteq> vpn (a + of_nat k * PGSIZE)" for p
  proof -
    have "p \<noteq> vpn a" using that by (auto dest: spec [of _ 0])
    moreover have "\<forall>k < n. p \<noteq> vpn ((a + PGSIZE) + of_nat k * PGSIZE)"
    proof (intro allI impI)
      fix k assume "k < n"
      then show "p \<noteq> vpn ((a + PGSIZE) + of_nat k * PGSIZE)" using that Suc_page [of a k] by (metis Suc_mono)
    qed
    ultimately show ?thesis using g2 [of p] by simp
  qed
  ultimately show ?thesis unfolding maps_to_def by blast
qed

lemma unmapped_Suc:
  assumes n: "n < 1048576" and u: "unmapped (Suc n) a f"
  shows "f (vpn a) = None" "unmapped n (a + PGSIZE) (f(vpn a \<mapsto> e))"
proof -
  show "f (vpn a) = None" using u by (auto simp: unmapped_def dest: spec [of _ 0])
  show "unmapped n (a + PGSIZE) (f(vpn a \<mapsto> e))" unfolding unmapped_def
  proof (intro allI impI)
    fix k assume k: "k < n"
    then have "vpn ((a + PGSIZE) + of_nat k * PGSIZE) \<noteq> vpn a" using vpn_next [of "Suc k" a] n unfolding Suc_page by simp
    moreover have "f (vpn ((a + PGSIZE) + of_nat k * PGSIZE)) = None"
      using u k Suc_page [of a k] by (metis Suc_mono unmapped_def)
    ultimately show "(f(vpn a \<mapsto> e)) (vpn ((a + PGSIZE) + of_nat k * PGSIZE)) = None" by simp
  qed
qed

text \<open>Success, and failure with the free list used up after some of the pages were mapped.\<close>

definition map_post :: "lockid set \<Rightarrow> nat \<Rightarrow> u32 \<Rightarrow> u32 \<Rightarrow> u32 \<Rightarrow> u32 \<Rightarrow> u32 list \<Rightarrow> 'x mem_st_scheme \<Rightarrow> int \<Rightarrow> 'x mem_st_scheme \<Rightarrow> bool" where
  "map_post H n d a pa perm xs s r t \<longleftrightarrow> (\<exists>us ys. xs = us @ ys \<and> vm_ok H d ys t \<and> vm_frame H xs s t \<and>
     (r = 0 \<and> maps_to n a pa perm (vmap d s) (vmap d t) \<or>
      r = - 1 \<and> ys = [] \<and> length xs < n \<and> (\<exists>k < n. maps_to k a pa perm (vmap d s) (vmap d t))))"

lemma vm_ok_entry:
  assumes "vm_ok H d ys t" "tab d (PDX va) t = Some tb" "v AND PTE_P \<noteq> 0"
  shows "vm_ok H d ys (put_pte (tb, PTX va) v t)" "vmap d (put_pte (tb, PTX va) v t) = (vmap d t)(vpn va \<mapsto> v)"
    "vm_frame H xs s t \<Longrightarrow> vm_frame H xs s (put_pte (tb, PTX va) v t)"
proof -
  note S = set_entry [of d ys t "PDX va" "PTX va" tb v]
  have "tb \<notin> set ys" using assms(1,2) PDX_less(1) [of va] unfolding vm_ok_def pgdir_ok_def by blast
  then show "vm_ok H d ys (put_pte (tb, PTX va) v t)" using assms S by (simp add: vm_ok_def)
  show "vmap d (put_pte (tb, PTX va) v t) = (vmap d t)(vpn va \<mapsto> v)" using assms S by (simp add: vm_ok_def vpn_def)
  show "vm_frame H xs s t \<Longrightarrow> vm_frame H xs s (put_pte (tb, PTX va) v t)" by (simp add: vm_frame_def)
qed

lemma map_one_wp:
  fixes s :: "'x mem_st_scheme"
  assumes ok: "vm_ok H d xs s" and u: "vmap d s (vpn a) = None"
    and fail: "\<And>t. xs = [] \<Longrightarrow> vm_ok H d [] t \<Longrightarrow> vmap d t = vmap d s \<Longrightarrow> vm_frame H xs s t \<Longrightarrow> Q (- 1) t"
    and K: "\<And>t us ys. xs = us @ ys \<Longrightarrow> length us \<le> 1 \<Longrightarrow> vm_ok H d ys t \<Longrightarrow> vmap d t = (vmap d s)(vpn a \<mapsto> pa OR perm OR PTE_P) \<Longrightarrow> vm_frame H xs s t \<Longrightarrow> wp k Q t"
  shows "wp (bindK (walkpgdir d a True) (\<lambda>r. case r of None \<Rightarrow> ret (- 1) | Some pte \<Rightarrow>
     bindK (gets (get_pte pte)) (\<lambda>e. if e AND PTE_P \<noteq> 0 then panic ''remap'' else seqK (set_pte pte (pa OR perm OR PTE_P)) k))) Q s"
  unfolding wp_bindK [of "walkpgdir d a True"]
proof (rule walkpgdir_wp [OF ok])
  fix r t ys assume p: "walk_post H d a xs s r t ys"
  then obtain us where w: "vm_ok H d ys t" "vmap d t = vmap d s" "xs = us @ ys" "vm_frame H xs s t" "length us \<le> 1" by (auto simp: walk_post_def)
  show "wp (case r of None \<Rightarrow> ret (- 1) | Some pte \<Rightarrow>
     bindK (gets (get_pte pte)) (\<lambda>e. if e AND PTE_P \<noteq> 0 then panic ''remap'' else seqK (set_pte pte (pa OR perm OR PTE_P)) k)) Q t"
  proof (cases r)
    case None
    then have "xs = []" "ys = []" using p by (auto simp: walk_post_def)
    then show ?thesis using None w fail by simp
  next
    case (Some pte)
    then obtain tb where pte: "pte = (tb, PTX a)" "tab d (PDX a) t = Some tb" using p by (cases pte) (auto simp: walk_post_def)
    have "vmap d t (vpn a) = None" using u w(2) by simp
    then have np: "get_pte pte t AND PTE_P = 0" using pte by (simp add: vmap_def vpn_def split: if_splits)
    have v: "(pa OR perm OR PTE_P) AND PTE_P \<noteq> 0" using PTE_present [of "pa OR perm"] by (simp add: or.assoc)
    note E = vm_ok_entry [OF w(1) pte(2) v]
    have "wp k Q (put_pte pte (pa OR perm OR PTE_P) t)"
      by (rule K [OF w(3,5)]) (use E w pte(1) in auto)
    then show ?thesis using Some np by simp
  qed
qed

lemma mappages_loop_wp:
  fixes s :: "'x mem_st_scheme"
  assumes "vm_ok H d xs s" "unmapped (Suc n) a (vmap d s)" "n < 1048576" "lst = a + of_nat n * PGSIZE"
    "\<And>r t. map_post H (Suc n) d a pa perm xs s r t \<Longrightarrow> Q r t"
  shows "wp (mappages_loop (Suc n) d a lst pa perm) Q s"
  using assms
proof (induction n arbitrary: a pa xs s)
  case 0
  note u = unmapped_Suc(1) [OF _ 0(2)]
  show ?case unfolding mappages_loop.simps(2)
  proof (rule map_one_wp [OF 0(1)])
    show "vmap d s (vpn a) = None" using u by simp
    fix t assume "xs = []" "vm_ok H d [] t" "vmap d t = vmap d s" "vm_frame H xs s t"
    then show "Q (- 1) t" by (intro 0(5)) (auto simp: map_post_def maps_to_def)
  next
    fix t us ys assume t: "xs = us @ ys" "vm_ok H d ys t" "vmap d t = (vmap d s)(vpn a \<mapsto> pa OR perm OR PTE_P)" "vm_frame H xs s t"
      and one: "length us \<le> 1"
    then have "map_post H (Suc 0) d a pa perm xs s 0 t" unfolding map_post_def by (intro exI [of _ us] exI [of _ ys]) (auto simp: maps_to_def)
    then show "wp (if a = lst then ret 0 else mappages_loop 0 d (a + PGSIZE) lst (pa + PGSIZE) perm) Q t"
      using 0(4,5) by simp
  qed
next
  case (Suc n)
  have n: "Suc n < 1048576" "n < 1048576" using Suc.prems(3) by auto
  note u = unmapped_Suc [OF n(1) Suc.prems(2)]
  have ne: "a \<noteq> lst" using vpn_next [of "Suc n" a] n Suc.prems(4) by auto
  have l: "lst = (a + PGSIZE) + of_nat n * PGSIZE" using Suc.prems(4) Suc_page [of a n] by simp
  show ?case unfolding mappages_loop.simps(2) [of "Suc n"]
  proof (rule map_one_wp [OF Suc.prems(1) u(1)])
    fix t assume "xs = []" "vm_ok H d [] t" "vmap d t = vmap d s" "vm_frame H xs s t"
    then show "Q (- 1) t" by (intro Suc.prems(5)) (auto simp: map_post_def maps_to_def)
  next
    fix t us ys assume t: "xs = us @ ys" "vm_ok H d ys t" "vmap d t = (vmap d s)(vpn a \<mapsto> pa OR perm OR PTE_P)" "vm_frame H xs s t"
      and one: "length us \<le> 1"
    have "wp (mappages_loop (Suc n) d (a + PGSIZE) lst (pa + PGSIZE) perm) Q t"
    proof (rule Suc.IH [OF t(2) _ n(2) l])
      show "unmapped (Suc n) (a + PGSIZE) (vmap d t)" unfolding t(3) by (rule u(2))
      fix r v assume "map_post H (Suc n) d (a + PGSIZE) (pa + PGSIZE) perm ys t r v"
      then obtain vs zs where v: "ys = vs @ zs" "vm_ok H d zs v" "vm_frame H ys t v"
        "r = 0 \<and> maps_to (Suc n) (a + PGSIZE) (pa + PGSIZE) perm (vmap d t) (vmap d v) \<or>
         r = - 1 \<and> zs = [] \<and> length ys < Suc n \<and> (\<exists>k < Suc n. maps_to k (a + PGSIZE) (pa + PGSIZE) perm (vmap d t) (vmap d v))"
        unfolding map_post_def by blast
      have m: "maps_to (Suc k) a pa perm (vmap d s) (vmap d v)" if "maps_to k (a + PGSIZE) (pa + PGSIZE) perm (vmap d t) (vmap d v)" "k \<le> Suc n" for k
        using that n unfolding t(3) by (intro maps_to_Suc) auto
      have "map_post H (Suc (Suc n)) d a pa perm xs s r v" unfolding map_post_def
        by (rule exI [of _ "us @ vs"], rule exI [of _ zs])
           (use t(1) one v m vm_frame_trans [OF t(4) v(3)] in \<open>auto simp: less_Suc_eq_le\<close>)
      then show "Q r v" by (rule Suc.prems(5))
    qed
    then show "wp (if a = lst then ret 0 else mappages_loop (Suc n) d (a + PGSIZE) lst (pa + PGSIZE) perm) Q t" using ne by simp
  qed
qed


lemma aligned_diff:
  assumes "4096 dvd unat (a :: u32)" "4096 dvd unat b"
  shows "4096 dvd unat (a - b)"
proof -
  obtain i j where ij: "unat a = 4096 * i" "unat b = 4096 * j" using assms by (auto elim!: dvdE)
  have "unat (a - b) = (if unat b \<le> unat a then unat a - unat b else unat a + 4294967296 - unat b)"
    by (simp add: unat_sub_if')
  also have "\<dots> = 4096 * (if j \<le> i then i - j else i + 1048576 - j)" unfolding ij by (simp add: diff_mult_distrib2)
  finally show ?thesis by simp
qed

lemma aligned_PGROUNDDOWN: "4096 dvd unat (PGROUNDDOWN a)"
  by (simp add: unat_PGROUNDDOWN)

text \<open>
  C22.  Mapping pages.  \<open>mappages\<close> on a well-formed page directory, none of whose pages in the range is mapped,
  returns 0 with the pages of the range mapped to the consecutive physical pages with the permissions given and every
  other page mapped as before; or it returns \<open>-1\<close>, with the free list used up, a prefix of the range mapped
  and every other page mapped as before.  It always returns 0 if there are as many free pages as pages to map.  It does not panic,
  and the page directory, its tables and the free list stay well formed and apart.
\<close>

theorem mappages_refines:
  fixes s :: "'x mem_st_scheme"
  assumes ok: "vm_ok H d xs s" and n: "n = Suc (unat (PGROUNDDOWN (va + sz - 1) - PGROUNDDOWN va) div 4096)"
    and u: "unmapped n (PGROUNDDOWN va) (vmap d s)"
  shows "wp (mappages d va sz pa perm) (\<lambda>r t. \<exists>us ys. xs = us @ ys \<and> vm_ok H d ys t \<and>
     (r = 0 \<and> maps_to n (PGROUNDDOWN va) pa perm (vmap d s) (vmap d t) \<or>
      r = - 1 \<and> ys = [] \<and> length xs < n \<and> (\<exists>k < n. maps_to k (PGROUNDDOWN va) pa perm (vmap d s) (vmap d t)))) s"
proof -
  let ?a = "PGROUNDDOWN va" and ?l = "PGROUNDDOWN (va + sz - 1)"
  let ?n = "unat (?l - ?a) div 4096"
  have "unat (?l - ?a) = ?n * 4096" using aligned_diff [OF aligned_PGROUNDDOWN aligned_PGROUNDDOWN, of "va + sz - 1" va] by simp
  then have "(of_nat (unat (?l - ?a)) :: u32) = of_nat ?n * of_nat 4096" by (metis of_nat_mult)
  then have "?l - ?a = of_nat ?n * 4096" by simp
  then have l: "?l = ?a + of_nat ?n * PGSIZE" unfolding PGSIZE_def by (simp only: diff_eq_eq add.commute)
  have "unat (?l - ?a) < 1048576 * 4096" using unat_u32_bound [of "?l - ?a"] by linarith
  then have lt: "?n < 1048576" by (simp add: less_mult_imp_div_less)
  show ?thesis unfolding mappages_def Let_def
    by (rule mappages_loop_wp [OF ok u [unfolded n] lt l]) (unfold n map_post_def, blast)
qed

text \<open>A directory with no mappings and one free page.\<close>

definition demo_vm :: mem_st where
  "demo_vm = mem0\<lparr>freelist := 0x80300000\<rparr>"

lemma demo_vm_ok: "vm_ok {} 0x80400000 [0x80300000] demo_vm" "vmap 0x80400000 demo_vm = (\<lambda>_. None)"
proof -
  have g: "get_pte (0x80400000, i) demo_vm = 0" if "i < 1024" for i
    using get_zero [OF that] by (simp add: get_pte_def demo_vm_def mem0_def)
  have T: "tab 0x80400000 i demo_vm = None" if "i < 1024" for i using g [OF that] by (simp add: tab_def)
  then show "vmap 0x80400000 demo_vm = (\<lambda>_. None)" by (auto simp: vmap_def fun_eq_iff)
  show "vm_ok {} 0x80400000 [0x80300000] demo_vm"
    using T get_zero [of 0] by (simp add: vm_ok_def pgdir_ok_def kmem_inv_def page_ok_def demo_vm_def mem0_def param_defs V2P_def)
qed

theorem mappages_refines_witness:
  "vm_ok {} 0x80400000 [0x80300000] demo_vm \<and> wp (mappages 0x80400000 0x1000 PGSIZE 0x300000 (PTE_W OR PTE_U))
     (\<lambda>r t. r = 0 \<and> vmap 0x80400000 t (0, 1) = Some 0x300007) demo_vm"
proof -
  have a: "PGROUNDDOWN 0x1000 = 0x1000" "PGROUNDDOWN (0x1000 + PGSIZE - 1) = 0x1000" by (simp_all add: PGROUNDDOWN_def PGSIZE_def)
  have n: "1 = Suc (unat (PGROUNDDOWN (0x1000 + PGSIZE - 1) - PGROUNDDOWN 0x1000) div 4096)" unfolding a by simp
  have u: "unmapped 1 (PGROUNDDOWN 0x1000) (vmap 0x80400000 demo_vm)" by (simp add: unmapped_def demo_vm_ok)
  have v: "vpn 0x1000 = (0, 1)" by (simp add: vpn_def PDX_PTX)
  have "wp (mappages 0x80400000 0x1000 PGSIZE 0x300000 (PTE_W OR PTE_U)) (\<lambda>r t. r = 0 \<and> vmap 0x80400000 t (0, 1) = Some 0x300007) demo_vm"
    by (rule wp_mono [OF mappages_refines [OF demo_vm_ok(1) n u]]) (auto simp: a maps_to_def v param_defs)
  then show ?thesis using demo_vm_ok by blast
qed

end
