(* ===== verification/Vm_Copy.thy ===== *)
theory Vm_Copy
  imports Vm_Maps
begin

unbundle bit_operations_syntax

text \<open>
  Copying to user memory.  A page directory also represents the contents of the user's address space, byte
  by byte: the bytes of the pages it maps with user permission.  \<open>copyout\<close> writes a range of that space and
  nothing else.
\<close>

section \<open>The user's view of memory\<close>

definition upage :: "u32 \<Rightarrow> 'x mem_st_scheme \<Rightarrow> u32 \<Rightarrow> u32 option" where
  "upage d s va = (case vmap d s (vpn va) of None \<Rightarrow> None | Some e \<Rightarrow> if e AND PTE_U = 0 then None else Some (P2V (PTE_ADDR e)))"

definition ubyte :: "u32 \<Rightarrow> 'x mem_st_scheme \<Rightarrow> u32 \<Rightarrow> byte option" where
  "ubyte d s va = map_option (\<lambda>v. ram s v ! (unat va mod 4096)) (upage d s va)"

text \<open>The user pages are distinct frames, apart from the directory and its tables.\<close>

definition frames_ok :: "u32 \<Rightarrow> 'x mem_st_scheme \<Rightarrow> bool" where
  "frames_ok d s \<longleftrightarrow> (\<forall>a v. upage d s a = Some v \<longrightarrow> v \<noteq> 0 \<and> v \<noteq> d \<and> (\<forall>i < 1024. tab d i s \<noteq> Some v) \<and> length (ram s v) = 4096) \<and>
     (\<forall>a b v. upage d s a = Some v \<longrightarrow> upage d s b = Some v \<longrightarrow> vpn a = vpn b)"

definition uwrite :: "u32 \<Rightarrow> byte list \<Rightarrow> (u32 \<Rightarrow> byte option) \<Rightarrow> u32 \<Rightarrow> byte option" where
  "uwrite va bs f = (\<lambda>a. if unat va \<le> unat a \<and> unat a < unat va + length bs then Some (bs ! (unat a - unat va)) else f a)"

lemma walk_noalloc_wp [simp]:
  "wp (walkpgdir d va False) Q s \<longleftrightarrow> Q (map_option (\<lambda>t. (t, PTX va)) (tab d (PDX va) s)) s"
  by (simp add: walkpgdir_def tab_def Let_def)

lemma upage_vpn: "vpn a = vpn b \<Longrightarrow> upage d s a = upage d s b"
  by (simp add: upage_def)

lemma uva2ka_wp:
  assumes "tab d (PDX va) s \<noteq> None" "Q (case upage d s va of None \<Rightarrow> 0 | Some v \<Rightarrow> v) s"
  shows "wp (uva2ka d va) Q s"
proof -
  obtain t where t: "tab d (PDX va) s = Some t" using assms(1) by blast
  have "upage d s va = (let e = get_pte (t, PTX va) s in if e AND PTE_P = 0 then None else if e AND PTE_U = 0 then None else Some (P2V (PTE_ADDR e)))"
    using t by (simp add: upage_def vmap_def vpn_def Let_def)
  then show ?thesis using assms(2) t by (auto simp: uva2ka_def Let_def split: if_splits)
qed

section \<open>Writing in a page\<close>

definition moved :: "u32 \<Rightarrow> nat \<Rightarrow> byte list \<Rightarrow> 'x mem_st_scheme \<Rightarrow> 'x mem_st_scheme" where
  "moved v off bs s = s\<lparr>ram := (ram s)(v := take off (ram s v) @ bs @ drop (off + length bs) (ram s v))\<rparr>"

lemma wp_move_in [simp]: "wp (move_in v off bs) Q s \<longleftrightarrow> Q () (moved v off bs s)"
  by (simp add: move_in_def moved_def)

lemma moved_nth:
  assumes "length (ram s v) = 4096" "off + length bs \<le> 4096" "j < 4096"
  shows "ram (moved v off bs s) v ! j = (if off \<le> j \<and> j < off + length bs then bs ! (j - off) else ram s v ! j)"
  using assms by (auto simp: moved_def nth_append)

lemma moved_keeps:
  assumes ok: "frames_ok d s" and v: "upage d s a = Some v" and len: "off + length bs \<le> 4096"
  shows "vmap d (moved v off bs s) = vmap d s" "upage d (moved v off bs s) = upage d s" "tab d i (moved v off bs s) = tab d i s"
    "frames_ok d (moved v off bs s)" "p \<noteq> v \<Longrightarrow> ram (moved v off bs s) p = ram s p"
proof -
  have v': "v \<noteq> d" "\<forall>i < 1024. tab d i s \<noteq> Some v" "length (ram s v) = 4096" using ok v unfolding frames_ok_def by blast+
  have r: "ram (moved v off bs s) p = ram s p" if "p \<noteq> v" for p using that by (simp add: moved_def)
  then show "p \<noteq> v \<Longrightarrow> ram (moved v off bs s) p = ram s p" .
  have T: "tab d i (moved v off bs s) = tab d i s" for i using r [of d] v'(1) by (simp add: tab_def get_pte_def)
  show "tab d i (moved v off bs s) = tab d i s" by (rule T)
  have "vmap d (moved v off bs s) (i, j) = vmap d s (i, j)" for i j
  proof (cases "i < 1024 \<and> tab d i s \<noteq> None")
    case True
    then obtain t where t: "tab d i s = Some t" by auto
    then have "t \<noteq> v" using v'(2) True by auto
    then have "get_pte (t, j) (moved v off bs s) = get_pte (t, j) s" using r by (simp add: get_pte_def)
    then show ?thesis using t by (simp add: vmap_def T)
  qed (auto simp: vmap_def T)
  then show M: "vmap d (moved v off bs s) = vmap d s" by (simp add: fun_eq_iff)
  show U: "upage d (moved v off bs s) = upage d s" by (rule ext) (simp only: upage_def M)
  have L: "length (ram (moved v off bs s) p) = length (ram s p)" for p using v'(3) len by (simp add: moved_def)
  show "frames_ok d (moved v off bs s)" using ok unfolding frames_ok_def U T L .
qed

lemma moved_bytes:
  assumes ok: "frames_ok d s" and v: "upage d s va = Some v" and off: "off = unat va mod 4096" "off + length bs \<le> 4096"
  shows "ubyte d (moved v off bs s) = uwrite va bs (ubyte d s)"
proof
  fix a
  note K = moved_keeps [OF ok v off(2)]
  have len: "length (ram s v) = 4096" using ok v unfolding frames_ok_def by blast
  show "ubyte d (moved v off bs s) a = uwrite va bs (ubyte d s) a"
  proof (cases "upage d s a = Some v")
    case True
    then have p: "unat a div 4096 = unat va div 4096" using ok v unfolding frames_ok_def vpn_eq_iff by blast
    have "unat a = unat a div 4096 * 4096 + unat a mod 4096" "unat va = unat va div 4096 * 4096 + off" using off(1) by simp_all
    then have "unat va \<le> unat a \<longleftrightarrow> off \<le> unat a mod 4096" "unat a - unat va = unat a mod 4096 - off"
      "unat a < unat va + length bs \<longleftrightarrow> unat a mod 4096 < off + length bs" unfolding p by linarith+
    then show ?thesis using True K(2) moved_nth [OF len off(2), of "unat a mod 4096"] by (simp add: ubyte_def uwrite_def)
  next
    case False
    have "\<not> (unat va \<le> unat a \<and> unat a < unat va + length bs)"
    proof
      assume "unat va \<le> unat a \<and> unat a < unat va + length bs"
      moreover have "4096 * (unat va div 4096) + off = unat va" using off(1) by simp
      ultimately have "4096 * (unat va div 4096) \<le> unat a" "unat a < 4096 * (unat va div 4096) + 4096" using off(2) by linarith+
      then have "unat a div 4096 = unat va div 4096" by (intro div_nat_eqI) simp_all
      then show False using False v upage_vpn [of a va d s] by (simp add: vpn_eq_iff)
    qed
    then show ?thesis using False K(2,5) by (cases "upage d s a") (auto simp: ubyte_def uwrite_def)
  qed
qed


section \<open>copyout\<close>

lemma uwrite_append:
  assumes "unat va + length xs + length ys \<le> 4294967296" "unat vb = unat va + length xs"
  shows "uwrite vb ys (uwrite va xs f) = uwrite va (xs @ ys) f"
  using assms by (auto simp: uwrite_def fun_eq_iff nth_append)

lemma uwrite_Nil [simp]: "uwrite va [] f = f"
  by (auto simp: uwrite_def fun_eq_iff)

definition tables_for :: "u32 \<Rightarrow> u32 \<Rightarrow> nat \<Rightarrow> 'x mem_st_scheme \<Rightarrow> bool" where
  "tables_for d va n s \<longleftrightarrow> (\<forall>a. unat va \<le> unat a \<and> unat a < unat va + n \<longrightarrow> tab d (PDX a) s \<noteq> None)"

definition copy_post :: "u32 \<Rightarrow> u32 \<Rightarrow> byte list \<Rightarrow> 'x mem_st_scheme \<Rightarrow> int \<Rightarrow> 'x mem_st_scheme \<Rightarrow> bool" where
  "copy_post d va bs s r t \<longleftrightarrow> frames_ok d t \<and> vmap d t = vmap d s \<and> (\<forall>p. (\<forall>a. upage d s a \<noteq> Some p) \<longrightarrow> ram t p = ram s p) \<and>
     (r = 0 \<and> ubyte d t = uwrite va bs (ubyte d s) \<or>
      r = - 1 \<and> (\<exists>k < length bs. upage d s (va + of_nat k) = None \<and> ubyte d t = uwrite va (take k bs) (ubyte d s)))"

lemma copyout_loop_Nil [simp]: "copyout_loop n d va [] = ret 0"
  by (cases n) simp_all

text \<open>The rest of the range after the first page.\<close>

lemma copy_post_next:
  fixes s :: "'x mem_st_scheme"
  assumes m: "m \<le> length bs" "unat va' = unat va + m" "unat va + length bs \<le> 4294967296"
    and u: "upage d u = upage d s" "vmap d u = vmap d s" "ubyte d u = uwrite va (take m bs) (ubyte d s)"
      "\<And>p. (\<forall>a. upage d s a \<noteq> Some p) \<Longrightarrow> ram u p = ram s p"
    and p: "copy_post d va' (drop m bs) u r t"
  shows "copy_post d va bs s r t"
proof -
  have w: "uwrite va' (take k (drop m bs)) (ubyte d u) = uwrite va (take (m + k) bs) (ubyte d s)" for k
    unfolding u(3) using m by (subst uwrite_append) (auto simp: take_add)
  have "r = 0 \<and> ubyte d t = uwrite va bs (ubyte d s) \<or>
      r = - 1 \<and> (\<exists>k < length bs. upage d s (va + of_nat k) = None \<and> ubyte d t = uwrite va (take k bs) (ubyte d s))"
  proof (cases "r = 0")
    case True
    then show ?thesis using p w [of "length (drop m bs)"] m(1) by (auto simp: copy_post_def)
  next
    case False
    then obtain k where k: "k < length (drop m bs)" "upage d u (va' + of_nat k) = None" "ubyte d t = uwrite va' (take k (drop m bs)) (ubyte d u)"
      and r: "r = - 1" using p by (auto simp: copy_post_def)
    have "va' + of_nat k = va + of_nat (m + k)" using arg_cong [OF m(2), of "of_nat :: nat \<Rightarrow> u32"] by simp
    then show ?thesis using k r w [of k] u(1) by (auto simp: add.assoc intro!: exI [of _ "m + k"])
  qed
  then show ?thesis using p u by (auto simp: copy_post_def)
qed

lemma next_page:
  assumes "unat va + (4096 - unat va mod 4096) < 4294967296"
  shows "unat (PGROUNDDOWN va + PGSIZE) = unat va + (4096 - unat va mod 4096)"
proof -
  have "unat va div 4096 * 4096 + unat va mod 4096 = unat va" "unat va mod 4096 < 4096" by simp_all
  then have "unat va div 4096 * 4096 + 4096 = unat va + (4096 - unat va mod 4096)" by linarith
  then show ?thesis using assms by (simp add: unat_word_ariths(1) PGSIZE_def unat_PGROUNDDOWN)
qed

lemma copyout_loop_wp:
  fixes s :: "'x mem_st_scheme"
  assumes "frames_ok d s" "unat va + length bs \<le> 4294967296" "tables_for d va (length bs) s" "length bs \<le> n"
    "\<And>r t. copy_post d va bs s r t \<Longrightarrow> Q r t"
  shows "wp (copyout_loop n d va bs) Q s"
  using assms
proof (induction n arbitrary: va bs s Q)
  case 0
  then show ?case by (simp add: copy_post_def)
next
  case (Suc n)
  show ?case
  proof (cases "bs = []")
    case True
    then show ?thesis using Suc.prems by (simp add: copy_post_def)
  next
    case False
    let ?va0 = "PGROUNDDOWN va" and ?off = "unat va mod 4096"
    let ?m = "min (4096 - ?off) (length bs)"
    have va0: "unat ?va0 = unat va div 4096 * 4096" by (rule unat_PGROUNDDOWN)
    have off: "unat (va - ?va0) = ?off"
      using va0 by (simp add: unat_sub_if' minus_div_mult_eq_mod)
    have vp: "vpn ?va0 = vpn va" by (simp add: vpn_eq_iff va0)
    have tb: "tab d (PDX ?va0) s \<noteq> None" using Suc.prems(3) vp False by (auto simp: tables_for_def vpn_def)
    have "wp (uva2ka d ?va0) (\<lambda>pa0. wp (if pa0 = 0 then ret (- 1) else seqK (move_in pa0 ?off (take ?m bs))
        (copyout_loop n d (?va0 + PGSIZE) (drop ?m bs))) Q) s"
    proof (rule uva2ka_wp [OF tb])
      show "wp (if (case upage d s ?va0 of None \<Rightarrow> 0 | Some v \<Rightarrow> v) = 0 then ret (- 1) else
        seqK (move_in (case upage d s ?va0 of None \<Rightarrow> 0 | Some v \<Rightarrow> v) ?off (take ?m bs)) (copyout_loop n d (?va0 + PGSIZE) (drop ?m bs))) Q s"
      proof (cases "upage d s va")
        case None
        then have "copy_post d va bs s (- 1) s" using Suc.prems(1) False by (auto simp: copy_post_def intro!: exI [of _ 0])
        then show ?thesis using None Suc.prems(5) upage_vpn [OF vp, of d s] by simp
      next
        case (Some v)
        have v: "v \<noteq> 0" using Suc.prems(1) Some unfolding frames_ok_def by blast
        have len: "?off + length (take ?m bs) \<le> 4096" by simp
        let ?s = "moved v ?off (take ?m bs) s"
        note K = moved_keeps [OF Suc.prems(1) Some len] and B = moved_bytes [OF Suc.prems(1) Some refl len]
        have R: "ram ?s p = ram s p" if "\<forall>a. upage d s a \<noteq> Some p" for p
          using that Some by (intro K(5)) auto
        have m: "0 < ?m" "?m \<le> length bs" using False by auto
        have "wp (copyout_loop n d (?va0 + PGSIZE) (drop ?m bs)) Q ?s"
        proof (cases "?m < length bs")
          case False
          then have e: "drop ?m bs = []" "take ?m bs = bs" by auto
          have "copy_post d va bs s 0 ?s" unfolding copy_post_def using K(1,4) B e(2) R by simp
          then show ?thesis using e Suc.prems(5) by simp
        next
          case True
          then have n: "unat (?va0 + PGSIZE) = unat va + ?m" using next_page [of va] Suc.prems(2) by simp
          show ?thesis
          proof (rule Suc.IH [OF K(4)])
            show "length (drop ?m bs) \<le> n" using Suc.prems(4) m by simp
            show "unat (?va0 + PGSIZE) + length (drop ?m bs) \<le> 4294967296" using n Suc.prems(2) m by simp
            show "tables_for d (?va0 + PGSIZE) (length (drop ?m bs)) ?s" using Suc.prems(3) n m by (auto simp: tables_for_def K(3))
          next
            fix r t assume "copy_post d (?va0 + PGSIZE) (drop ?m bs) ?s r t"
            then show "Q r t"
              by (intro Suc.prems(5)) (rule copy_post_next [OF m(2) n Suc.prems(2) K(2,1) B], erule R)
          qed
        qed
        then show ?thesis using v Some upage_vpn [OF vp, of d s] by simp
      qed
    qed
    then show ?thesis using False unfolding copyout_loop.simps Let_def off by simp
  qed
qed

text \<open>
  C23. \<open>copyout\<close> writes a user range across page boundaries: on success (0) the user sees exactly the bytes
  written at \<open>va\<close> and everything else as it was, and on failure (-1) an address of the range has no user
  page and just the bytes below that address are written.  In both cases the mappings and all memory outside the
  user's pages stay the same.
\<close>

theorem copyout_refines:
  assumes "frames_ok d s" "unat va + length bs \<le> 4294967296" "tables_for d va (length bs) s"
  shows "wp (copyout d va bs) (\<lambda>r t. vmap d t = vmap d s \<and> (\<forall>p. (\<forall>a. upage d s a \<noteq> Some p) \<longrightarrow> ram t p = ram s p) \<and>
     (r = 0 \<and> ubyte d t = uwrite va bs (ubyte d s) \<or>
      r = - 1 \<and> (\<exists>k < length bs. upage d s (va + of_nat k) = None \<and> ubyte d t = uwrite va (take k bs) (ubyte d s)))) s"
  unfolding copyout_def by (rule copyout_loop_wp [OF assms order.refl]) (simp add: copy_post_def)

text \<open>A directory with one user page, at address 0x1000.\<close>

definition demo_user :: mem_st where
  "demo_user = put_pte (0x80300000, 1) 0x500007 (put_pte (0x80400000, 0) 0x300007 mem0)"

lemma demo_user_get:
  assumes "j < 1024"
  shows "get_pte (p, j) demo_user = (if p = 0x80300000 \<and> j = 1 then 0x500007 else if p = 0x80400000 \<and> j = 0 then 0x300007 else 0)"
proof -
  have "get_pte (p, j) mem0 = 0" using get_zero [OF assms] by (simp add: get_pte_def mem0_def)
  then show ?thesis using assms by (simp add: demo_user_def get_put_pte mem0_def)
qed

lemma demo_user_map:
  "i < 1024 \<Longrightarrow> tab 0x80400000 i demo_user = (if i = 0 then Some 0x80300000 else None)"
  "vmap 0x80400000 demo_user (i, j) = (if (i, j) = (0, 1) then Some 0x500007 else None)"
  "upage 0x80400000 demo_user a = (if unat a div 4096 = 1 then Some 0x80500000 else None)"
proof -
  show T: "i < 1024 \<Longrightarrow> tab 0x80400000 i demo_user = (if i = 0 then Some 0x80300000 else None)" for i
    by (simp add: tab_def demo_user_get param_defs P2V_def PTE_ADDR_def)
  show V: "vmap 0x80400000 demo_user (i, j) = (if (i, j) = (0, 1) then Some 0x500007 else None)" for i j
    by (cases "i < 1024 \<and> j < 1024") (auto simp: vmap_def T demo_user_get param_defs)
  have "vpn a = (0, 1) \<longleftrightarrow> unat a div 4096 = 1" using vpn_eq_iff [of a "0x1000"] by (simp add: vpn_def PDX_PTX)
  then show "upage 0x80400000 demo_user a = (if unat a div 4096 = 1 then Some 0x80500000 else None)"
    using V by (cases "vpn a") (auto simp: upage_def param_defs P2V_def PTE_ADDR_def)
qed

lemma demo_user_ok: "frames_ok 0x80400000 demo_user"
  by (auto simp: frames_ok_def demo_user_map vpn_eq_iff split: if_splits) (simp add: demo_user_def mem0_def)

theorem copyout_refines_witness:
  "frames_ok 0x80400000 demo_user \<and> wp (copyout 0x80400000 0x1004 [7, 8]) (\<lambda>r t. r = 0 \<and> ubyte 0x80400000 t 0x1005 = Some 8) demo_user"
proof -
  have p: "unat a div 4096 = 1" if "unat (0x1004 :: u32) \<le> unat a" "unat a < unat (0x1004 :: u32) + length [7, 8 :: byte]" for a :: u32
    using that by (intro div_nat_eqI) simp_all
  have tb: "tables_for 0x80400000 0x1004 (length [7, 8 :: byte]) demo_user"
    unfolding tables_for_def using p by (auto simp: demo_user_map PDX_PTX)
  have up: "upage 0x80400000 demo_user (0x1004 + of_nat k) = Some 0x80500000" if "k < Suc (Suc 0)" for k
    using that by (auto simp: demo_user_map less_Suc_eq)
  have "wp (copyout 0x80400000 0x1004 [7, 8]) (\<lambda>r t. r = 0 \<and> ubyte 0x80400000 t 0x1005 = Some 8) demo_user"
    by (rule wp_mono [OF copyout_refines [OF demo_user_ok _ tb]]) (auto simp: uwrite_def up)
  then show ?thesis using demo_user_ok by blast
qed

end
