(* ===== verification/Life.thy ===== *)
theory Life
  imports File
begin

unbundle bit_operations_syntax

text \<open>
  The life of processes and threads (\<open>proc.c\<close>): creation, growth, exit and collection, the thread calls of
  this kernel and the calls that copy memory out for a debugger.

  A trap frame and a kernel context are the \<open>p_tf\<close> and \<open>p_context\<close> of the process, which the code keeps at
  the top of the kernel stack.  \<open>forkret_at\<close> and \<open>trapret_at\<close> are the link addresses of those two
  routines and \<open>initcode\<close> the bytes of the first program.  A thread mutex is the word at a user address.
  \<open>argptr\<close> gives the thread calls addresses in user memory, so the lock is never \<open>ptable.lock\<close>.
\<close>

section \<open>State\<close>

record sys_st = file_st +
  ticks :: u32
  forkret_at :: u32
  trapret_at :: u32
  initcode :: "byte list"
  first_ret :: bool

definition with_proc :: "(nat \<Rightarrow> ('x pt_st_scheme, 'a) kop) \<Rightarrow> ('x pt_st_scheme, 'a) kop" where
  "with_proc m = bindK (onm myproc) (\<lambda>po. case po of None \<Rightarrow> panic ''null dereference'' | Some p \<Rightarrow> m p)"

definition zero_context :: kcontext where
  "zero_context = \<lparr>cx_edi = 0, cx_esi = 0, cx_ebx = 0, cx_ebp = 0, cx_eip = 0\<rparr>"

definition zero_tf :: trapframe where
  "zero_tf = \<lparr>tf_edi = 0, tf_esi = 0, tf_ebp = 0, tf_oesp = 0, tf_ebx = 0, tf_edx = 0, tf_ecx = 0, tf_eax = 0, tf_gs = 0, tf_fs = 0,
     tf_es = 0, tf_ds = 0, tf_trapno = 0, tf_err = 0, tf_eip = 0, tf_cs = 0, tf_eflags = 0, tf_esp = 0, tf_ss = 0\<rparr>"

text \<open>The size of a trap frame: 19 words, the 16-bit segment registers padded.\<close>

definition TF_SIZE :: nat where "TF_SIZE = 76"

section \<open>Creation\<close>

definition allocproc :: "('x sys_st_scheme, nat option) kop" where
  "allocproc =
     seqK (onm (acquire LkPtable)) (
     bindK (gets (\<lambda>s. findix (\<lambda>p. p_state p = UNUSED) 0 (procs s))) (\<lambda>r. case r of
       None \<Rightarrow> seqK (onm (release LkPtable)) (ret None)
     | Some p \<Rightarrow>
         seqK (modify (upd_proc p (\<lambda>q. q\<lparr>p_state := EMBRYO\<rparr>))) (
         seqK (modify (\<lambda>s. upd_proc p (\<lambda>q. q\<lparr>p_pid := nextpid s\<rparr>) (s\<lparr>nextpid := nextpid s + 1\<rparr>))) (
         seqK (onm (release LkPtable)) (
         bindK kalloc (\<lambda>stk.
         seqK (modify (upd_proc p (\<lambda>q. q\<lparr>p_kstack := stk\<rparr>))) (
         if stk = 0 then seqK (modify (upd_proc p (\<lambda>q. q\<lparr>p_state := UNUSED\<rparr>))) (ret None)
         else seqK (modify (\<lambda>s. s\<lparr>ram := (ram s)(stk := put32 (KSTACKSIZE - TF_SIZE - 4) (trapret_at s) (ram s stk))\<rparr>)) (
              seqK (modify (\<lambda>s. upd_proc p (\<lambda>q. q\<lparr>p_context := zero_context\<lparr>cx_eip := forkret_at s\<rparr>\<rparr>) s))
              (ret (Some p))))))))))"

definition SEG_UCODE :: "16 word" where [param_defs]: "SEG_UCODE = 3"

definition SEG_UDATA :: "16 word" where [param_defs]: "SEG_UDATA = 4"

definition DPL_USER :: "16 word" where [param_defs]: "DPL_USER = 3"

definition FL_IF :: u32 where [param_defs]: "FL_IF = 0x200"

definition init_tf :: trapframe where
  "init_tf = zero_tf\<lparr>tf_cs := push_bit 3 SEG_UCODE OR DPL_USER, tf_ds := push_bit 3 SEG_UDATA OR DPL_USER,
     tf_es := push_bit 3 SEG_UDATA OR DPL_USER, tf_ss := push_bit 3 SEG_UDATA OR DPL_USER, tf_eflags := FL_IF,
     tf_esp := PGSIZE, tf_eip := 0\<rparr>"

definition userinit :: "fsh \<Rightarrow> 'x sys_st_scheme devsw \<Rightarrow> ('x sys_st_scheme, unit) kop" where
  "userinit G dv =
     bindK allocproc (\<lambda>r.
     seqK (modify (\<lambda>s. s\<lparr>initproc := r\<rparr>)) (
     case r of None \<Rightarrow> panic ''null dereference''
     | Some p \<Rightarrow>
       bindK setupkvm (\<lambda>d.
       seqK (modify (upd_proc p (\<lambda>q. q\<lparr>p_pgdir := d\<rparr>))) (
       if d = 0 then panic ''userinit: out of memory?''
       else bindK (gets initcode) (\<lambda>ic.
            seqK (inituvm d ic) (
            seqK (modify (upd_proc p (\<lambda>q. q\<lparr>p_sz := PGSIZE, p_tf := init_tf, p_name := ''initcode''\<rparr>))) (
            bindK (namei G dv [slash]) (\<lambda>ip.
            seqK (modify (upd_proc p (\<lambda>q. q\<lparr>p_cwd := ip\<rparr>))) (
            seqK (onm (acquire LkPtable)) (
            seqK (modify (upd_proc p (\<lambda>q. q\<lparr>p_state := RUNNABLE\<rparr>)))
            (onm (release LkPtable))))))))))))"

definition growproc :: "int \<Rightarrow> ('x sys_st_scheme, int) kop" where
  "growproc n = with_proc (\<lambda>p.
     bindK (gets (\<lambda>s. procs s ! p)) (\<lambda>cur.
     bindK (if n > 0 then allocuvm (p_pgdir cur) (p_sz cur) (p_sz cur + word_of_int n)
            else if n < 0 then deallocuvm (p_pgdir cur) (p_sz cur) (p_sz cur + word_of_int n)
            else ret (p_sz cur)) (\<lambda>sz.
     if n \<noteq> 0 \<and> sz = 0 then ret (- 1)
     else seqK (modify (upd_proc p (\<lambda>q. q\<lparr>p_sz := sz\<rparr>))) (
          seqK (switchuvm p)
          (ret 0)))))"

fun dup_files :: "nat \<Rightarrow> nat \<Rightarrow> nat list \<Rightarrow> ('x file_st_scheme, unit) kop" where
  "dup_files p np [] = ret ()"
| "dup_files p np (i # is) =
     bindK (gets (\<lambda>s. p_ofile (procs s ! p) ! i)) (\<lambda>o'.
     seqK (case o' of
             None \<Rightarrow> ret ()
           | Some f \<Rightarrow> bindK (filedup f) (\<lambda>f'. modify (upd_proc np (\<lambda>q. q\<lparr>p_ofile := (p_ofile q)[i := Some f']\<rparr>))))
     (dup_files p np is))"

text \<open>What \<open>fork\<close> and \<open>thread_create\<close> share: files, directory, name, and making the child runnable.\<close>

definition start_child :: "nat \<Rightarrow> nat \<Rightarrow> ('x file_st_scheme, int) kop" where
  "start_child p np =
     seqK (dup_files p np [0..<NOFILE]) (
     bindK (gets (\<lambda>s. p_cwd (procs s ! p))) (\<lambda>c. case c of
       None \<Rightarrow> panic ''null dereference''
     | Some ip \<Rightarrow>
       bindK (idup ip) (\<lambda>ip'.
       seqK (modify (upd_proc np (\<lambda>q. q\<lparr>p_cwd := Some ip'\<rparr>))) (
       seqK (modify (\<lambda>s. upd_proc np (\<lambda>q. q\<lparr>p_name := take 15 (p_name (procs s ! p))\<rparr>) s)) (
       bindK (gets (\<lambda>s. p_pid (procs s ! np))) (\<lambda>pid.
       seqK (onm (acquire LkPtable)) (
       seqK (modify (upd_proc np (\<lambda>q. q\<lparr>p_state := RUNNABLE\<rparr>))) (
       seqK (onm (release LkPtable))
       (ret pid)))))))))"

definition fork :: "('x sys_st_scheme, int) kop" where
  "fork = with_proc (\<lambda>p.
     bindK allocproc (\<lambda>r. case r of
       None \<Rightarrow> ret (- 1)
     | Some np \<Rightarrow>
       bindK (gets (\<lambda>s. procs s ! p)) (\<lambda>cur.
       bindK (copyuvm (p_pgdir cur) (p_sz cur)) (\<lambda>d.
       seqK (modify (upd_proc np (\<lambda>q. q\<lparr>p_pgdir := d\<rparr>))) (
       if d = 0 then
         bindK (gets (\<lambda>s. p_kstack (procs s ! np))) (\<lambda>stk.
         seqK (kfree stk) (
         seqK (modify (upd_proc np (\<lambda>q. q\<lparr>p_kstack := 0, p_state := UNUSED\<rparr>)))
         (ret (- 1))))
       else seqK (modify (upd_proc np (\<lambda>q. q\<lparr>p_sz := p_sz cur, p_parent := Some p, p_tf := (p_tf cur)\<lparr>tf_eax := 0\<rparr>\<rparr>)))
            (start_child p np))))))"

definition thread_create :: "u32 \<Rightarrow> u32 \<Rightarrow> u32 \<Rightarrow> ('x sys_st_scheme, int) kop" where
  "thread_create fcn arg stack =
     (if stack = 0 then ret (- 1)
      else with_proc (\<lambda>p.
        bindK allocproc (\<lambda>r. case r of
          None \<Rightarrow> ret (- 1)
        | Some np \<Rightarrow>
          bindK (gets (\<lambda>s. procs s ! p)) (\<lambda>cur.
          seqK (modify (upd_proc np (\<lambda>q. q\<lparr>p_pgdir := p_pgdir cur, p_sz := p_sz cur, p_parent := Some p, p_isThread := True,
            p_tf := (p_tf cur)\<lparr>tf_eax := 0, tf_eip := fcn, tf_esp := stack + 4096 - 4 - 4\<rparr>\<rparr>))) (
          seqK (ustore32 (stack + 4096 - 4) arg) (
          seqK (ustore32 (stack + 4096 - 4 - 4) 0xffffffff)
          (start_child p np)))))))"

definition forkret :: "fsh \<Rightarrow> ('x sys_st_scheme, unit) kop" where
  "forkret G =
     seqK (onm (release LkPtable)) (
     bindK (gets first_ret) (\<lambda>f. whenK f (
       seqK (modify (\<lambda>s. s\<lparr>first_ret := False\<rparr>)) (
       seqK (iinit G ROOTDEV)
       (initlog G ROOTDEV)))))"

section \<open>Exit\<close>

fun close_files :: "fsh \<Rightarrow> nat \<Rightarrow> nat list \<Rightarrow> ('x file_st_scheme, unit) kop" where
  "close_files G p [] = ret ()"
| "close_files G p (fd # fds) =
     bindK (gets (\<lambda>s. p_ofile (procs s ! p) ! fd)) (\<lambda>o'.
     seqK (case o' of
             None \<Rightarrow> ret ()
           | Some f \<Rightarrow> seqK (fileclose G f) (modify (upd_proc p (\<lambda>q. q\<lparr>p_ofile := (p_ofile q)[fd := None]\<rparr>))))
     (close_files G p fds))"

fun reparent :: "nat \<Rightarrow> nat list \<Rightarrow> ('x pt_st_scheme, unit) kop" where
  "reparent p [] = ret ()"
| "reparent p (i # is) =
     bindK (gets (\<lambda>s. procs s ! i)) (\<lambda>q.
     seqK (whenK (p_parent q = Some p) (
       bindK (gets initproc) (\<lambda>ip.
       seqK (modify (upd_proc i (\<lambda>q. q\<lparr>p_parent := ip\<rparr>)))
       (whenK (p_state q = ZOMBIE) (wakeup1 (map_option ChProc ip))))))
     (reparent p is))"

definition exit :: "fsh \<Rightarrow> ('x sys_st_scheme, unit) kop" where
  "exit G = with_proc (\<lambda>p.
     bindK (gets initproc) (\<lambda>ip.
     if ip = Some p then panic ''init exiting''
     else seqK (close_files G p [0..<NOFILE]) (
          seqK begin_op (
          bindK (gets (\<lambda>s. p_cwd (procs s ! p))) (\<lambda>c. case c of
            None \<Rightarrow> panic ''null dereference''
          | Some i \<Rightarrow>
            seqK (iput G i) (
            seqK (end_op G) (
            seqK (modify (upd_proc p (\<lambda>q. q\<lparr>p_cwd := None\<rparr>))) (
            seqK (onm (acquire LkPtable)) (
            bindK (gets (\<lambda>s. p_parent (procs s ! p))) (\<lambda>par.
            seqK (wakeup1 (map_option ChProc par)) (
            bindK (gets (\<lambda>s. length (procs s))) (\<lambda>n.
            seqK (reparent p [0..<n]) (
            seqK (modify (upd_proc p (\<lambda>q. q\<lparr>p_state := ZOMBIE\<rparr>))) (
            seqK sched
            (panic ''zombie exit'')))))))))))))))"

text \<open>The body of \<open>thread_exit\<close> is that of \<open>exit\<close>; like it, it does not return.\<close>

definition thread_exit :: "fsh \<Rightarrow> ('x sys_st_scheme, int) kop" where
  "thread_exit G = seqK (exit G) (panic ''zombie exit'')"

section \<open>Collection\<close>

text \<open>The fields a collected slot loses, in \<open>wait\<close> and in \<open>thread_join\<close>.\<close>

definition clear_slot :: "nat \<Rightarrow> ('x pt_st_scheme, unit) kop" where
  "clear_slot i = modify (upd_proc i (\<lambda>q. q\<lparr>p_pid := 0, p_parent := None, p_name := [], p_killed := False, p_state := UNUSED\<rparr>))"

fun wait_scan :: "nat \<Rightarrow> bool \<Rightarrow> nat list \<Rightarrow> ('x pt_st_scheme, int) kop" where
  "wait_scan p havekids [] =
     bindK (gets (\<lambda>s. p_killed (procs s ! p))) (\<lambda>k.
     if \<not> havekids \<or> k then seqK (onm (release LkPtable)) (ret (- 1))
     else await (ChProc p) LkPtable)"
| "wait_scan p havekids (i # is) =
     bindK (gets (\<lambda>s. procs s ! i)) (\<lambda>q.
     if p_parent q \<noteq> Some p then wait_scan p havekids is
     else if p_state q = ZOMBIE then
       seqK (kfree (p_kstack q)) (
       seqK (modify (upd_proc i (\<lambda>q. q\<lparr>p_kstack := 0\<rparr>))) (
       seqK (freevm (p_pgdir q)) (
       seqK (clear_slot i) (
       seqK (onm (release LkPtable))
       (ret (p_pid q))))))
     else wait_scan p True is)"

definition wait_loop :: "nat \<Rightarrow> ('x pt_st_scheme, int) kop" where
  "wait_loop p = bindK (gets (\<lambda>s. length (procs s))) (\<lambda>n. wait_scan p False [0..<n])"

definition wait :: "('x pt_st_scheme, int) kop" where
  "wait = with_proc (\<lambda>p. seqK (onm (acquire LkPtable)) (wait_loop p))"

definition wait_resume :: "nat \<Rightarrow> bool \<Rightarrow> ('x pt_st_scheme, int) kop" where
  "wait_resume p saved = seqK (sleep_resume p LkPtable saved) (wait_loop p)"

fun join_scan :: "nat \<Rightarrow> bool \<Rightarrow> nat list \<Rightarrow> ('x pt_st_scheme, int) kop" where
  "join_scan p havekids [] =
     bindK (gets (\<lambda>s. p_killed (procs s ! p))) (\<lambda>k.
     if \<not> havekids \<or> k then seqK (onm (release LkPtable)) (ret (- 1))
     else await (ChProc p) LkPtable)"
| "join_scan p havekids (i # is) =
     bindK (gets (\<lambda>s. procs s ! i)) (\<lambda>q.
     if \<not> p_isThread q \<or> p_parent q \<noteq> Some p then join_scan p havekids is
     else if p_state q = ZOMBIE then
       seqK (modify (upd_proc i (\<lambda>q. q\<lparr>p_kstack := 0\<rparr>))) (
       seqK (clear_slot i) (
       seqK (onm (release LkPtable))
       (ret (p_pid q))))
     else join_scan p True is)"

definition join_loop :: "nat \<Rightarrow> ('x pt_st_scheme, int) kop" where
  "join_loop p = bindK (gets (\<lambda>s. length (procs s))) (\<lambda>n. join_scan p False [0..<n])"

definition thread_join :: "('x pt_st_scheme, int) kop" where
  "thread_join = with_proc (\<lambda>p. seqK (onm (acquire LkPtable)) (join_loop p))"

definition thread_join_resume :: "nat \<Rightarrow> bool \<Rightarrow> ('x pt_st_scheme, int) kop" where
  "thread_join_resume p saved = seqK (sleep_resume p LkPtable saved) (join_loop p)"

section \<open>Mutexes and condition variables of threads\<close>

text \<open>One turn of the loop; when the lock is taken the process yields and tries again when resumed.\<close>

definition kernel_mutex_lock :: "u32 \<Rightarrow> ('x pt_st_scheme, unit) kop" where
  "kernel_mutex_lock lk =
     bindK (uload32 lk) (\<lambda>old.
     seqK (ustore32 lk 1) (
     if old \<noteq> 0 then yield else ret ()))"

definition kernel_mutex_lock_resume :: "u32 \<Rightarrow> bool \<Rightarrow> ('x pt_st_scheme, unit) kop" where
  "kernel_mutex_lock_resume lk saved = seqK (sched_resume saved) (seqK (onm (release LkPtable)) (kernel_mutex_lock lk))"

definition kernel_mutex_unlock :: "u32 \<Rightarrow> ('x pt_st_scheme, unit) kop" where
  "kernel_mutex_unlock lk = ustore32 lk 0"

definition user_chan :: "u32 \<Rightarrow> chan option" where
  "user_chan ch = (if ch = 0 then None else Some (ChUser ch))"

definition mysleep :: "u32 \<Rightarrow> u32 \<Rightarrow> ('x pt_st_scheme, int) kop" where
  "mysleep ch lk = bindK (onm myproc) (\<lambda>po. case po of
     None \<Rightarrow> panic ''sleep''
   | Some p \<Rightarrow>
     if lk = 0 then panic ''sleep without lk''
     else seqK (onm (acquire LkPtable)) (
          seqK (kernel_mutex_unlock lk) (
          seqK (modify (upd_proc p (\<lambda>q. q\<lparr>p_chan := user_chan ch\<rparr>))) (
          seqK (modify (upd_proc p (\<lambda>q. q\<lparr>p_state := SLEEPING\<rparr>))) (
          seqK sched
          (ret 0))))))"

definition mysleep_resume :: "nat \<Rightarrow> bool \<Rightarrow> u32 \<Rightarrow> ('x pt_st_scheme, int) kop" where
  "mysleep_resume p saved lk =
     seqK (sched_resume saved) (
     seqK (modify (upd_proc p (\<lambda>q. q\<lparr>p_chan := None\<rparr>))) (
     seqK (onm (release LkPtable)) (
     seqK (kernel_mutex_lock lk)
     (ret 0))))"

definition mywakeup :: "u32 \<Rightarrow> ('x pt_st_scheme, int) kop" where
  "mywakeup ch =
     seqK (onm (acquire LkPtable)) (
     seqK (modify (\<lambda>s. s\<lparr>procs := map (wake (user_chan ch)) (procs s)\<rparr>)) (
     seqK (onm (release LkPtable))
     (ret 0)))"

section \<open>Copying memory for a debugger\<close>

definition mywritebuffer :: "u32 \<Rightarrow> byte list \<Rightarrow> u32 \<Rightarrow> ('x pt_st_scheme, nat) kop" where
  "mywritebuffer buffer src off = seqK (storen (buffer + off) src) (ret (length src))"

fun mycopybuffer_loop :: "u32 \<Rightarrow> u32 \<Rightarrow> u32 \<Rightarrow> u32 \<Rightarrow> bool \<Rightarrow> u32 list \<Rightarrow> ('x pt_st_scheme, int) kop" where
  "mycopybuffer_loop pgdir addr buffer buffersize guardFlag [] = ret 0"
| "mycopybuffer_loop pgdir addr buffer buffersize guardFlag (i # is) =
     bindK (walkpgdir pgdir (addr + i) False) (\<lambda>r. case r of
       None \<Rightarrow> panic ''mycopybuffer: fail to walkpgdir''
     | Some pte \<Rightarrow>
       bindK (gets (get_pte pte)) (\<lambda>e.
       let n = min (unat (buffersize - i)) 4096; guard = \<not> guardFlag \<and> e AND PTE_U = 0 in
       seqK (whenK guard (storen (buffer + buffersize) (le32 i))) (
       bindK (gets (\<lambda>s. take n (ram s (P2V (PTE_ADDR e))))) (\<lambda>src.
       bindK (mywritebuffer buffer src i) (\<lambda>m.
       if m \<noteq> n then ret (- 1)
       else mycopybuffer_loop pgdir addr buffer buffersize (guardFlag \<or> guard) is)))))"

definition mycopybuffer :: "u32 \<Rightarrow> u32 \<Rightarrow> u32 \<Rightarrow> u32 \<Rightarrow> ('x pt_st_scheme, int) kop" where
  "mycopybuffer pgdir addr buffer buffersize =
     mycopybuffer_loop pgdir addr buffer buffersize False (page_addrs 0 buffersize)"

text \<open>When no process has the pid the code reads past the end of the table.\<close>

definition dump :: "int \<Rightarrow> u32 \<Rightarrow> u32 \<Rightarrow> u32 \<Rightarrow> ('x pt_st_scheme, int) kop" where
  "dump pid addr buffer buffersize =
     bindK (gets (\<lambda>s. findix (\<lambda>p. p_pid p = pid) 0 (procs s))) (\<lambda>r. case r of
       None \<Rightarrow> panic ''out of bounds''
     | Some p \<Rightarrow>
       bindK (gets (\<lambda>s. p_pgdir (procs s ! p))) (\<lambda>d.
       bindK (mycopybuffer d addr buffer buffersize) (\<lambda>r.
       if r \<noteq> 0 then panic ''dump: fail to copy'' else ret 0)))"

definition ps :: "('x pt_st_scheme, int) kop" where
  "ps = panic ''ps exec''"

end
