(* ===== verification/Syscall.thy ===== *)
theory Syscall
  imports Life
begin

unbundle bit_operations_syntax

text \<open>
  System call arguments (\<open>syscall.c\<close>) and the calls on processes (\<open>sysproc.c\<close>).  A fetch that fails is
  None.  A string argument is returned as its bytes before the NUL, where the code returns a pointer to
  them.  Three calls ignore a failed fetch and use an uninitialised variable, whose content is the argument
  \<open>junk\<close>.
\<close>

section \<open>Arguments\<close>

definition fetchint :: "u32 \<Rightarrow> ('x pt_st_scheme, int option) kop" where
  "fetchint addr = with_proc (\<lambda>p.
     bindK (gets (\<lambda>s. p_sz (procs s ! p))) (\<lambda>sz.
     if addr \<ge> sz \<or> addr + 4 > sz then ret None
     else bindK (uload32 addr) (\<lambda>v. ret (Some (sint v)))))"

fun fetchstr_loop :: "nat \<Rightarrow> u32 \<Rightarrow> ('x pt_st_scheme, byte list option) kop" where
  "fetchstr_loop 0 va = ret None"
| "fetchstr_loop (Suc n) va =
     bindK (load8 va) (\<lambda>c.
     if c = 0 then ret (Some [])
     else bindK (fetchstr_loop n (va + 1)) (\<lambda>r. ret (map_option (Cons c) r)))"

definition fetchstr :: "u32 \<Rightarrow> ('x pt_st_scheme, byte list option) kop" where
  "fetchstr addr = with_proc (\<lambda>p.
     bindK (gets (\<lambda>s. p_sz (procs s ! p))) (\<lambda>sz.
     if addr \<ge> sz then ret None
     else fetchstr_loop (unat (sz - addr)) addr))"

definition argint :: "nat \<Rightarrow> ('x pt_st_scheme, int option) kop" where
  "argint n = with_proc (\<lambda>p.
     bindK (gets (\<lambda>s. tf_esp (p_tf (procs s ! p)))) (\<lambda>esp.
     fetchint (esp + 4 + 4 * of_nat n)))"

definition argptr :: "nat \<Rightarrow> int \<Rightarrow> ('x pt_st_scheme, u32 option) kop" where
  "argptr n sz = with_proc (\<lambda>p.
     bindK (argint n) (\<lambda>r. case r of
       None \<Rightarrow> ret None
     | Some i \<Rightarrow>
       bindK (gets (\<lambda>s. p_sz (procs s ! p))) (\<lambda>psz.
       let a = word_of_int i in
       if sz < 0 \<or> a \<ge> psz \<or> a + word_of_int sz > psz then ret None else ret (Some a))))"

definition argstr :: "nat \<Rightarrow> ('x pt_st_scheme, byte list option) kop" where
  "argstr n = bindK (argint n) (\<lambda>r. case r of None \<Rightarrow> ret None | Some i \<Rightarrow> fetchstr (word_of_int i))"

text \<open>A system call that returns \<open>-1\<close> when a fetch fails.\<close>

definition bindO :: "('s, 'a option) kop \<Rightarrow> ('a \<Rightarrow> ('s, int) kop) \<Rightarrow> ('s, int) kop" where
  "bindO m f = bindK m (\<lambda>r. case r of None \<Rightarrow> ret (- 1) | Some a \<Rightarrow> f a)"

section \<open>Calls on processes\<close>

definition sys_fork :: "('x sys_st_scheme, int) kop" where
  "sys_fork = fork"

definition sys_exit :: "fsh \<Rightarrow> ('x sys_st_scheme, int) kop" where
  "sys_exit G = seqK (exit G) (ret 0)"

definition sys_wait :: "('x sys_st_scheme, int) kop" where
  "sys_wait = wait"

definition sys_kill :: "('x sys_st_scheme, int) kop" where
  "sys_kill = bindO (argint 0) kill"

definition sys_getpid :: "('x sys_st_scheme, int) kop" where
  "sys_getpid = with_proc (\<lambda>p. gets (\<lambda>s. p_pid (procs s ! p)))"

definition sys_sbrk :: "('x sys_st_scheme, int) kop" where
  "sys_sbrk = bindO (argint 0) (\<lambda>n. with_proc (\<lambda>p.
     bindK (gets (\<lambda>s. sint (p_sz (procs s ! p)))) (\<lambda>addr.
     bindK (growproc n) (\<lambda>r.
     if r < 0 then ret (- 1) else ret addr))))"

definition sys_sleep_loop :: "u32 \<Rightarrow> int \<Rightarrow> ('x sys_st_scheme, int) kop" where
  "sys_sleep_loop ticks0 n =
     bindK (gets ticks) (\<lambda>t.
     if t - ticks0 < word_of_int n then
       bindK my_killed (\<lambda>k.
       if k then seqK (onm (release LkTicks)) (ret (- 1))
       else await ChTicks LkTicks)
     else seqK (onm (release LkTicks)) (ret 0))"

definition sys_sleep :: "('x sys_st_scheme, int) kop" where
  "sys_sleep = bindO (argint 0) (\<lambda>n.
     seqK (onm (acquire LkTicks)) (
     bindK (gets ticks) (\<lambda>ticks0. sys_sleep_loop ticks0 n)))"

definition sys_sleep_resume :: "nat \<Rightarrow> bool \<Rightarrow> u32 \<Rightarrow> int \<Rightarrow> ('x sys_st_scheme, int) kop" where
  "sys_sleep_resume p saved ticks0 n = seqK (sleep_resume p LkTicks saved) (sys_sleep_loop ticks0 n)"

definition sys_uptime :: "('x sys_st_scheme, int) kop" where
  "sys_uptime =
     seqK (onm (acquire LkTicks)) (
     bindK (gets ticks) (\<lambda>xticks.
     seqK (onm (release LkTicks))
     (ret (sint xticks))))"

definition sys_dump :: "('x sys_st_scheme, int) kop" where
  "sys_dump =
     (let bad = panic ''sys_dump: args error'' in
     bindK (argint 0) (\<lambda>r. case r of None \<Rightarrow> bad | Some pid \<Rightarrow>
     bindK (argptr 1 4) (\<lambda>r. case r of None \<Rightarrow> bad | Some addr \<Rightarrow>
     bindK (argptr 2 4) (\<lambda>r. case r of None \<Rightarrow> bad | Some buffer \<Rightarrow>
     bindK (argint 3) (\<lambda>r. case r of None \<Rightarrow> bad | Some buffersize \<Rightarrow>
     dump pid addr buffer (word_of_int buffersize))))))"

definition sys_ps :: "('x sys_st_scheme, int) kop" where
  "sys_ps = ps"

definition junk_or :: "u32 \<Rightarrow> u32 option \<Rightarrow> u32" where
  "junk_or j r = (case r of None \<Rightarrow> j | Some a \<Rightarrow> a)"

definition sys_thread_create :: "(nat \<Rightarrow> u32) \<Rightarrow> ('x sys_st_scheme, int) kop" where
  "sys_thread_create junk =
     bindK (argptr 0 4) (\<lambda>fcn.
     bindK (argptr 1 4) (\<lambda>arg.
     bindK (argptr 2 4) (\<lambda>stack.
     thread_create (junk_or (junk 0) fcn) (junk_or (junk 1) arg) (junk_or (junk 2) stack))))"

definition sys_thread_join :: "('x sys_st_scheme, int) kop" where
  "sys_thread_join = thread_join"

definition sys_thread_exit :: "fsh \<Rightarrow> ('x sys_st_scheme, int) kop" where
  "sys_thread_exit G = thread_exit G"

definition sys_mysleep :: "(nat \<Rightarrow> u32) \<Rightarrow> ('x sys_st_scheme, int) kop" where
  "sys_mysleep junk =
     bindK (argptr 0 4) (\<lambda>arg1.
     bindK (argptr 1 4) (\<lambda>arg2.
     mysleep (junk_or (junk 0) arg1) (junk_or (junk 1) arg2)))"

definition sys_mywakeup :: "(nat \<Rightarrow> u32) \<Rightarrow> ('x sys_st_scheme, int) kop" where
  "sys_mywakeup junk = bindK (argptr 0 4) (\<lambda>arg1. mywakeup (junk_or (junk 0) arg1))"

end
