(* ===== verification/Exec.thy ===== *)
theory Exec
  imports Syscall
begin

unbundle bit_operations_syntax

text \<open>
  Loading a program (\<open>exec.c\<close>, \<open>elf.h\<close>, and \<open>loaduvm\<close> of \<open>vm.c\<close>).  The arguments are the bytes of the
  path and of the argument strings.  The two parts of \<open>exec\<close> before and after its transaction give None where
  the code jumps to \<open>bad\<close>.  The message \<open>exec: fail\<close> on the console is left out.
\<close>

section \<open>ELF headers\<close>

record elfhdr =
  e_magic :: u32
  e_elf :: "byte list"
  e_type :: "16 word"
  e_machine :: "16 word"
  e_version :: u32
  e_entry :: u32
  e_phoff :: u32
  e_shoff :: u32
  e_flags :: u32
  e_ehsize :: "16 word"
  e_phentsize :: "16 word"
  e_phnum :: "16 word"
  e_shentsize :: "16 word"
  e_shnum :: "16 word"
  e_shstrndx :: "16 word"

record proghdr =
  ph_type :: u32
  ph_off :: u32
  ph_vaddr :: u32
  ph_paddr :: u32
  ph_filesz :: u32
  ph_memsz :: u32
  ph_flags :: u32
  ph_align :: u32

definition ELF_MAGIC :: u32 where [param_defs]: "ELF_MAGIC = 0x464C457F"

definition ELF_PROG_LOAD :: u32 where [param_defs]: "ELF_PROG_LOAD = 1"

definition get16 :: "nat \<Rightarrow> byte list \<Rightarrow> 16 word" where
  "get16 i bs = un16 (take 2 (drop i bs))"

definition elf_dec :: "byte list \<Rightarrow> elfhdr" where
  "elf_dec bs = \<lparr>e_magic = get32 0 bs, e_elf = take 12 (drop 4 bs), e_type = get16 16 bs, e_machine = get16 18 bs,
     e_version = get32 20 bs, e_entry = get32 24 bs, e_phoff = get32 28 bs, e_shoff = get32 32 bs, e_flags = get32 36 bs,
     e_ehsize = get16 40 bs, e_phentsize = get16 42 bs, e_phnum = get16 44 bs, e_shentsize = get16 46 bs, e_shnum = get16 48 bs,
     e_shstrndx = get16 50 bs\<rparr>"

definition ph_dec :: "byte list \<Rightarrow> proghdr" where
  "ph_dec bs = \<lparr>ph_type = get32 0 bs, ph_off = get32 4 bs, ph_vaddr = get32 8 bs, ph_paddr = get32 12 bs,
     ph_filesz = get32 16 bs, ph_memsz = get32 20 bs, ph_flags = get32 24 bs, ph_align = get32 28 bs\<rparr>"

section \<open>Loading\<close>

fun loaduvm_loop :: "fsh \<Rightarrow> 'x sys_st_scheme devsw \<Rightarrow> u32 \<Rightarrow> u32 \<Rightarrow> nat \<Rightarrow> u32 \<Rightarrow> u32 \<Rightarrow> u32 list \<Rightarrow> ('x sys_st_scheme, int) kop" where
  "loaduvm_loop G dv pgdir addr ip offset sz [] = ret 0"
| "loaduvm_loop G dv pgdir addr ip offset sz (i # is) =
     bindK (walkpgdir pgdir (addr + i) False) (\<lambda>r. case r of
       None \<Rightarrow> panic ''loaduvm: address should exist''
     | Some pte \<Rightarrow>
       bindK (gets (\<lambda>s. PTE_ADDR (get_pte pte s))) (\<lambda>pa.
       let n = min (unat (sz - i)) 4096 in
       bindK (readi G dv ip (unat (offset + i)) n) (\<lambda>(r, bs).
       seqK (move_in (P2V pa) 0 bs) (
       if r \<noteq> int n then ret (- 1)
       else loaduvm_loop G dv pgdir addr ip offset sz is))))"

definition loaduvm :: "fsh \<Rightarrow> 'x sys_st_scheme devsw \<Rightarrow> u32 \<Rightarrow> u32 \<Rightarrow> nat \<Rightarrow> u32 \<Rightarrow> u32 \<Rightarrow> ('x sys_st_scheme, int) kop" where
  "loaduvm G dv pgdir addr ip offset sz =
     (if addr mod PGSIZE \<noteq> 0 then panic ''loaduvm: addr must be page aligned''
      else loaduvm_loop G dv pgdir addr ip offset sz (page_addrs 0 sz))"

text \<open>The loop over \<open>n\<close> program headers from offset \<open>off\<close>: the new size, or None for \<open>bad\<close>.\<close>

fun exec_segments :: "fsh \<Rightarrow> 'x sys_st_scheme devsw \<Rightarrow> u32 \<Rightarrow> nat \<Rightarrow> nat \<Rightarrow> u32 \<Rightarrow> u32 \<Rightarrow> ('x sys_st_scheme, u32 option) kop" where
  "exec_segments G dv pgdir ip 0 off sz = ret (Some sz)"
| "exec_segments G dv pgdir ip (Suc n) off sz =
     bindK (readi G dv ip (unat off) 32) (\<lambda>(r, bs).
     let ph = ph_dec bs in
     if r \<noteq> 32 then ret None
     else if ph_type ph \<noteq> ELF_PROG_LOAD then exec_segments G dv pgdir ip n (off + 32) sz
     else if ph_memsz ph < ph_filesz ph then ret None
     else if ph_vaddr ph + ph_memsz ph < ph_vaddr ph then ret None
     else bindK (allocuvm pgdir sz (ph_vaddr ph + ph_memsz ph)) (\<lambda>sz'.
          if sz' = 0 then ret None
          else if ph_vaddr ph mod PGSIZE \<noteq> 0 then ret None
          else bindK (loaduvm G dv pgdir (ph_vaddr ph) ip (ph_off ph) (ph_filesz ph)) (\<lambda>r.
               if r < 0 then ret None
               else exec_segments G dv pgdir ip n (off + 32) sz')))"

text \<open>
  Lines 39 to 67, on the locked inode: the page directory (0 when none was allocated) and, unless the code
  jumps to \<open>bad\<close>, the size and the entry point.
\<close>

definition exec_image :: "fsh \<Rightarrow> 'x sys_st_scheme devsw \<Rightarrow> nat \<Rightarrow> ('x sys_st_scheme, u32 \<times> (u32 \<times> u32) option) kop" where
  "exec_image G dv ip =
     bindK (readi G dv ip 0 52) (\<lambda>(r, bs).
     let elf = elf_dec bs in
     if r \<noteq> 52 then ret (0, None)
     else if e_magic elf \<noteq> ELF_MAGIC then ret (0, None)
     else bindK setupkvm (\<lambda>pgdir.
          if pgdir = 0 then ret (0, None)
          else bindK (exec_segments G dv pgdir ip (unat (e_phnum elf)) (e_phoff elf) 0) (\<lambda>r.
               ret (pgdir, map_option (\<lambda>sz. (sz, e_entry elf)) r))))"

text \<open>The argument strings are pushed: the stack pointer and the addresses of the strings.\<close>

fun push_args :: "u32 \<Rightarrow> nat \<Rightarrow> u32 \<Rightarrow> u32 list \<Rightarrow> byte list list \<Rightarrow> ('x mem_st_scheme, (u32 \<times> u32 list) option) kop" where
  "push_args pgdir argc sp us [] = ret (Some (sp, us))"
| "push_args pgdir argc sp us (a # as) =
     (if argc \<ge> MAXARG then ret None
      else let sp' = (sp - (of_nat (length a) + 1)) AND NOT 3 in
           bindK (copyout pgdir sp' (a @ [0])) (\<lambda>r.
           if r < 0 then ret None
           else push_args pgdir (Suc argc) sp' (us @ [sp']) as))"

text \<open>Lines 76 to 107: guard page, stack and arguments; the size and the stack pointer.\<close>

definition exec_stack :: "u32 \<Rightarrow> u32 \<Rightarrow> byte list list \<Rightarrow> ('x mem_st_scheme, (u32 \<times> u32) option) kop" where
  "exec_stack pgdir sz argv =
     bindK (allocuvm pgdir (PGROUNDUP sz) (PGROUNDUP sz + 2 * PGSIZE)) (\<lambda>sz'.
     if sz' = 0 then ret None
     else seqK (clearpteu pgdir (sz' - 2 * PGSIZE)) (
          bindK (push_args pgdir 0 sz' [] argv) (\<lambda>r. case r of
            None \<Rightarrow> ret None
          | Some (sp, us) \<Rightarrow>
              let argc = of_nat (length us);
                  ustack = [0xffffffff, argc, sp - (argc + 1) * 4] @ us @ [0];
                  sp' = sp - (3 + argc + 1) * 4 in
              bindK (copyout pgdir sp' (concat (map le32 ustack))) (\<lambda>r.
              if r < 0 then ret None else ret (Some (sz', sp'))))))"

text \<open>The part of the path after its last slash.\<close>

definition last_elem :: "byte list \<Rightarrow> byte list" where
  "last_elem path = rev (takeWhile (\<lambda>c. c \<noteq> slash) (rev path))"

definition bytes_str :: "byte list \<Rightarrow> string" where
  "bytes_str bs = map (\<lambda>c. char_of (unat c)) bs"

definition free_pgdir :: "u32 \<Rightarrow> ('x mem_st_scheme, unit) kop" where
  "free_pgdir pgdir = whenK (pgdir \<noteq> 0) (freevm pgdir)"

definition exec :: "fsh \<Rightarrow> 'x sys_st_scheme devsw \<Rightarrow> byte list \<Rightarrow> byte list list \<Rightarrow> ('x sys_st_scheme, int) kop" where
  "exec G dv path argv = with_proc (\<lambda>p.
     seqK begin_op (
     bindK (namei G dv path) (\<lambda>r. case r of
       None \<Rightarrow> seqK (end_op G) (ret (- 1))
     | Some ip \<Rightarrow>
       seqK (ilock G (Some ip)) (
       bindK (exec_image G dv ip) (\<lambda>(pgdir, img). case img of
         None \<Rightarrow> seqK (free_pgdir pgdir) (seqK (iunlockput G ip) (seqK (end_op G) (ret (- 1))))
       | Some (sz, entry) \<Rightarrow>
         seqK (iunlockput G ip) (
         seqK (end_op G) (
         bindK (exec_stack pgdir sz argv) (\<lambda>st. case st of
           None \<Rightarrow> seqK (free_pgdir pgdir) (ret (- 1))
         | Some (sz, sp) \<Rightarrow>
           bindK (gets (\<lambda>s. p_pgdir (procs s ! p))) (\<lambda>oldpgdir.
           seqK (modify (upd_proc p (\<lambda>q. q\<lparr>p_name := take 15 (bytes_str (last_elem path)), p_pgdir := pgdir, p_sz := sz,
             p_tf := (p_tf q)\<lparr>tf_eip := entry, tf_esp := sp\<rparr>\<rparr>))) (
           seqK (switchuvm p) (
           seqK (freevm oldpgdir)
           (ret 0))))))))))))"

end
