(* ===== verification/Sysfile.thy ===== *)
theory Sysfile
  imports Exec
begin

unbundle bit_operations_syntax

text \<open>
  The system calls on files (\<open>sysfile.c\<close>).  A buffer in user memory is read before a write and written after
  a read.  The arguments \<open>G\<close> and \<open>dv\<close> are the layout of \<open>fs.h\<close> and the device switch.
\<close>

section \<open>Descriptors\<close>

text \<open>The descriptor and its file.\<close>

definition argfd :: "nat \<Rightarrow> ('x sys_st_scheme, (nat \<times> nat) option) kop" where
  "argfd n = bindK (argint n) (\<lambda>r. case r of
     None \<Rightarrow> ret None
   | Some fd \<Rightarrow>
     if fd < 0 \<or> fd \<ge> int NOFILE then ret None
     else with_proc (\<lambda>p.
          bindK (gets (\<lambda>s. p_ofile (procs s ! p) ! nat fd)) (\<lambda>o'. case o' of
            None \<Rightarrow> ret None
          | Some f \<Rightarrow> ret (Some (nat fd, f)))))"

definition set_fd :: "nat \<Rightarrow> nat \<Rightarrow> nat option \<Rightarrow> ('x pt_st_scheme, unit) kop" where
  "set_fd p fd v = modify (upd_proc p (\<lambda>q. q\<lparr>p_ofile := (p_ofile q)[fd := v]\<rparr>))"

definition fdalloc :: "nat \<Rightarrow> ('x sys_st_scheme, int) kop" where
  "fdalloc f = with_proc (\<lambda>p.
     bindK (gets (\<lambda>s. findix (\<lambda>o'. o' = None) 0 (p_ofile (procs s ! p)))) (\<lambda>r. case r of
       None \<Rightarrow> ret (- 1)
     | Some fd \<Rightarrow> seqK (set_fd p fd (Some f)) (ret (int fd))))"

definition sys_dup :: "('x sys_st_scheme, int) kop" where
  "sys_dup = bindO (argfd 0) (\<lambda>(_, f).
     bindK (fdalloc f) (\<lambda>fd.
     if fd < 0 then ret (- 1)
     else bindK (filedup f) (\<lambda>_. ret fd)))"

definition sys_read :: "fsh \<Rightarrow> 'x sys_st_scheme devsw \<Rightarrow> ('x sys_st_scheme, int) kop" where
  "sys_read G dv =
     bindO (argfd 0) (\<lambda>(_, f).
     bindO (argint 2) (\<lambda>n.
     bindO (argptr 1 n) (\<lambda>p.
     bindK (fileread G dv f (nat n)) (\<lambda>(r, bs).
     seqK (storen p bs)
     (ret r)))))"

definition sys_write :: "fsh \<Rightarrow> 'x sys_st_scheme devsw \<Rightarrow> ('x sys_st_scheme, int) kop" where
  "sys_write G dv =
     bindO (argfd 0) (\<lambda>(_, f).
     bindO (argint 2) (\<lambda>n.
     bindO (argptr 1 n) (\<lambda>p.
     bindK (loadn (nat n) p) (filewrite G dv f))))"

definition sys_close :: "fsh \<Rightarrow> ('x sys_st_scheme, int) kop" where
  "sys_close G =
     bindO (argfd 0) (\<lambda>(fd, f).
     with_proc (\<lambda>p.
     seqK (set_fd p fd None) (
     seqK (fileclose G f)
     (ret 0))))"

text \<open>The fields of \<open>struct stat\<close> at their offsets; the padding is not written.\<close>

definition store_stat :: "u32 \<Rightarrow> stat \<Rightarrow> ('x pt_st_scheme, unit) kop" where
  "store_stat a st =
     seqK (storen a (le16 (word_of_int (st_type st)))) (
     seqK (ustore32 (a + 4) (of_nat (st_dev st))) (
     seqK (ustore32 (a + 8) (of_nat (st_ino st))) (
     seqK (storen (a + 12) (le16 (word_of_int (st_nlink st))))
     (ustore32 (a + 16) (of_nat (st_size st))))))"

definition sys_fstat :: "fsh \<Rightarrow> ('x sys_st_scheme, int) kop" where
  "sys_fstat G =
     bindO (argfd 0) (\<lambda>(_, f).
     bindO (argptr 1 20) (\<lambda>a.
     bindO (filestat G f) (\<lambda>st.
     seqK (store_stat a st)
     (ret 0))))"

section \<open>Links\<close>

text \<open>The value of an integer in a C \<open>short\<close>, the type of the link count and of the device numbers.\<close>

definition to_short :: "int \<Rightarrow> int" where
  "to_short x = sint (word_of_int x :: 16 word)"

definition add_nlink :: "fsh \<Rightarrow> nat \<Rightarrow> int \<Rightarrow> ('x fs_st_scheme, unit) kop" where
  "add_nlink G ip d = seqK (modify (upd_inode ip (\<lambda>k. k\<lparr>i_nlink := to_short (i_nlink k + d)\<rparr>))) (iupdate G ip)"

definition sys_link_bad :: "fsh \<Rightarrow> nat \<Rightarrow> ('x fs_st_scheme, int) kop" where
  "sys_link_bad G ip =
     seqK (ilock G (Some ip)) (
     seqK (add_nlink G ip (- 1)) (
     seqK (iunlockput G ip) (
     seqK (end_op G)
     (ret (- 1)))))"

definition sys_link :: "fsh \<Rightarrow> 'x sys_st_scheme devsw \<Rightarrow> ('x sys_st_scheme, int) kop" where
  "sys_link G dv =
     bindO (argstr 0) (\<lambda>old.
     bindO (argstr 1) (\<lambda>new.
     seqK begin_op (
     bindK (namei G dv old) (\<lambda>r. case r of
       None \<Rightarrow> seqK (end_op G) (ret (- 1))
     | Some ip \<Rightarrow>
       seqK (ilock G (Some ip)) (
       bindK (geti ip i_type) (\<lambda>t.
       if t = T_DIR then seqK (iunlockput G ip) (seqK (end_op G) (ret (- 1)))
       else seqK (add_nlink G ip 1) (
            seqK (iunlock (Some ip)) (
            bindK (nameiparent G dv new) (\<lambda>r. case r of
              None \<Rightarrow> sys_link_bad G ip
            | Some (dp, name) \<Rightarrow>
              seqK (ilock G (Some dp)) (
              bindK (gets (\<lambda>s. i_dev (inodes s ! dp) \<noteq> i_dev (inodes s ! ip))) (\<lambda>other.
              bindK (if other then ret (- 1)
                     else bindK (geti ip i_inum) (dirlink G dv dp name)) (\<lambda>r.
              if r < 0 then seqK (iunlockput G dp) (sys_link_bad G ip)
              else seqK (iunlockput G dp) (
                   seqK (iput G ip) (
                   seqK (end_op G)
                   (ret 0)))))))))))))))"

fun isdirempty_from :: "fsh \<Rightarrow> 'x sys_st_scheme devsw \<Rightarrow> nat \<Rightarrow> nat list \<Rightarrow> ('x sys_st_scheme, bool) kop" where
  "isdirempty_from G dv dp [] = ret True"
| "isdirempty_from G dv dp (off # offs) =
     bindK (readi G dv dp off (DESZ G)) (\<lambda>(r, bs).
     if r \<noteq> int (DESZ G) then panic ''isdirempty: readi''
     else if de_inum (de_dec G bs) \<noteq> 0 then ret False
     else isdirempty_from G dv dp offs)"

definition isdirempty :: "fsh \<Rightarrow> 'x sys_st_scheme devsw \<Rightarrow> nat \<Rightarrow> ('x sys_st_scheme, bool) kop" where
  "isdirempty G dv dp = bindK (geti dp i_size) (\<lambda>sz. isdirempty_from G dv dp (drop 2 (entry_offs G sz)))"

definition sys_unlink_bad :: "fsh \<Rightarrow> nat \<Rightarrow> ('x fs_st_scheme, int) kop" where
  "sys_unlink_bad G dp = seqK (iunlockput G dp) (seqK (end_op G) (ret (- 1)))"

definition sys_unlink :: "fsh \<Rightarrow> 'x sys_st_scheme devsw \<Rightarrow> ('x sys_st_scheme, int) kop" where
  "sys_unlink G dv =
     bindO (argstr 0) (\<lambda>path.
     seqK begin_op (
     bindK (nameiparent G dv path) (\<lambda>r. case r of
       None \<Rightarrow> seqK (end_op G) (ret (- 1))
     | Some (dp, name) \<Rightarrow>
       seqK (ilock G (Some dp)) (
       if namecmp G name [46] \<or> namecmp G name [46, 46] then sys_unlink_bad G dp
       else bindK (dirlookup G dv dp name) (\<lambda>r. case r of
         None \<Rightarrow> sys_unlink_bad G dp
       | Some (ip, off) \<Rightarrow>
         seqK (ilock G (Some ip)) (
         bindK (geti ip id) (\<lambda>k.
         if i_nlink k < 1 then panic ''unlink: nlink < 1''
         else bindK (if i_type k = T_DIR then isdirempty G dv ip else ret True) (\<lambda>empty.
         if \<not> empty then seqK (iunlockput G ip) (sys_unlink_bad G dp)
         else bindK (writei G dv dp (replicate (DESZ G) 0) off) (\<lambda>r.
              if r \<noteq> int (DESZ G) then panic ''unlink: writei''
              else seqK (whenK (i_type k = T_DIR) (add_nlink G dp (- 1))) (
                   seqK (iunlockput G dp) (
                   seqK (add_nlink G ip (- 1)) (
                   seqK (iunlockput G ip) (
                   seqK (end_op G)
                   (ret 0))))))))))))))"

definition create :: "fsh \<Rightarrow> 'x sys_st_scheme devsw \<Rightarrow> byte list \<Rightarrow> int \<Rightarrow> int \<Rightarrow> int \<Rightarrow> ('x sys_st_scheme, nat option) kop" where
  "create G dv path type major minor =
     bindK (nameiparent G dv path) (\<lambda>r. case r of
       None \<Rightarrow> ret None
     | Some (dp, name) \<Rightarrow>
       seqK (ilock G (Some dp)) (
       bindK (dirlookup G dv dp name) (\<lambda>r. case r of
         Some (ip, _) \<Rightarrow>
           seqK (iunlockput G dp) (
           seqK (ilock G (Some ip)) (
           bindK (geti ip i_type) (\<lambda>t.
           if type = T_FILE \<and> t = T_FILE then ret (Some ip)
           else seqK (iunlockput G ip) (ret None))))
       | None \<Rightarrow>
           bindK (geti dp i_dev) (\<lambda>dev.
           bindK (ialloc G dev type) (\<lambda>ip.
           seqK (ilock G (Some ip)) (
           seqK (modify (upd_inode ip (\<lambda>k. k\<lparr>i_major := major, i_minor := minor, i_nlink := 1\<rparr>))) (
           seqK (iupdate G ip) (
           seqK (whenK (type = T_DIR) (
             seqK (add_nlink G dp 1) (
             bindK (bindK (geti ip i_inum) (dirlink G dv ip [46])) (\<lambda>r1.
             bindK (if r1 < 0 then ret r1 else bindK (geti dp i_inum) (dirlink G dv ip [46, 46])) (\<lambda>r2.
             if r2 < 0 then panic ''create dots'' else ret ()))))) (
           bindK (bindK (geti ip i_inum) (dirlink G dv dp name)) (\<lambda>r.
           if r < 0 then panic ''create: dirlink''
           else seqK (iunlockput G dp) (ret (Some ip))))))))))))"

section \<open>Open and the rest\<close>

definition OM_WRONLY :: u32 where [param_defs]: "OM_WRONLY = 1"

definition OM_RDWR :: u32 where [param_defs]: "OM_RDWR = 2"

definition OM_CREATE :: u32 where [param_defs]: "OM_CREATE = 0x200"

text \<open>The locked inode to open, or None; in that case the transaction is closed.\<close>

definition open_inode :: "fsh \<Rightarrow> 'x sys_st_scheme devsw \<Rightarrow> byte list \<Rightarrow> u32 \<Rightarrow> ('x sys_st_scheme, nat option) kop" where
  "open_inode G dv path omode =
     (if omode AND OM_CREATE \<noteq> 0 then
        bindK (create G dv path T_FILE 0 0) (\<lambda>r. case r of
          None \<Rightarrow> seqK (end_op G) (ret None)
        | Some ip \<Rightarrow> ret (Some ip))
      else bindK (namei G dv path) (\<lambda>r. case r of
          None \<Rightarrow> seqK (end_op G) (ret None)
        | Some ip \<Rightarrow>
          seqK (ilock G (Some ip)) (
          bindK (geti ip i_type) (\<lambda>t.
          if t = T_DIR \<and> omode \<noteq> 0 then seqK (iunlockput G ip) (seqK (end_op G) (ret None))
          else ret (Some ip)))))"

definition open_file :: "nat \<Rightarrow> u32 \<Rightarrow> ofile \<Rightarrow> ofile" where
  "open_file ip omode k = k\<lparr>f_type := FD_INODE, f_ip := Some ip, f_off := 0, f_readable := omode AND OM_WRONLY = 0,
     f_writable := omode AND OM_WRONLY \<noteq> 0 \<or> omode AND OM_RDWR \<noteq> 0\<rparr>"

definition sys_open :: "fsh \<Rightarrow> 'x sys_st_scheme devsw \<Rightarrow> ('x sys_st_scheme, int) kop" where
  "sys_open G dv =
     bindO (argstr 0) (\<lambda>path.
     bindO (argint 1) (\<lambda>mode.
     let omode = word_of_int mode in
     seqK begin_op (
     bindO (open_inode G dv path omode) (\<lambda>ip.
     bindK filealloc (\<lambda>fo.
     bindK (case fo of None \<Rightarrow> ret (- 1) | Some f \<Rightarrow> fdalloc f) (\<lambda>fd.
     if fd < 0 then
       seqK (case fo of None \<Rightarrow> ret () | Some f \<Rightarrow> fileclose G f) (
       seqK (iunlockput G ip) (
       seqK (end_op G)
       (ret (- 1))))
     else seqK (iunlock (Some ip)) (
          seqK (end_op G) (
          seqK (case fo of None \<Rightarrow> ret () | Some f \<Rightarrow> modify (upd_file f (open_file ip omode)))
          (ret fd)))))))))"

definition sys_mkdir :: "fsh \<Rightarrow> 'x sys_st_scheme devsw \<Rightarrow> ('x sys_st_scheme, int) kop" where
  "sys_mkdir G dv =
     seqK begin_op (
     bindK (bindK (argstr 0) (\<lambda>r. case r of None \<Rightarrow> ret None | Some path \<Rightarrow> create G dv path T_DIR 0 0)) (\<lambda>r. case r of
       None \<Rightarrow> seqK (end_op G) (ret (- 1))
     | Some ip \<Rightarrow>
       seqK (iunlockput G ip) (
       seqK (end_op G)
       (ret 0))))"

definition mknod_inode :: "fsh \<Rightarrow> 'x sys_st_scheme devsw \<Rightarrow> ('x sys_st_scheme, nat option) kop" where
  "mknod_inode G dv =
     bindK (argstr 0) (\<lambda>r. case r of None \<Rightarrow> ret None | Some path \<Rightarrow>
     bindK (argint 1) (\<lambda>r. case r of None \<Rightarrow> ret None | Some major \<Rightarrow>
     bindK (argint 2) (\<lambda>r. case r of None \<Rightarrow> ret None | Some minor \<Rightarrow>
     create G dv path T_DEV (to_short major) (to_short minor))))"

definition sys_mknod :: "fsh \<Rightarrow> 'x sys_st_scheme devsw \<Rightarrow> ('x sys_st_scheme, int) kop" where
  "sys_mknod G dv =
     seqK begin_op (
     bindK (mknod_inode G dv) (\<lambda>r. case r of
       None \<Rightarrow> seqK (end_op G) (ret (- 1))
     | Some ip \<Rightarrow>
       seqK (iunlockput G ip) (
       seqK (end_op G)
       (ret 0))))"

definition sys_chdir :: "fsh \<Rightarrow> 'x sys_st_scheme devsw \<Rightarrow> ('x sys_st_scheme, int) kop" where
  "sys_chdir G dv = with_proc (\<lambda>p.
     seqK begin_op (
     bindK (bindK (argstr 0) (\<lambda>r. case r of None \<Rightarrow> ret None | Some path \<Rightarrow> namei G dv path)) (\<lambda>r. case r of
       None \<Rightarrow> seqK (end_op G) (ret (- 1))
     | Some ip \<Rightarrow>
       seqK (ilock G (Some ip)) (
       bindK (geti ip i_type) (\<lambda>t.
       if t \<noteq> T_DIR then seqK (iunlockput G ip) (seqK (end_op G) (ret (- 1)))
       else seqK (iunlock (Some ip)) (
            bindK (gets (\<lambda>s. p_cwd (procs s ! p))) (\<lambda>c. case c of
              None \<Rightarrow> panic ''null dereference''
            | Some old \<Rightarrow>
              seqK (iput G old) (
              seqK (end_op G) (
              seqK (modify (upd_proc p (\<lambda>q. q\<lparr>p_cwd := Some ip\<rparr>)))
              (ret 0))))))))))"

text \<open>The loop of \<open>sys_exec\<close> with \<open>n\<close> slots of \<open>argv\<close> left.\<close>

fun fetch_argv :: "nat \<Rightarrow> u32 \<Rightarrow> ('x pt_st_scheme, byte list list option) kop" where
  "fetch_argv 0 uargv = ret None"
| "fetch_argv (Suc n) uargv =
     bindK (fetchint uargv) (\<lambda>r. case r of
       None \<Rightarrow> ret None
     | Some uarg \<Rightarrow>
       if uarg = 0 then ret (Some [])
       else bindK (fetchstr (word_of_int uarg)) (\<lambda>r. case r of
         None \<Rightarrow> ret None
       | Some a \<Rightarrow> bindK (fetch_argv n (uargv + 4)) (\<lambda>r. ret (map_option (Cons a) r))))"

definition sys_exec :: "fsh \<Rightarrow> 'x sys_st_scheme devsw \<Rightarrow> ('x sys_st_scheme, int) kop" where
  "sys_exec G dv =
     bindO (argstr 0) (\<lambda>path.
     bindO (argint 1) (\<lambda>uargv.
     bindO (fetch_argv MAXARG (word_of_int uargv)) (\<lambda>argv.
     exec G dv path argv)))"

definition sys_pipe :: "fsh \<Rightarrow> ('x sys_st_scheme, int) kop" where
  "sys_pipe G =
     bindO (argptr 0 8) (\<lambda>fd.
     bindO (pipealloc G) (\<lambda>(rf, wf).
     bindK (fdalloc rf) (\<lambda>fd0.
     bindK (if fd0 < 0 then ret (- 1) else fdalloc wf) (\<lambda>fd1.
     if fd1 < 0 then
       seqK (whenK (fd0 \<ge> 0) (with_proc (\<lambda>p. set_fd p (nat fd0) None))) (
       seqK (fileclose G rf) (
       seqK (fileclose G wf)
       (ret (- 1))))
     else seqK (ustore32 fd (word_of_int fd0)) (
          seqK (ustore32 (fd + 4) (word_of_int fd1))
          (ret 0))))))"

end
