(* ===== verification/Trap.thy ===== *)
theory Trap
  imports Sysfile
begin

unbundle bit_operations_syntax

text \<open>
  Traps (\<open>trap.c\<close>, \<open>traps.h\<close>) and the dispatch of system calls (\<open>syscall\<close> in \<open>syscall.c\<close>).  The handlers of
  the device interrupts and the acknowledgement of the local APIC, whose sources are not all there, are
  arguments.  The messages on the console are left out.
\<close>

section \<open>Gates\<close>

record gatedesc =
  g_off_15_0 :: "16 word"
  g_cs :: "16 word"
  g_args :: nat
  g_rsv1 :: nat
  g_type :: nat
  g_s :: nat
  g_dpl :: nat
  g_p :: nat
  g_off_31_16 :: "16 word"

definition STS_IG32 :: nat where [param_defs]: "STS_IG32 = 0xE"

definition STS_TG32 :: nat where [param_defs]: "STS_TG32 = 0xF"

definition SEG_KCODE :: "16 word" where [param_defs]: "SEG_KCODE = 1"

definition T_SYSCALL :: nat where [param_defs]: "T_SYSCALL = 64"

definition T_IRQ0 :: nat where [param_defs]: "T_IRQ0 = 32"

definition IRQ_TIMER :: nat where [param_defs]: "IRQ_TIMER = 0"

definition IRQ_KBD :: nat where [param_defs]: "IRQ_KBD = 1"

definition IRQ_COM1 :: nat where [param_defs]: "IRQ_COM1 = 4"

definition IRQ_IDE :: nat where [param_defs]: "IRQ_IDE = 14"

definition IRQ_SPURIOUS :: nat where [param_defs]: "IRQ_SPURIOUS = 31"

definition SETGATE :: "bool \<Rightarrow> 16 word \<Rightarrow> u32 \<Rightarrow> nat \<Rightarrow> gatedesc" where
  "SETGATE istrap sel off d = \<lparr>g_off_15_0 = ucast (off AND 0xffff), g_cs = sel, g_args = 0, g_rsv1 = 0,
     g_type = (if istrap then STS_TG32 else STS_IG32), g_s = 0, g_dpl = d, g_p = 1, g_off_31_16 = ucast (drop_bit 16 off)\<rparr>"

text \<open>The table that \<open>tvinit\<close> builds from the addresses in \<open>vectors\<close>, and its lock.\<close>

definition tvinit_idt :: "(nat \<Rightarrow> u32) \<Rightarrow> gatedesc list" where
  "tvinit_idt vectors =
     (map (\<lambda>i. SETGATE False (push_bit 3 SEG_KCODE) (vectors i) 0) [0..<256])
       [T_SYSCALL := SETGATE True (push_bit 3 SEG_KCODE) (vectors T_SYSCALL) 3]"

definition tvinit :: "(nat \<Rightarrow> u32) \<Rightarrow> ('x kst_scheme, gatedesc list) kop" where
  "tvinit vectors = seqK (onm (initlock LkTicks ''time'')) (ret (tvinit_idt vectors))"

section \<open>System calls\<close>

definition syscalls :: "fsh \<Rightarrow> 'x sys_st_scheme devsw \<Rightarrow> (nat \<Rightarrow> u32) \<Rightarrow> nat \<Rightarrow> ('x sys_st_scheme, int) kop option" where
  "syscalls G dv junk num =
     (if num = 1 then Some sys_fork else if num = 2 then Some (sys_exit G) else if num = 3 then Some sys_wait
      else if num = 4 then Some (sys_pipe G) else if num = 5 then Some (sys_read G dv) else if num = 6 then Some sys_kill
      else if num = 7 then Some (sys_exec G dv) else if num = 8 then Some (sys_fstat G) else if num = 9 then Some (sys_chdir G dv)
      else if num = 10 then Some sys_dup else if num = 11 then Some sys_getpid else if num = 12 then Some sys_sbrk
      else if num = 13 then Some sys_sleep else if num = 14 then Some sys_uptime else if num = 15 then Some (sys_open G dv)
      else if num = 16 then Some (sys_write G dv) else if num = 17 then Some (sys_mknod G dv) else if num = 18 then Some (sys_unlink G dv)
      else if num = 19 then Some (sys_link G dv) else if num = 20 then Some (sys_mkdir G dv) else if num = 21 then Some (sys_close G)
      else if num = 22 then Some sys_dump else if num = 23 then Some sys_ps else if num = 24 then Some (sys_thread_create junk)
      else if num = 25 then Some sys_thread_join else if num = 26 then Some (sys_thread_exit G)
      else if num = 27 then Some (sys_mysleep junk) else if num = 28 then Some (sys_mywakeup junk) else None)"

definition syscall :: "fsh \<Rightarrow> 'x sys_st_scheme devsw \<Rightarrow> (nat \<Rightarrow> u32) \<Rightarrow> ('x sys_st_scheme, unit) kop" where
  "syscall G dv junk = with_proc (\<lambda>p.
     bindK (gets (\<lambda>s. sint (tf_eax (p_tf (procs s ! p))))) (\<lambda>num.
     bindK (case if num > 0 then syscalls G dv junk (nat num) else None of
              Some call \<Rightarrow> call
            | None \<Rightarrow> ret (- 1)) (\<lambda>r.
     modify (upd_proc p (\<lambda>q. q\<lparr>p_tf := (p_tf q)\<lparr>tf_eax := word_of_int r\<rparr>\<rparr>)))))"

section \<open>Traps\<close>

record 's intr_handlers =
  ideintr_at :: "('s, unit) kop"
  kbdintr_at :: "('s, unit) kop"
  uartintr_at :: "('s, unit) kop"
  lapiceoi_at :: "('s, unit) kop"

definition exit_if_killed :: "fsh \<Rightarrow> ('x sys_st_scheme, unit) kop" where
  "exit_if_killed G = bindK my_killed (\<lambda>k. whenK k (exit G))"

text \<open>The conditions at the end of \<open>trap\<close>: a current process that is killed and came from user code.\<close>

definition exit_if_user_killed :: "fsh \<Rightarrow> trapframe \<Rightarrow> ('x sys_st_scheme, unit) kop" where
  "exit_if_user_killed G tf = bindK (onm myproc) (\<lambda>po. case po of
     None \<Rightarrow> ret ()
   | Some p \<Rightarrow> bindK (gets (\<lambda>s. p_killed (procs s ! p))) (\<lambda>k.
       whenK (k \<and> tf_cs tf AND 3 = DPL_USER) (exit G)))"

definition trap_irq :: "'x sys_st_scheme intr_handlers \<Rightarrow> trapframe \<Rightarrow> ('x sys_st_scheme, unit) kop" where
  "trap_irq D tf =
     (let no = unat (tf_trapno tf) in
      if no = T_IRQ0 + IRQ_TIMER then
        seqK (bindK (onm cpuid) (\<lambda>c. whenK (c = 0) (
          seqK (onm (acquire LkTicks)) (
          seqK (modify (\<lambda>s. s\<lparr>ticks := ticks s + 1\<rparr>)) (
          seqK (wakeup (Some ChTicks))
          (onm (release LkTicks))))))) (
        lapiceoi_at D)
      else if no = T_IRQ0 + IRQ_IDE then seqK (ideintr_at D) (lapiceoi_at D)
      else if no = T_IRQ0 + IRQ_IDE + 1 then ret ()
      else if no = T_IRQ0 + IRQ_KBD then seqK (kbdintr_at D) (lapiceoi_at D)
      else if no = T_IRQ0 + IRQ_COM1 then seqK (uartintr_at D) (lapiceoi_at D)
      else if no = T_IRQ0 + 7 \<or> no = T_IRQ0 + IRQ_SPURIOUS then lapiceoi_at D
      else bindK (onm myproc) (\<lambda>po. case po of
             None \<Rightarrow> panic ''trap''
           | Some p \<Rightarrow> if tf_cs tf AND 3 = 0 then panic ''trap''
                       else modify (upd_proc p (\<lambda>q. q\<lparr>p_killed := True\<rparr>))))"

definition trap :: "fsh \<Rightarrow> 'x sys_st_scheme devsw \<Rightarrow> (nat \<Rightarrow> u32) \<Rightarrow> 'x sys_st_scheme intr_handlers \<Rightarrow> trapframe \<Rightarrow> ('x sys_st_scheme, unit) kop" where
  "trap G dv junk D tf =
     (if unat (tf_trapno tf) = T_SYSCALL then
        seqK (exit_if_killed G) (
        seqK (with_proc (\<lambda>p. modify (upd_proc p (\<lambda>q. q\<lparr>p_tf := tf\<rparr>)))) (
        seqK (syscall G dv junk)
        (exit_if_killed G)))
      else seqK (trap_irq D tf) (
           seqK (exit_if_user_killed G tf) (
           seqK (bindK (onm myproc) (\<lambda>po. case po of
              None \<Rightarrow> ret ()
            | Some p \<Rightarrow> bindK (gets (\<lambda>s. p_state (procs s ! p))) (\<lambda>st.
                whenK (st = RUNNING \<and> unat (tf_trapno tf) = T_IRQ0 + IRQ_TIMER) yield)))
           (exit_if_user_killed G tf))))"

end
