(* ===== verification/Cstring.thy ===== *)
theory Cstring
  imports Xv6_Base
begin

unbundle bit_operations_syntax

text \<open>
  The string routines of the kernel (\<open>string.c\<close>) and of the user library (\<open>ulib.c\<close>) on a
  byte-addressed memory with 32-bit addresses.  A routine that writes returns the new memory; the
  pointer it returns in C is its first argument.  A loop that runs to a NUL byte may not end, so
  those routines return an option.

  The lemmas give what the routines do on every input, overlapping ranges included; the user-level
  \<open>memmove\<close> copies forward only.
\<close>

section \<open>Memory\<close>

type_synonym mem = "u32 \<Rightarrow> byte"

definition bytes :: "mem \<Rightarrow> u32 \<Rightarrow> nat \<Rightarrow> byte list" where
  "bytes m a n = map (\<lambda>i. m (a + of_nat i)) [0..<n]"

fun store_bytes :: "u32 \<Rightarrow> byte list \<Rightarrow> mem \<Rightarrow> mem" where
  "store_bytes a [] m = m"
| "store_bytes a (x # xs) m = store_bytes (a + 1) xs (m(a := x))"

text \<open>The bytes at \<open>a\<close> up to the first NUL.\<close>

fun cstr :: "mem \<Rightarrow> u32 \<Rightarrow> byte list \<Rightarrow> bool" where
  "cstr m a [] \<longleftrightarrow> m a = 0"
| "cstr m a (x # xs) \<longleftrightarrow> m a = x \<and> x \<noteq> 0 \<and> cstr m (a + 1) xs"

section \<open>string.c\<close>

fun stosb :: "u32 \<Rightarrow> byte \<Rightarrow> nat \<Rightarrow> mem \<Rightarrow> mem" where
  "stosb a c 0 m = m"
| "stosb a c (Suc n) m = stosb (a + 1) c n (m(a := c))"

text \<open>A 32-bit store is four byte stores, the low byte first.\<close>

definition store32 :: "u32 \<Rightarrow> u32 \<Rightarrow> mem \<Rightarrow> mem" where
  "store32 a x m = m(a := ucast x, a + 1 := ucast (drop_bit 8 x), a + 2 := ucast (drop_bit 16 x),
     a + 3 := ucast (drop_bit 24 x))"

fun stosl :: "u32 \<Rightarrow> u32 \<Rightarrow> nat \<Rightarrow> mem \<Rightarrow> mem" where
  "stosl a x 0 m = m"
| "stosl a x (Suc n) m = stosl (a + 4) x n (store32 a x m)"

definition memset :: "u32 \<Rightarrow> u32 \<Rightarrow> u32 \<Rightarrow> mem \<Rightarrow> mem" where
  "memset dst c n m =
     (if sint dst mod 4 = 0 \<and> n mod 4 = 0
      then let c = c AND 0xFF
           in stosl dst (push_bit 24 c OR push_bit 16 c OR push_bit 8 c OR c) (unat (n div 4)) m
      else stosb dst (ucast c) (unat n) m)"

fun memcmp :: "mem \<Rightarrow> u32 \<Rightarrow> u32 \<Rightarrow> nat \<Rightarrow> int" where
  "memcmp m s1 s2 0 = 0"
| "memcmp m s1 s2 (Suc n) =
     (if m s1 \<noteq> m s2 then int (unat (m s1)) - int (unat (m s2)) else memcmp m (s1 + 1) (s2 + 1) n)"

fun copy_forward :: "u32 \<Rightarrow> u32 \<Rightarrow> nat \<Rightarrow> mem \<Rightarrow> mem" where
  "copy_forward d s 0 m = m"
| "copy_forward d s (Suc n) m = copy_forward (d + 1) (s + 1) n (m(d := m s))"

fun copy_backward :: "u32 \<Rightarrow> u32 \<Rightarrow> nat \<Rightarrow> mem \<Rightarrow> mem" where
  "copy_backward d s 0 m = m"
| "copy_backward d s (Suc n) m = copy_backward (d - 1) (s - 1) n (m(d - 1 := m (s - 1)))"

definition memmove :: "u32 \<Rightarrow> u32 \<Rightarrow> u32 \<Rightarrow> mem \<Rightarrow> mem" where
  "memmove dst src n m =
     (if src < dst \<and> src + n > dst then copy_backward (dst + n) (src + n) (unat n) m
      else copy_forward dst src (unat n) m)"

definition memcpy :: "u32 \<Rightarrow> u32 \<Rightarrow> u32 \<Rightarrow> mem \<Rightarrow> mem" where
  "memcpy dst src n m = memmove dst src n m"

fun strncmp :: "mem \<Rightarrow> u32 \<Rightarrow> u32 \<Rightarrow> nat \<Rightarrow> int" where
  "strncmp m p q 0 = 0"
| "strncmp m p q (Suc n) =
     (if m p \<noteq> 0 \<and> m p = m q then strncmp m (p + 1) (q + 1) n else int (unat (m p)) - int (unat (m q)))"

text \<open>
  \<open>strncpy\<close>: the copying loop also decrements \<open>n\<close> in the test that ends it, so after the NUL the
  padding loop runs for the bytes that are left.  A count that is not positive writes nothing.
\<close>

fun strncpy_loop :: "u32 \<Rightarrow> u32 \<Rightarrow> nat \<Rightarrow> mem \<Rightarrow> mem" where
  "strncpy_loop s t 0 m = m"
| "strncpy_loop s t (Suc n) m =
     (let m' = m(s := m t) in if m t \<noteq> 0 then strncpy_loop (s + 1) (t + 1) n m' else stosb (s + 1) 0 n m')"

definition strncpy :: "u32 \<Rightarrow> u32 \<Rightarrow> int \<Rightarrow> mem \<Rightarrow> mem" where
  "strncpy s t n m = strncpy_loop s t (nat n) m"

fun safestrcpy_loop :: "u32 \<Rightarrow> u32 \<Rightarrow> nat \<Rightarrow> mem \<Rightarrow> mem" where
  "safestrcpy_loop s t 0 m = m(s := 0)"
| "safestrcpy_loop s t (Suc n) m =
     (let m' = m(s := m t) in if m t \<noteq> 0 then safestrcpy_loop (s + 1) (t + 1) n m' else m'(s + 1 := 0))"

definition safestrcpy :: "u32 \<Rightarrow> u32 \<Rightarrow> int \<Rightarrow> mem \<Rightarrow> mem" where
  "safestrcpy s t n m = (if n \<le> 0 then m else safestrcpy_loop s t (nat (n - 1)) m)"

partial_function (option) strlen_from :: "mem \<Rightarrow> u32 \<Rightarrow> nat \<Rightarrow> nat option" where
  "strlen_from m s n = (if m (s + of_nat n) = 0 then Some n else strlen_from m s (Suc n))"

definition strlen :: "mem \<Rightarrow> u32 \<Rightarrow> nat option" where
  "strlen m s = strlen_from m s 0"

section \<open>ulib.c\<close>

partial_function (option) strcpy :: "u32 \<Rightarrow> u32 \<Rightarrow> mem \<Rightarrow> mem option" where
  "strcpy s t m = (let m' = m(s := m t) in if m t \<noteq> 0 then strcpy (s + 1) (t + 1) m' else Some m')"

partial_function (option) strcmp :: "mem \<Rightarrow> u32 \<Rightarrow> u32 \<Rightarrow> int option" where
  "strcmp m p q = (if m p \<noteq> 0 \<and> m p = m q then strcmp m (p + 1) (q + 1)
     else Some (int (unat (m p)) - int (unat (m q))))"

partial_function (option) strchr :: "mem \<Rightarrow> u32 \<Rightarrow> byte \<Rightarrow> u32 option" where
  "strchr m s c = (if m s = 0 then Some 0 else if m s = c then Some s else strchr m (s + 1) c)"

definition ustrlen :: "mem \<Rightarrow> u32 \<Rightarrow> nat option" where
  "ustrlen m s = strlen_from m s 0"

text \<open>\<open>atoi\<close> computes on a C \<open>int\<close>; the arithmetic is shown at 32 bits, where it wraps.\<close>

partial_function (option) atoi_loop :: "mem \<Rightarrow> u32 \<Rightarrow> u32 \<Rightarrow> u32 option" where
  "atoi_loop m s n = (if 48 \<le> m s \<and> m s \<le> 57 then atoi_loop m (s + 1) (n * 10 + ucast (m s) - 48) else Some n)"

definition atoi :: "mem \<Rightarrow> u32 \<Rightarrow> int option" where
  "atoi m s = map_option sint (atoi_loop m s 0)"

definition umemset :: "u32 \<Rightarrow> u32 \<Rightarrow> u32 \<Rightarrow> mem \<Rightarrow> mem" where
  "umemset dst c n m = stosb dst (ucast c) (unat n) m"

definition umemmove :: "u32 \<Rightarrow> u32 \<Rightarrow> int \<Rightarrow> mem \<Rightarrow> mem" where
  "umemmove dst src n m = copy_forward dst src (nat n) m"

text \<open>
  \<open>gets\<close> reads one byte at a time from standard input.  The parameter \<open>rd\<close> is the sequence of
  results of \<open>read(0, &c, 1)\<close>: a byte, or None for a count below 1.
\<close>

fun ugets_loop :: "byte option list \<Rightarrow> u32 \<Rightarrow> nat \<Rightarrow> int \<Rightarrow> mem \<Rightarrow> mem" where
  "ugets_loop [] b i mx m = m(b + of_nat i := 0)"
| "ugets_loop (None # rd) b i mx m = m(b + of_nat i := 0)"
| "ugets_loop (Some c # rd) b i mx m =
     (if int i + 1 < mx
      then let m' = m(b + of_nat i := c)
           in if c = 10 \<or> c = 13 then m'(b + of_nat (Suc i) := 0) else ugets_loop rd b (Suc i) mx m'
      else m(b + of_nat i := 0))"

definition ugets :: "byte option list \<Rightarrow> u32 \<Rightarrow> int \<Rightarrow> mem \<Rightarrow> mem" where
  "ugets rd b mx m = ugets_loop rd b 0 mx m"

section \<open>Stores and copies as functions of the address\<close>

lemma unat_off_Suc:
  fixes x a :: u32
  assumes "Suc n \<le> 2 ^ 32"
  shows "unat (x - a) < Suc n \<longleftrightarrow> x = a \<or> unat (x - (a + 1)) < n"
proof (cases "x = a")
  case False
  then have "x - a \<noteq> 0" by simp
  then have "unat (x - a - 1) = unat (x - a) - 1" "unat (x - a) > 0" by (simp_all add: unat_minus_one unat_gt_0)
  then show ?thesis using False by (auto simp: algebra_simps)
qed simp

lemma unat_m1: "unat (- 1 :: u32) = 4294967295"
  by (simp add: unsigned_minus_1_eq_mask mask_eq_exp_minus_1)

lemma unat_off_0: "n < 2 ^ 32 \<Longrightarrow> \<not> unat ((a :: u32) - (a + 1)) < n"
  by (simp add: unat_m1)

lemma stosb_eq:
  "n \<le> 2 ^ 32 \<Longrightarrow> stosb a c n m x = (if unat (x - a) < n then c else m x)"
proof (induction n arbitrary: a m)
  case (Suc n)
  then show ?case using unat_off_Suc [OF Suc.prems, of x a] unat_off_0 [of n a] by auto
qed simp

lemma copy_forward_eq:
  assumes "n \<le> 2 ^ 32" "d = s \<or> n \<le> unat (d - s)"
  shows "copy_forward d s n m x = (if unat (x - d) < n then m (s + (x - d)) else m x)"
  using assms
proof (induction n arbitrary: d s m)
  case (Suc n)
  have IH: "copy_forward (d + 1) (s + 1) n (m(d := m s)) x =
     (if unat (x - (d + 1)) < n then (m(d := m s)) (s + (x - d)) else (m(d := m s)) x)"
  proof -
    have e: "s + 1 + (x - (d + 1)) = s + (x - d)" by (simp add: algebra_simps)
    have "d + 1 = s + 1 \<or> n \<le> unat (d + 1 - (s + 1))" using Suc.prems(2) by auto
    from Suc.IH [OF _ this, of "m(d := m s)"] Suc.prems(1) show ?thesis unfolding e by (simp del: fun_upd_apply)
  qed
  have keep: "(m(d := m s)) (s + (x - d)) = m (s + (x - d))" if "unat (x - d) < Suc n"
  proof (cases "s + (x - d) = d")
    case True
    then have "x - d = d - s" by (simp add: algebra_simps)
    with that Suc.prems(2) have "d = s" by auto
    with True show ?thesis by simp
  qed simp
  show ?case
    using unat_off_Suc [OF Suc.prems(1), of x d] keep unat_off_0 [of n d] Suc.prems(1)
    unfolding copy_forward.simps IH by auto
qed simp

lemma unat_off_dec:
  fixes x a :: u32
  assumes "Suc n \<le> 2 ^ 32"
  shows "unat (a - x - 1) < Suc n \<longleftrightarrow> x = a - 1 \<or> unat (a - 1 - x - 1) < n"
  using unat_off_Suc [OF assms, of "a - x - 1" 0] by (auto simp: algebra_simps)

lemma copy_backward_eq:
  assumes "n \<le> 2 ^ 32" "d = s \<or> n \<le> unat (s - d)"
  shows "copy_backward d s n m x = (if unat (d - x - 1) < n then m (s - (d - x)) else m x)"
  using assms
proof (induction n arbitrary: d s m)
  case (Suc n)
  let ?m = "m(d - 1 := m (s - 1))"
  have IH: "copy_backward (d - 1) (s - 1) n ?m x =
     (if unat (d - 1 - x - 1) < n then ?m (s - (d - x)) else ?m x)"
  proof -
    have e: "s - 1 - (d - 1 - x) = s - (d - x)" by (simp add: algebra_simps)
    have "d - 1 = s - 1 \<or> n \<le> unat (s - 1 - (d - 1))" using Suc.prems(2) by auto
    from Suc.IH [OF _ this, of ?m] Suc.prems(1) show ?thesis unfolding e by (simp del: fun_upd_apply)
  qed
  have keep: "?m (s - (d - x)) = m (s - (d - x))" if "unat (d - x - 1) < Suc n"
  proof (cases "s - (d - x) = d - 1")
    case True
    then have "d - x - 1 = s - d" by (simp add: algebra_simps)
    with that Suc.prems(2) have "d = s" by auto
    with True show ?thesis by simp
  qed simp
  have "\<not> unat (d - 1 - (d - 1) - 1) < n" using Suc.prems(1) by (simp add: unat_m1)
  then show ?case
    using unat_off_dec [OF Suc.prems(1), of d x] keep unfolding copy_backward.simps IH by auto
qed simp

text \<open>The string store of four-byte words is the string store of bytes.\<close>

lemma stosb_add: "stosb a c (i + j) m = stosb (a + of_nat i) c j (stosb a c i m)"
  by (induction i arbitrary: a m) (simp_all add: algebra_simps)

lemma store32_same:
  assumes "ucast x = c" "ucast (drop_bit 8 x) = c" "ucast (drop_bit 16 x) = c" "ucast (drop_bit 24 x) = c"
  shows "store32 a x m = stosb a c 4 m"
  using assms by (simp add: store32_def eval_nat_numeral add.assoc)

lemma stosl_stosb:
  assumes "ucast x = c" "ucast (drop_bit 8 x) = c" "ucast (drop_bit 16 x) = c" "ucast (drop_bit 24 x) = c"
  shows "stosl a x n m = stosb a c (4 * n) m"
proof (induction n arbitrary: a m)
  case (Suc n)
  have "stosb a c (4 * Suc n) m = stosb (a + 4) c (4 * n) (stosb a c 4 m)"
    using stosb_add [of a c 4 "4 * n" m] by (simp add: add.commute)
  then show ?case by (simp add: Suc.IH store32_same [OF assms])
qed simp

lemma word_of_byte:
  fixes c :: u32
  defines "d \<equiv> c AND 0xFF"
  defines "x \<equiv> push_bit 24 d OR push_bit 16 d OR push_bit 8 d OR d"
  shows "(ucast x :: byte) = ucast c" "(ucast (drop_bit 8 x) :: byte) = ucast c"
    "(ucast (drop_bit 16 x) :: byte) = ucast c" "(ucast (drop_bit 24 x) :: byte) = ucast c"
proof -
  have "0xFF = (mask 8 :: u32)" by (simp add: mask_eq_exp_minus_1)
  then have d: "d = c AND mask 8" by (simp add: d_def)
  show "(ucast x :: byte) = ucast c" "(ucast (drop_bit 8 x) :: byte) = ucast c"
    "(ucast (drop_bit 16 x) :: byte) = ucast c" "(ucast (drop_bit 24 x) :: byte) = ucast c"
    unfolding x_def d by (rule bit_word_eqI; auto simp: bit_simps)+
qed

lemma memset_stosb: "memset dst c n m = stosb dst (ucast c) (unat n) m"
proof (cases "sint dst mod 4 = 0 \<and> n mod 4 = 0")
  case True
  have "unat (n mod 4) = unat n mod 4" by (simp add: unat_mod_distrib)
  with True have "unat n mod 4 = 0" by simp
  then have "4 * (unat n div 4) = unat n" by presburger
  then have "4 * unat (n div 4) = unat n" by (simp add: unat_div_distrib)
  with True show ?thesis
    by (simp only: memset_def Let_def stosl_stosb [OF word_of_byte] if_True simp_thms)
next
  case False
  then show ?thesis by (simp only: memset_def if_False)
qed

section \<open>Properties of string.c\<close>

text \<open>
  C36.  \<open>memset\<close>, with its four-byte fast path, sets exactly the \<open>n\<close> bytes at \<open>dst\<close> to the low byte
  of \<open>c\<close>: it is the user library's bytewise \<open>memset\<close>.
\<close>

theorem memset_exact:
  "memset dst c n m = (\<lambda>x. if unat (x - dst) < unat n then ucast c else m x) \<and>
   memset dst c n m = umemset dst c n m"
proof -
  have "unat n \<le> 2 ^ 32" by (simp add: less_imp_le)
  then show ?thesis by (auto simp: memset_stosb umemset_def stosb_eq fun_eq_iff)
qed

text \<open>
  C37.  \<open>memmove\<close> copies the \<open>n\<close> bytes the source had before the call, whatever the overlap of the two
  ranges, and changes no byte outside the destination.
\<close>

theorem memmove_correct:
  assumes "unat src + unat n < 2 ^ 32" "unat dst + unat n \<le> 2 ^ 32"
  shows "memmove dst src n m = (\<lambda>x. if unat (x - dst) < unat n then m (src + (x - dst)) else m x)"
proof (rule ext)
  fix x
  have sn: "unat (src + n) = unat src + unat n" using assms(1) by (simp add: unat_word_ariths(1))
  have n: "unat n \<le> 2 ^ 32" by (simp add: less_imp_le)
  show "memmove dst src n m x = (if unat (x - dst) < unat n then m (src + (x - dst)) else m x)"
  proof (cases "src < dst \<and> src + n > dst")
    case True
    then have lt: "unat src < unat dst" by (simp add: word_less_nat_alt)
    have e: "dst + n = src + n \<or> unat n \<le> unat (src + n - (dst + n))"
      by (rule disjI2) (use assms(2) lt in \<open>simp add: unat_sub_if'\<close>)
    have b: "unat (dst + n - x - 1) < unat n \<longleftrightarrow> unat (x - dst) < unat n"
    proof -
      have "unat (n - k - 1) < unat n \<longleftrightarrow> unat k < unat n" for k
      proof (cases "k < n")
        case True
        then have "unat (n - k) = unat n - unat k" "0 < unat (n - k)"
          by (simp_all add: unat_sub word_less_nat_alt less_imp_le)
        moreover have "n - k \<noteq> 0" using True by auto
        ultimately show ?thesis using True by (simp add: unat_minus_one word_less_nat_alt)
      next
        case False
        have kb: "unat k + 1 \<le> 4294967296" using unat_u32_bound [of k] by linarith
        have "unat (n - k - 1) = (if unat k < unat n then unat n - unat k - 1 else 2 ^ 32 + unat n - unat k - 1)"
          using False kb by (auto simp: unat_sub_if' word_less_nat_alt)
        then show ?thesis using False kb by (simp add: word_less_nat_alt)
      qed
      from this [of "x - dst"] show ?thesis by (simp add: algebra_simps)
    qed
    have s: "src + n - (dst + n - x) = src + (x - dst)" by (simp add: algebra_simps)
    have "memmove dst src n m x = copy_backward (dst + n) (src + n) (unat n) m x" using True by (simp add: memmove_def)
    then show ?thesis unfolding copy_backward_eq [OF n e] b s .
  next
    case False
    have "dst = src \<or> unat n \<le> unat (dst - src)"
      using False assms(1) sn by (auto simp: unat_sub_if' word_less_nat_alt not_less word_unat_eq_iff)
    from copy_forward_eq [OF n this] False show ?thesis by (auto simp: memmove_def)
  qed
qed

theorem memmove_correct_witness:
  "memmove 101 100 2 (\<lambda>a. ucast a) = (\<lambda>x. if unat (x - 101) < unat (2 :: u32) then ucast (100 + (x - 101)) else ucast x)"
  by (rule memmove_correct) simp_all

text \<open>C strings: what the terminated routines return, on every string.\<close>

lemma off_Suc: "(s :: u32) + of_nat (Suc n) = s + of_nat n + 1"
  by simp

lemma cstr_nth: "cstr m a xs \<Longrightarrow> i < length xs \<Longrightarrow> m (a + of_nat i) = xs ! i \<and> xs ! i \<noteq> 0"
  by (induction xs arbitrary: a i) (auto simp: nth_Cons add.assoc [symmetric] split: nat.splits)

lemma cstr_end: "cstr m a xs \<Longrightarrow> m (a + of_nat (length xs)) = 0"
  by (induction xs arbitrary: a) (auto simp: add.assoc [symmetric])

lemma strlen_from_cstr: "cstr m (s + of_nat n) xs \<Longrightarrow> strlen_from m s n = Some (n + length xs)"
proof (induction xs arbitrary: n)
  case (Cons x xs)
  then show ?case using Cons.IH [of "Suc n"] by (subst strlen_from.simps) (simp add: off_Suc del: of_nat_Suc)
qed (simp add: strlen_from.simps)

lemma strlen_cstr: "cstr m s xs \<Longrightarrow> strlen m s = Some (length xs)"
  using strlen_from_cstr [of m s 0 xs] by (simp add: strlen_def)

lemma strchr_cstr:
  "cstr m s xs \<Longrightarrow> strchr m s c = Some (case findix (\<lambda>x. x = c) 0 xs of None \<Rightarrow> 0 | Some i \<Rightarrow> s + of_nat i)"
proof -
  have "cstr m (s + of_nat k) xs \<Longrightarrow>
    strchr m (s + of_nat k) c = Some (case findix (\<lambda>x. x = c) k xs of None \<Rightarrow> 0 | Some i \<Rightarrow> s + of_nat i)" for k
  proof (induction xs arbitrary: k)
    case (Cons x xs)
    then show ?case using Cons.IH [of "Suc k"] by (subst strchr.simps) (simp add: off_Suc del: of_nat_Suc)
  qed (simp add: strchr.simps)
  from this [of 0] show "cstr m s xs \<Longrightarrow> ?thesis" by simp
qed

lemma strcmp_cstr:
  "cstr m p xs \<Longrightarrow> cstr m q ys \<Longrightarrow> \<exists>r. strcmp m p q = Some r \<and> (r = 0 \<longleftrightarrow> xs = ys)"
proof (induction xs arbitrary: p q ys)
  case Nil
  then show ?case by (cases ys) (simp_all add: strcmp.simps uint_0_iff)
next
  case (Cons x xs)
  then show ?case by (cases ys) (auto simp: strcmp.simps [of m p q] uint_0_iff word_uint_eq_iff [symmetric])
qed

lemma memcmp_bytes: "memcmp m p q n = 0 \<longleftrightarrow> (\<forall>i < n. m (p + of_nat i) = m (q + of_nat i))"
proof (induction n arbitrary: p q)
  case (Suc n)
  show ?case by (simp add: Suc.IH All_less_Suc2 add.assoc [symmetric] word_uint_eq_iff [symmetric])
qed simp

lemma strncmp_equal:
  "strncmp m p q n = 0 \<longleftrightarrow>
     (\<forall>i < n. (\<forall>j < i. m (p + of_nat j) \<noteq> 0) \<longrightarrow> m (p + of_nat i) = m (q + of_nat i))"
proof (induction n arbitrary: p q)
  case (Suc n)
  show ?case
  proof (cases "m p \<noteq> 0 \<and> m p = m q")
    case True
    have "(\<forall>i < Suc n. (\<forall>j < i. m (p + of_nat j) \<noteq> 0) \<longrightarrow> m (p + of_nat i) = m (q + of_nat i)) \<longleftrightarrow>
      (\<forall>i < n. (\<forall>j < i. m (p + 1 + of_nat j) \<noteq> 0) \<longrightarrow> m (p + 1 + of_nat i) = m (q + 1 + of_nat i))"
      using True by (auto simp: All_less_Suc2 add.assoc [symmetric])
    with True show ?thesis by (auto simp: Suc.IH)
  next
    case False
    then show ?thesis by (auto simp: All_less_Suc2 word_uint_eq_iff [symmetric])
  qed
qed simp

text \<open>The bounded copies: at most \<open>n\<close> bytes are written, the first of them those of the source.\<close>

lemma safestrcpy_loop_frame: "Suc n \<le> 2 ^ 32 \<Longrightarrow> \<not> unat (x - s) < Suc n \<Longrightarrow> safestrcpy_loop s t n m x = m x"
proof (induction n arbitrary: s t m)
  case 0
  then show ?case by auto
next
  case (Suc n)
  have "\<not> unat (x - (s + 1)) < Suc n" "x \<noteq> s" using Suc.prems unat_off_Suc [of "Suc n" x s] by auto
  moreover from this have "x \<noteq> s + 1" by auto
  moreover have "safestrcpy_loop (s + 1) (t + 1) n (m(s := m t)) x = m x"
    using calculation Suc.prems(1) by (subst Suc.IH) auto
  ultimately show ?case by (simp add: Let_def)
qed

lemma cstr_cong: "(\<And>i. i \<le> length xs \<Longrightarrow> m' (a + of_nat i) = m (a + of_nat i)) \<Longrightarrow> cstr m' a xs = cstr m a xs"
proof (induction xs arbitrary: a)
  case Nil
  then show ?case using Nil.prems [of 0] by simp
next
  case (Cons x xs)
  have "m' (a + 1 + of_nat i) = m (a + 1 + of_nat i)" if "i \<le> length xs" for i
    using Cons.prems [of "Suc i"] that by (simp add: add.assoc [symmetric])
  with Cons.IH [of "a + 1"] Cons.prems [of 0] show ?case by simp
qed

lemma safestrcpy_loop_copies:
  assumes "cstr m t xs" "Suc n \<le> 2 ^ 32"
    and "\<And>i j. i \<le> length xs \<Longrightarrow> j \<le> n \<Longrightarrow> t + of_nat i \<noteq> s + of_nat j"
  shows "cstr (safestrcpy_loop s t n m) s (take n xs)"
  using assms
proof (induction n arbitrary: s t m xs)
  case (Suc n)
  show ?case
  proof (cases xs)
    case Nil
    then show ?thesis using Suc.prems(1) by simp
  next
    case (Cons x ys)
    let ?m = "m(s := m t)"
    have disj: "t + 1 + of_nat i \<noteq> s + 1 + of_nat j" "t + 1 + of_nat i \<noteq> s" if "i \<le> length ys" "j \<le> n" for i j
      using Suc.prems(3) [of "Suc i" "Suc j"] Suc.prems(3) [of "Suc i" 0] that Cons by (simp_all add: add.assoc [symmetric])
    have c: "cstr ?m (t + 1) ys"
      using Suc.prems(1) Cons disj(2) by (subst cstr_cong [of ys ?m "t + 1" m]) auto
    have IH: "cstr (safestrcpy_loop (s + 1) (t + 1) n ?m) (s + 1) (take n ys)"
      by (rule Suc.IH [OF c]) (use Suc.prems(2) disj(1) in auto)
    have "safestrcpy_loop (s + 1) (t + 1) n ?m s = ?m s"
      using Suc.prems(2) by (intro safestrcpy_loop_frame) (auto simp: unat_m1)
    with IH Cons Suc.prems(1) show ?thesis by (simp add: Let_def)
  qed
qed simp

text \<open>
  C38.  \<open>safestrcpy\<close> into an array of \<open>n\<close> bytes stays inside the array and leaves there the first \<open>n - 1\<close>
  bytes of the string, terminated by NUL.
\<close>

theorem safestrcpy_bounded:
  assumes "0 < n" "n \<le> 2 ^ 31 - 1" "cstr m t xs"
    and "\<forall>i \<le> length xs. \<forall>j < nat n. t + of_nat i \<noteq> s + of_nat j"
  shows "cstr (safestrcpy s t n m) s (take (nat n - 1) xs) \<and>
     (\<forall>x. nat n \<le> unat (x - s) \<longrightarrow> safestrcpy s t n m x = m x)"
proof -
  have n: "nat (n - 1) = nat n - 1" "Suc (nat n - 1) = nat n" "nat n \<le> 2 ^ 32" using assms(1,2) by auto
  have "cstr (safestrcpy_loop s t (nat n - 1) m) s (take (nat n - 1) xs)"
    by (rule safestrcpy_loop_copies [OF assms(3)]) (use n assms(4) in auto)
  moreover have "safestrcpy_loop s t (nat n - 1) m x = m x" if "nat n \<le> unat (x - s)" for x
    by (rule safestrcpy_loop_frame) (use n that in auto)
  ultimately show ?thesis using assms(1) n by (simp add: safestrcpy_def)
qed

theorem safestrcpy_bounded_witness:
  "let m = (\<lambda>a. if a \<in> {200, 201, 202} then 65 else 0)
   in cstr (safestrcpy 100 200 3 m) 100 (take (nat 3 - 1) [65, 65, 65]) \<and>
      (\<forall>x. nat 3 \<le> unat (x - 100) \<longrightarrow> safestrcpy 100 200 3 m x = m x)"
proof -
  have "(200 :: u32) + of_nat i \<noteq> 100 + of_nat j" if "i \<le> length [65, 65, 65 :: byte]" "j < nat 3" for i j
  proof -
    have "i \<in> {0, 1, 2, 3}" "j \<in> {0, 1, 2}" using that by auto
    then show ?thesis by auto
  qed
  then show ?thesis unfolding Let_def by (intro safestrcpy_bounded) auto
qed

end
