(* ===== verification/Printf.thy ===== *)
theory Printf
  imports Cstring
begin

unbundle bit_operations_syntax

text \<open>
  Formatted output of the user library (\<open>printf.c\<close>).  A routine returns the bytes it writes to the
  file descriptor.  The variadic arguments are the stack words after \<open>fmt\<close>, a function of their
  position; a \<open>%s\<close> argument is an address in memory.  The digit loop runs until the quotient is zero,
  which it never is for base 1, and the string loop until a NUL, so both return an option.

  The decimal printer is shown to return, to stay inside its 16-byte buffer and to be inverted by
  \<open>atoi\<close>.
\<close>

definition digit_chars :: "byte list" where
  "digit_chars = map of_char ''0123456789ABCDEF''"

partial_function (option) digit_loop :: "byte list \<Rightarrow> u32 \<Rightarrow> u32 \<Rightarrow> byte list \<Rightarrow> byte list option" where
  "digit_loop digits base x buf =
     (let buf = buf @ [digits ! unat (x mod base)]; x = x div base
      in if x \<noteq> 0 then digit_loop digits base x buf else Some buf)"

text \<open>\<open>buf\<close> is filled from the low digit up and then written from its end.\<close>

definition printint :: "u32 \<Rightarrow> u32 \<Rightarrow> bool \<Rightarrow> byte list option" where
  "printint xx base sg =
     (let neg = sg \<and> sint xx < 0; x = (if neg then - xx else xx)
      in map_option (\<lambda>buf. rev (if neg then buf @ [45] else buf)) (digit_loop digit_chars base x []))"

partial_function (option) put_string :: "mem \<Rightarrow> u32 \<Rightarrow> byte list \<Rightarrow> byte list option" where
  "put_string m s out = (if m s \<noteq> 0 then put_string m (s + 1) (out @ [m s]) else Some out)"

text \<open>The format loop; \<open>pct\<close> is \<open>state == '%'\<close>, \<open>ap\<close> the index of the next argument.\<close>

fun printf_loop :: "mem \<Rightarrow> (nat \<Rightarrow> u32) \<Rightarrow> byte list \<Rightarrow> bool \<Rightarrow> nat \<Rightarrow> byte list \<Rightarrow> byte list option" where
  "printf_loop m args [] pct ap out = Some out"
| "printf_loop m args (c # fmt) False ap out =
     (if c = of_char (CHR ''%'') then printf_loop m args fmt True ap out
      else printf_loop m args fmt False ap (out @ [c]))"
| "printf_loop m args (c # fmt) True ap out =
     (if c = of_char (CHR ''d'')
      then Option.bind (printint (args ap) 10 True) (\<lambda>s. printf_loop m args fmt False (ap + 1) (out @ s))
      else if c = of_char (CHR ''x'') \<or> c = of_char (CHR ''p'')
      then Option.bind (printint (args ap) 16 False) (\<lambda>s. printf_loop m args fmt False (ap + 1) (out @ s))
      else if c = of_char (CHR ''s'')
      then Option.bind (if args ap = 0 then Some (out @ map of_char ''(null)'') else put_string m (args ap) out)
             (\<lambda>out. printf_loop m args fmt False (ap + 1) out)
      else if c = of_char (CHR ''c'')
      then printf_loop m args fmt False (ap + 1) (out @ [ucast (args ap)])
      else if c = of_char (CHR ''%'')
      then printf_loop m args fmt False ap (out @ [c])
      else printf_loop m args fmt False ap (out @ [of_char (CHR ''%''), c]))"

definition printf :: "mem \<Rightarrow> byte list \<Rightarrow> (nat \<Rightarrow> u32) \<Rightarrow> byte list option" where
  "printf m fmt args = printf_loop m args fmt False 0 []"

section \<open>Digits\<close>

fun digs :: "nat \<Rightarrow> nat \<Rightarrow> nat list" where
  "digs b n = (if n < b \<or> b < 2 then [n] else digs b (n div b) @ [n mod b])"

declare digs.simps [simp del]

lemma digit_loop_digs:
  assumes "2 \<le> unat base"
  shows "digit_loop ds base x buf = Some (buf @ rev (map (\<lambda>d. ds ! d) (digs (unat base) (unat x))))"
proof (induction "unat x" arbitrary: x buf rule: less_induct)
  case less
  have u: "unat (x div base) = unat x div unat base" "unat (x mod base) = unat x mod unat base"
    by (simp_all add: unat_div_distrib unat_mod_distrib)
  show ?case
  proof (cases "unat x < unat base")
    case True
    then have "x div base = 0" by (simp add: word_unat_eq_iff u)
    then show ?thesis using True by (subst digit_loop.simps) (simp add: digs.simps [of "unat base"] u)
  next
    case False
    then have "x div base \<noteq> 0" using assms by (auto simp: word_unat_eq_iff u div_eq_0_iff)
    moreover have "unat (x div base) < unat x" using False assms by (simp add: u)
    ultimately show ?thesis using False assms less [of "x div base"]
      by (subst digit_loop.simps) (simp add: Let_def digs.simps [of "unat base" "unat x"] u)
  qed
qed

lemma digs_bound: "2 \<le> b \<Longrightarrow> d \<in> set (digs b n) \<Longrightarrow> d < b"
proof (induction b n rule: digs.induct)
  case (1 b n)
  then show ?case by (auto simp: digs.simps [of b n] split: if_splits)
qed

lemma digs_length: "2 \<le> b \<Longrightarrow> n < b ^ Suc k \<Longrightarrow> length (digs b n) \<le> Suc k"
proof (induction k arbitrary: n)
  case (Suc k)
  then have "n div b < b ^ Suc k" by (simp add: less_mult_imp_div_less mult.commute)
  with Suc.IH [OF Suc.prems(1)] show ?case by (simp add: digs.simps [of b n])
qed (simp add: digs.simps)

lemma digs_value: "2 \<le> b \<Longrightarrow> foldl (\<lambda>n d. n * b + d) 0 (digs b n) = n"
proof (induction b n rule: digs.induct)
  case (1 b n)
  then show ?case by (simp add: digs.simps [of b n] div_mult_mod_eq)
qed

lemma digit_chars_nth: "d < 10 \<Longrightarrow> digit_chars ! d = of_nat (48 + d)"
proof -
  assume "d < 10"
  then have "d \<in> {0, 1, 2, 3, 4, 5, 6, 7, 8, 9}" by auto
  then show ?thesis by (auto simp: digit_chars_def)
qed

lemma printint_digs:
  "printint xx 10 True = Some ((if sint xx < 0 then [45] else []) @ map ((!) digit_chars) (digs 10 (unat (if sint xx < 0 then - xx else xx))))"
  by (simp add: printint_def Let_def digit_loop_digs)

text \<open>
  C35.  Every call of the number printer returns, and what it puts in its 16-byte buffer fits: at most
  11 bytes in base 10, sign included, and at most 8 in base 16.
\<close>

theorem printint_fits:
  "(\<exists>s. printint xx 10 True = Some s \<and> length s \<le> 11) \<and> (\<exists>s. printint xx 16 False = Some s \<and> length s \<le> 8)"
proof -
  have d: "length (digs 10 (unat x)) \<le> 10" for x :: u32
    using digs_length [of 10 "unat x" 9] less_trans [OF unat_u32_bound [of x], of "10 ^ Suc 9"] by simp
  have h: "length (digs 16 (unat x)) \<le> 8" for x :: u32
    using digs_length [of 16 "unat x" 7] by simp
  have "printint xx 16 False = Some (map ((!) digit_chars) (digs 16 (unat xx)))"
    by (simp add: printint_def Let_def digit_loop_digs)
  then show ?thesis using d [of "if sint xx < 0 then - xx else xx"] h [of xx] by (auto simp: printint_digs)
qed

lemma atoi_loop_digs:
  assumes "\<forall>d \<in> set ds. d < 10" "cstr m s (map ((!) digit_chars) ds)"
  shows "atoi_loop m s (of_nat n) = Some (of_nat (foldl (\<lambda>n d. n * 10 + d) n ds))"
  using assms
proof (induction ds arbitrary: s n)
  case Nil
  then show ?case by (subst atoi_loop.simps) simp
next
  case (Cons d ds)
  then have d: "d < 10" "m s = of_nat (48 + d)" by (auto simp: digit_chars_nth)
  have ub: "unat (m s) = 48 + d" using d by (simp add: unat_of_nat take_bit_nat_eq_self_iff del: of_nat_add)
  have "(ucast (m s) :: u32) = of_nat (unat (m s))" by simp
  then have u: "(ucast (m s) :: u32) = 48 + of_nat d" unfolding ub by simp
  have b: "48 \<le> m s \<and> m s \<le> 57" using d(1) by (simp add: word_le_nat_alt ub)
  have "atoi_loop m s (of_nat n) = atoi_loop m (s + 1) (of_nat (n * 10 + d))"
    by (subst atoi_loop.simps) (simp add: b u)
  also have "\<dots> = Some (of_nat (foldl (\<lambda>n d. n * 10 + d) (n * 10 + d) ds))"
    by (rule Cons.IH) (use Cons.prems in auto)
  finally show ?case by simp
qed

text \<open>
  C34.  Round trip: the decimal digits \<open>printf\<close> writes for a number that is not negative, stored as a
  C string, are read back by \<open>atoi\<close> as that number.
\<close>

theorem printint_atoi:
  assumes "0 \<le> sint xx" "printint xx 10 True = Some s" "cstr m a s"
  shows "atoi m a = Some (sint xx)"
proof -
  have s: "s = map ((!) digit_chars) (digs 10 (unat xx))" using assms(1,2) by (simp add: printint_digs)
  have "atoi_loop m a (of_nat 0) = Some (of_nat (foldl (\<lambda>n d. n * 10 + d) 0 (digs 10 (unat xx))))"
    by (rule atoi_loop_digs) (use assms(3) s digs_bound [of 10] in auto)
  then show ?thesis by (simp add: atoi_def digs_value)
qed

theorem printint_atoi_witness:
  "let m = (\<lambda>a. if a = 100 then 52 else if a = 101 then 50 else 0)
   in printint 42 10 True = Some [52, 50] \<and> atoi m 100 = Some (sint (42 :: u32))"
proof -
  have p: "printint 42 10 True = Some [52, 50]"
    by (simp add: printint_digs digs.simps digit_chars_nth)
  then show ?thesis unfolding Let_def by (intro conjI printint_atoi [OF _ p]) simp_all
qed

end
