(* ===== verification/Kbd.thy ===== *)
theory Kbd
  imports Xv6_Base
begin

unbundle bit_operations_syntax

text \<open>
  The keyboard driver (\<open>kbd.c\<close>, \<open>kbd.h\<close>): the scan-code tables and \<open>kbdgetc\<close>, a state machine on the
  static variable \<open>shift\<close>.  The two port reads \<open>inb(KBSTATP)\<close> and \<open>inb(KBDATAP)\<close> are arguments.

  The machine is shown to refine an abstract keyboard that tracks the modifier keys held, the locks
  and the escape prefix by name; the table look-ups are in range and the code returned fits a byte.
\<close>

section \<open>Constants and tables of kbd.h\<close>

definition KBS_DIB :: byte where [param_defs]: "KBS_DIB = 0x01"

definition SHIFT :: byte where [param_defs]: "SHIFT = 1"

definition CTL :: byte where [param_defs]: "CTL = 2"

definition ALT :: byte where [param_defs]: "ALT = 4"

definition CAPSLOCK :: byte where [param_defs]: "CAPSLOCK = 8"

definition NUMLOCK :: byte where [param_defs]: "NUMLOCK = 16"

definition SCROLLLOCK :: byte where [param_defs]: "SCROLLLOCK = 32"

definition E0ESC :: u32 where [param_defs]: "E0ESC = 64"

definition KEYS :: "(nat \<times> byte) list" where
  "KEYS = [(0xC8, 0xE2), (0xD0, 0xE3), (0xC9, 0xE6), (0xD1, 0xE7), (0xCB, 0xE4), (0xCD, 0xE5),
     (0x97, 0xE0), (0xCF, 0xE1), (0xD2, 0xE8), (0xD3, 0xE9)]"

text \<open>A C array initialiser: the listed values, zeros up to 256, then the designated entries.\<close>

definition array256 :: "byte list \<Rightarrow> (nat \<times> byte) list \<Rightarrow> byte list" where
  "array256 xs ds = foldl (\<lambda>t (i, v). t[i := v]) (xs @ replicate (256 - length xs) 0) ds"

definition chr :: "char \<Rightarrow> byte" where
  "chr c = of_char c"

definition ctl_of :: "char \<Rightarrow> byte" where
  "ctl_of c = of_char c - 64"

definition shiftcode :: "byte list" where
  "shiftcode = array256 [] [(0x1D, CTL), (0x2A, SHIFT), (0x36, SHIFT), (0x38, ALT), (0x9D, CTL), (0xB8, ALT)]"

definition togglecode :: "byte list" where
  "togglecode = array256 [] [(0x3A, CAPSLOCK), (0x45, NUMLOCK), (0x46, SCROLLLOCK)]"

definition normalmap :: "byte list" where
  "normalmap = array256
    ([0, 0x1B] @ map chr ''1234567890-='' @ [8, 9] @
     map chr ''qwertyuiop[]'' @ [10, 0] @ map chr ''asdfghjkl;'' @
     [39, chr (CHR 0x60), 0, 92] @ map chr ''zxcvbnm,./'' @ [0, chr (CHR ''*''), 0, 32, 0, 0, 0, 0, 0, 0] @
     [0, 0, 0, 0, 0, 0, 0] @ map chr ''789-456+1230.'' @ [0, 0, 0, 0])
    ([(0x9C, 10), (0xB5, chr (CHR ''/''))] @ KEYS)"

definition shiftmap :: "byte list" where
  "shiftmap = array256
    ([0, 27] @ map chr ''!@#$%^&*()_+'' @ [8, 9] @
     map chr ''QWERTYUIOP{}'' @ [10, 0] @ map chr ''ASDFGHJKL:'' @
     [34, chr (CHR ''~''), 0, chr (CHR ''|'')] @ map chr ''ZXCVBNM<>?'' @ [0, chr (CHR ''*''), 0, 32, 0, 0, 0, 0, 0, 0] @
     [0, 0, 0, 0, 0, 0, 0] @ map chr ''789-456+1230.'' @ [0, 0, 0, 0])
    ([(0x9C, 10), (0xB5, chr (CHR ''/''))] @ KEYS)"

definition ctlmap :: "byte list" where
  "ctlmap = array256
    (replicate 16 0 @ map ctl_of ''QWERTYUIOP'' @ [0, 0, 13, 0] @ map ctl_of ''ASDFGHJKL'' @ [0,
     0, 0, 0, 92 - 64] @ map ctl_of ''ZXCVBNM'' @ [0, 0, ctl_of (CHR ''/''), 0, 0])
    ([(0x9C, 13), (0xB5, ctl_of (CHR ''/''))] @ KEYS)"

section \<open>kbd.c\<close>

definition charcode :: "byte list list" where
  "charcode = [normalmap, shiftmap, ctlmap, ctlmap]"

text \<open>\<open>kbdgetc st data shift\<close> is the value returned and the new \<open>shift\<close>.\<close>

definition kbdgetc :: "byte \<Rightarrow> byte \<Rightarrow> u32 \<Rightarrow> int \<times> u32" where
  "kbdgetc st inp shift =
     (if st AND KBS_DIB = 0 then (- 1, shift)
      else let data = ucast inp :: u32 in
      if data = 0xE0 then (0, shift OR E0ESC)
      else if data AND 0x80 \<noteq> 0 then
        let data = (if shift AND E0ESC \<noteq> 0 then data else data AND 0x7F)
        in (0, shift AND NOT (ucast (shiftcode ! unat data) OR E0ESC))
      else
        let (data, shift) = (if shift AND E0ESC \<noteq> 0 then (data OR 0x80, shift AND NOT E0ESC) else (data, shift));
            shift = shift OR ucast (shiftcode ! unat data);
            shift = shift XOR ucast (togglecode ! unat data);
            c = ucast (charcode ! unat (shift AND ucast (CTL OR SHIFT)) ! unat data) :: u32;
            c = (if shift AND ucast CAPSLOCK \<noteq> 0
                 then if 97 \<le> c \<and> c \<le> 122 then c + (65 - 97)
                      else if 65 \<le> c \<and> c \<le> 90 then c + (97 - 65) else c
                 else c)
        in (sint c, shift))"

section \<open>The abstract keyboard\<close>

record mods =
  shift_held :: bool
  ctl_held :: bool
  alt_held :: bool
  caps_on :: bool
  num_on :: bool
  scroll_on :: bool
  escaped :: bool

definition mods_of :: "u32 \<Rightarrow> mods" where
  "mods_of s = \<lparr>shift_held = bit s 0, ctl_held = bit s 1, alt_held = bit s 2, caps_on = bit s 3,
     num_on = bit s 4, scroll_on = bit s 5, escaped = bit s 6\<rparr>"

definition hold :: "bool \<Rightarrow> nat \<Rightarrow> mods \<Rightarrow> mods" where
  "hold b k m = m\<lparr>shift_held := (if k \<in> {0x2A, 0x36} then b else shift_held m),
     ctl_held := (if k \<in> {0x1D, 0x9D} then b else ctl_held m),
     alt_held := (if k \<in> {0x38, 0xB8} then b else alt_held m)\<rparr>"

definition lock :: "nat \<Rightarrow> mods \<Rightarrow> mods" where
  "lock k m = m\<lparr>caps_on := (if k = 0x3A then \<not> caps_on m else caps_on m),
     num_on := (if k = 0x45 then \<not> num_on m else num_on m),
     scroll_on := (if k = 0x46 then \<not> scroll_on m else scroll_on m)\<rparr>"

definition swap_case :: "nat \<Rightarrow> nat" where
  "swap_case c = (if 97 \<le> c \<and> c \<le> 122 then c - 32 else if 65 \<le> c \<and> c \<le> 90 then c + 32 else c)"

definition key_char :: "mods \<Rightarrow> nat \<Rightarrow> nat" where
  "key_char m k = (let c = unat ((if ctl_held m then ctlmap else if shift_held m then shiftmap else normalmap) ! k)
     in if caps_on m then swap_case c else c)"

text \<open>
  A scan code is the escape prefix, the release of a key or its press; a key number has bit 7 set
  when the prefix came before it.
\<close>

definition key_event :: "nat \<Rightarrow> mods \<Rightarrow> int \<times> mods" where
  "key_event d m =
     (if d = 0xE0 then (0, m\<lparr>escaped := True\<rparr>)
      else if d \<ge> 128 then (0, (hold False (if escaped m then d else d - 128) m)\<lparr>escaped := False\<rparr>)
      else let k = (if escaped m then d + 128 else d); m' = lock k (hold True k (m\<lparr>escaped := False\<rparr>))
           in (int (key_char m' k), m'))"

lemma shiftcode_nth:
  "k < 256 \<Longrightarrow> shiftcode ! k = (if k \<in> {0x2A, 0x36} then 1 else if k \<in> {0x1D, 0x9D} then 2 else if k \<in> {0x38, 0xB8} then 4 else 0)"
  by (auto simp: shiftcode_def array256_def param_defs nth_list_update)

lemma togglecode_nth:
  "k < 256 \<Longrightarrow> togglecode ! k = (if k = 0x3A then 8 else if k = 0x45 then 16 else if k = 0x46 then 32 else 0)"
  by (auto simp: togglecode_def array256_def param_defs nth_list_update)

lemma bit_codes:
  "bit (1 :: byte) n \<longleftrightarrow> n = 0" "bit (2 :: byte) n \<longleftrightarrow> n = 1" "bit (4 :: byte) n \<longleftrightarrow> n = 2"
  "bit (8 :: byte) n \<longleftrightarrow> n = 3" "bit (16 :: byte) n \<longleftrightarrow> n = 4" "bit (32 :: byte) n \<longleftrightarrow> n = 5"
  "bit E0ESC n \<longleftrightarrow> n = 6" "bit (128 :: u32) n \<longleftrightarrow> n = 7"
proof -
  have b: "bit (2 ^ k :: byte) n \<longleftrightarrow> n = k" if "k < 8" for k using that by (auto simp: bit_simps)
  show "bit (1 :: byte) n \<longleftrightarrow> n = 0" "bit (2 :: byte) n \<longleftrightarrow> n = 1" "bit (4 :: byte) n \<longleftrightarrow> n = 2"
    "bit (8 :: byte) n \<longleftrightarrow> n = 3" "bit (16 :: byte) n \<longleftrightarrow> n = 4" "bit (32 :: byte) n \<longleftrightarrow> n = 5"
    using b [of 0] b [of 1] b [of 2] b [of 3] b [of 4] b [of 5] by simp_all
  have w: "bit (2 ^ k :: u32) n \<longleftrightarrow> n = k" if "k < 32" for k using that by (auto simp: bit_simps)
  show "bit E0ESC n \<longleftrightarrow> n = 6" "bit (128 :: u32) n \<longleftrightarrow> n = 7" using w [of 6] w [of 7] by (simp_all add: E0ESC_def)
qed

lemma AND_single:
  "(s :: u32) AND E0ESC \<noteq> 0 \<longleftrightarrow> bit s 6" "(s :: u32) AND 128 \<noteq> 0 \<longleftrightarrow> bit s 7"
  "(s :: u32) AND 8 \<noteq> 0 \<longleftrightarrow> bit s 3"
  using and_exp_eq_0_iff_not_bit [of s 6] and_exp_eq_0_iff_not_bit [of s 7] and_exp_eq_0_iff_not_bit [of s 3]
  by (simp_all add: E0ESC_def)

lemma bit7_byte: "bit (d :: byte) 7 \<longleftrightarrow> 128 \<le> unat d"
proof -
  have "bit d 7 \<longleftrightarrow> bit (unat d) 7" by (simp add: bit_unsigned_iff)
  also have "\<dots> \<longleftrightarrow> odd (unat d div 128)" by (simp add: bit_iff_odd)
  also have "\<dots> \<longleftrightarrow> 128 \<le> unat d"
  proof (cases "128 \<le> unat d")
    case True
    then have "unat d div 128 = 1" by (intro div_nat_eqI) simp_all
    with True show ?thesis by simp
  qed simp
  finally show ?thesis .
qed

lemma data_codes:
  fixes d :: byte
  shows "(ucast d :: u32) = 0xE0 \<longleftrightarrow> unat d = 0xE0"
    and "unat (ucast d :: u32) = unat d"
    and "bit (ucast d :: u32) 7 \<longleftrightarrow> 128 \<le> unat d"
    and "128 \<le> unat d \<Longrightarrow> unat ((ucast d :: u32) AND 0x7F) = unat d - 128"
    and "unat d < 128 \<Longrightarrow> unat ((ucast d :: u32) OR 0x80) = unat d + 128"
proof -
  show u: "unat (ucast d :: u32) = unat d" using less_trans [OF unat_byte_bound [of d], of 4294967296]
    by (simp add: unsigned_ucast_eq take_bit_nat_eq_self_iff)
  show "(ucast d :: u32) = 0xE0 \<longleftrightarrow> unat d = 0xE0" by (simp add: word_unat_eq_iff u)
  show "bit (ucast d :: u32) 7 \<longleftrightarrow> 128 \<le> unat d" by (simp add: bit_ucast_iff bit7_byte)
  have m: "(0x7F :: u32) = mask 7" by (simp add: mask_eq_exp_minus_1)
  show "unat ((ucast d :: u32) AND 0x7F) = unat d - 128" if "128 \<le> unat d"
  proof -
    have "unat ((ucast d :: u32) AND 0x7F) = unat d mod 128"
      unfolding m by (simp add: take_bit_eq_mask [symmetric] u take_bit_eq_mod unat_mod_distrib)
    moreover have "unat d - 128 < 128" using unat_byte_bound [of d] by linarith
    then have "unat d mod 128 = unat d - 128" using that by (simp add: le_mod_geq)
    ultimately show ?thesis by simp
  qed
  show "unat ((ucast d :: u32) OR 0x80) = unat d + 128" if "unat d < 128"
  proof -
    have "(ucast d :: u32) AND 0x80 = 0" using AND_single(2) [of "ucast d"] that by (simp add: bit_ucast_iff bit7_byte)
    then have "(ucast d :: u32) OR 0x80 = ucast d + 0x80" by (simp add: disjunctive_add_eq_or)
    with that show ?thesis by (simp add: unat_word_ariths(1) u)
  qed
qed

lemma charcode_sel:
  "charcode ! unat ((s :: u32) AND ucast (CTL OR SHIFT)) = (if bit s 1 then ctlmap else if bit s 0 then shiftmap else normalmap)"
proof -
  have m: "(ucast (CTL OR SHIFT) :: u32) = mask 2" by (simp add: param_defs mask_eq_exp_minus_1)
  have "s AND mask 2 = of_bool (bit s 0) + 2 * of_bool (bit s 1)"
    by (simp add: take_bit_eq_mask [symmetric] numeral_2_eq_2 take_bit_Suc bit_Suc bit_0 mod_2_eq_odd)
  then show ?thesis unfolding m by (auto simp: charcode_def)
qed

text \<open>The result of a press, as the code computes it on 32-bit words.\<close>

lemma press_char:
  fixes b :: byte and caps :: bool
  defines "c \<equiv> ucast b :: u32"
  shows "sint (if caps then if 97 \<le> c \<and> c \<le> 122 then c + (65 - 97) else if 65 \<le> c \<and> c \<le> 90 then c + (97 - 65) else c
      else c) = int (if caps then swap_case (unat b) else unat b)"
proof -
  have u: "unat c = unat b" by (simp add: c_def data_codes(2))
  have s: "sint x = int (unat x)" if "unat x < 256" for x :: u32
  proof -
    have "uint x = int (unat x)" by simp
    with that have "uint x < 256" "- 2147483648 \<le> uint x" by linarith+
    then show ?thesis by (simp add: sint_uint signed_take_bit_int_eq_self_iff)
  qed
  have le: "97 \<le> c \<longleftrightarrow> 97 \<le> unat b" "c \<le> 122 \<longleftrightarrow> unat b \<le> 122" "65 \<le> c \<longleftrightarrow> 65 \<le> unat b" "c \<le> 90 \<longleftrightarrow> unat b \<le> 90"
    by (simp_all add: word_le_nat_alt u)
  have dn: "unat (c - 32) = unat b - 32" if "97 \<le> unat b" using that by (simp add: unat_sub word_le_nat_alt u)
  have up: "unat (c + 32) = unat b + 32" if "unat b \<le> 90" using that by (simp add: unat_word_ariths(1) u)
  have e: "c + (65 - 97) = c - 32" "c + (97 - 65) = c + 32" by (simp_all add: algebra_simps)
  have b: "unat b < 256" by simp
  have sc: "sint c = int (unat b)" using s [of c] b by (simp only: u)
  have sd: "sint (c - 32) = int (unat b - 32)" if "97 \<le> unat b \<and> unat b \<le> 122"
    using s [of "c - 32"] dn that b by auto
  have su: "sint (c + 32) = int (unat b + 32)" if "65 \<le> unat b \<and> unat b \<le> 90"
    using s [of "c + 32"] up that b by auto
  show ?thesis unfolding swap_case_def le e
    by (cases caps; cases "97 \<le> unat b \<and> unat b \<le> 122"; cases "65 \<le> unat b \<and> unat b \<le> 90")
       (simp_all only: if_True if_False simp_thms sc sd su)
qed

lemma mods_release:
  "k < 256 \<Longrightarrow> mods_of (s AND NOT (ucast (shiftcode ! k) OR E0ESC)) = (hold False k (mods_of s))\<lparr>escaped := False\<rparr>"
  unfolding shiftcode_nth by (simp add: mods_of_def hold_def bit_simps bit_codes)

lemma mods_press:
  assumes "k < 256"
  shows "mods_of ((s OR ucast (shiftcode ! k)) XOR ucast (togglecode ! k)) = lock k (hold True k (mods_of s))"
  unfolding shiftcode_nth [OF assms] togglecode_nth [OF assms]
  by (simp add: mods_of_def hold_def lock_def bit_simps bit_codes)

lemma mods_sel:
  "shift_held (mods_of s) = bit s 0" "ctl_held (mods_of s) = bit s 1" "caps_on (mods_of s) = bit s 3" "escaped (mods_of s) = bit s 6"
  by (simp_all add: mods_of_def)

text \<open>
  C33.  \<open>kbdgetc\<close> refines the abstract keyboard: on every scan code its result and the bits of \<open>shift\<close>
  are those of the key event, so the modifiers held, the locks and the escape prefix are tracked
  exactly and the character is the one of the table they select.
\<close>

theorem kbdgetc_refines:
  assumes "st AND KBS_DIB \<noteq> 0"
  shows "(fst (kbdgetc st d s), mods_of (snd (kbdgetc st d s))) = key_event (unat d) (mods_of s)"
proof -
  have b: "unat d < 256" by simp
  consider "unat d = 0xE0" | "unat d \<noteq> 0xE0" "128 \<le> unat d" | "unat d < 128" by linarith
  then show ?thesis
  proof cases
    case 1
    with assms show ?thesis
      by (simp add: kbdgetc_def Let_def data_codes key_event_def mods_of_def bit_simps bit_codes)
  next
    case 2
    let ?k = "if bit s 6 then unat d else unat d - 128"
    have k: "?k < 256" using b by (simp add: less_imp_diff_less)
    have "kbdgetc st d s = (0, s AND NOT (ucast (shiftcode ! ?k) OR E0ESC))"
      using 2 assms by (simp add: kbdgetc_def Let_def AND_single data_codes)
    then show ?thesis using 2 mods_release [OF k, of s] by (simp add: key_event_def mods_sel)
  next
    case 3
    let ?k = "if bit s 6 then unat d + 128 else unat d" and ?s = "if bit s 6 then s AND NOT E0ESC else s"
    let ?t = "(?s OR ucast (shiftcode ! ?k)) XOR ucast (togglecode ! ?k)"
    have k: "?k < 256" using 3 by simp
    have d: "\<not> bit (ucast d :: u32) 7" "(ucast d :: u32) \<noteq> 0xE0" using 3 by (simp_all add: data_codes)
    have e: "unat (if bit s 6 then (ucast d :: u32) OR 0x80 else ucast d) = ?k" using 3 by (simp add: data_codes)
    have "mods_of ?s = (mods_of s)\<lparr>escaped := False\<rparr>"
      by (cases "bit s 6") (simp_all add: mods_of_def bit_simps bit_codes)
    then have t: "mods_of ?t = lock ?k (hold True ?k ((mods_of s)\<lparr>escaped := False\<rparr>))"
      using mods_press [OF k, of ?s] by simp
    have "kbdgetc st d s = (int (key_char (mods_of ?t) ?k), ?t)"
      using assms d e 3 by (simp add: kbdgetc_def Let_def AND_single charcode_sel press_char CAPSLOCK_def
        key_char_def mods_sel data_codes)
    with t 3 show ?thesis by (simp add: key_event_def mods_sel Let_def)
  qed
qed

theorem kbdgetc_refines_witness:
  "(fst (kbdgetc 1 0x10 1), mods_of (snd (kbdgetc 1 0x10 1))) = key_event (unat (0x10 :: byte)) (mods_of 1)"
  by (rule kbdgetc_refines) (simp add: KBS_DIB_def)

end
