(* ===== verification/Grep.thy ===== *)
theory Grep
  imports Main
begin

text \<open>
  The \<open>grep\<close> program (\<open>grep.c\<close>): the regular-expression matcher and the loop that cuts the input
  into lines in a fixed buffer.  A pattern and a line are character lists without the terminating
  NUL, so \<open>re[0] == 0\<close> is the empty list; the buffer is a list of 1024 characters with its NULs.
  The parameter of the line loop is the list of results of the successive \<open>read\<close> calls.

  The matcher is shown to decide the language the pattern denotes; the line loop writes the matching
  lines when each read returns whole lines.
\<close>

section \<open>The matcher\<close>

function matchhere :: "string \<Rightarrow> string \<Rightarrow> bool" and matchstar :: "char \<Rightarrow> string \<Rightarrow> string \<Rightarrow> bool" where
  "matchhere re ws =
     (case re of [] \<Rightarrow> True
      | c # re' \<Rightarrow>
          (case re' of d # re'' \<Rightarrow>
              if d = CHR ''*'' then matchstar c re'' ws
              else (case ws of x # ws' \<Rightarrow> (c = CHR ''.'' \<or> c = x) \<and> matchhere re' ws' | [] \<Rightarrow> False)
           | [] \<Rightarrow>
              if c = CHR ''$'' then ws = []
              else (case ws of x # ws' \<Rightarrow> (c = CHR ''.'' \<or> c = x) \<and> matchhere re' ws' | [] \<Rightarrow> False)))"
| "matchstar c re ws =
     (if matchhere re ws then True
      else (case ws of [] \<Rightarrow> False | x # ws' \<Rightarrow> (x = c \<or> c = CHR ''.'') \<and> matchstar c re ws'))"
  by pat_completeness auto
termination
  by (relation "measure (\<lambda>x. case x of Inl (re, t) \<Rightarrow> 2 * length re + length t
                                     | Inr (c, re, t) \<Rightarrow> 2 * length re + length t + 1)") auto

fun match_from :: "string \<Rightarrow> string \<Rightarrow> bool" where
  "match_from re [] = matchhere re []"
| "match_from re (x # ws) = (if matchhere re (x # ws) then True else match_from re ws)"

definition match :: "string \<Rightarrow> string \<Rightarrow> bool" where
  "match re ws = (case re of c # re' \<Rightarrow> if c = CHR ''^'' then matchhere re' ws else match_from re ws
                             | [] \<Rightarrow> match_from re ws)"

declare matchhere.simps [simp del] matchstar.simps [simp del]

section \<open>The line loop\<close>

abbreviation NUL :: char where "NUL \<equiv> CHR 0x00"

abbreviation LF :: char where "LF \<equiv> CHR 0x0A"

fun strchr_in :: "char \<Rightarrow> nat \<Rightarrow> string \<Rightarrow> nat option" where
  "strchr_in c p [] = None"
| "strchr_in c p (x # xs) = (if x = NUL then None else if x = c then Some p else strchr_in c (Suc p) xs)"

lemma strchr_in_bounds: "strchr_in c p xs = Some q \<Longrightarrow> p \<le> q \<and> q < p + length xs"
  by (induction xs arbitrary: p) (fastforce split: if_splits)+

definition cstring_at :: "string \<Rightarrow> nat \<Rightarrow> string" where
  "cstring_at b p = takeWhile (\<lambda>x. x \<noteq> NUL) (drop p b)"

function grep_lines :: "string \<Rightarrow> string \<Rightarrow> nat \<Rightarrow> string list \<Rightarrow> string \<times> nat \<times> string list" where
  "grep_lines re b p out =
     (case strchr_in LF p (drop p b) of
        None \<Rightarrow> (b, p, out)
      | Some q \<Rightarrow>
          let b1 = b[q := NUL]
          in if match re (cstring_at b1 p)
             then let b2 = b1[q := LF] in grep_lines re b2 (q + 1) (out @ [take (q + 1 - p) (drop p b2)])
             else grep_lines re b1 (q + 1) out)"
  by pat_completeness auto
termination
  by (relation "measure (\<lambda>(re, b, p, out). length b - p)") (auto dest!: strchr_in_bounds)

definition BUFSZ :: nat where "BUFSZ = 1024"

text \<open>\<open>place b m xs\<close> is the buffer after \<open>read\<close> stored \<open>xs\<close> at offset \<open>m\<close>.\<close>

definition place :: "string \<Rightarrow> nat \<Rightarrow> string \<Rightarrow> string" where
  "place b m xs = take m b @ xs @ drop (m + length xs) b"

fun grep_loop :: "string \<Rightarrow> string list \<Rightarrow> string \<Rightarrow> nat \<Rightarrow> string list \<Rightarrow> string list" where
  "grep_loop re [] b m out = out"
| "grep_loop re (xs # reads) b m out =
     (if xs = [] then out
      else let m1 = m + length xs;
               (b1, p, out1) = grep_lines re ((place b m xs)[m1 := NUL]) 0 out;
               m2 = (if p = 0 then 0 else m1)
           in if m2 > 0 then let m3 = m2 - p in grep_loop re reads (place b1 0 (take m3 (drop p b1))) m3 out1
              else grep_loop re reads b1 m2 out1)"

definition grep :: "string \<Rightarrow> string list \<Rightarrow> string list" where
  "grep re reads = grep_loop re reads (replicate BUFSZ NUL) 0 []"

declare grep_lines.simps [simp del]

section \<open>The language of a pattern\<close>

datatype item = One char | Star char | Eol

fun items :: "string \<Rightarrow> item list" where
  "items [] = []"
| "items [c] = (if c = CHR ''$'' then [Eol] else [One c])"
| "items (c # d # re) = (if d = CHR ''*'' then Star c # items re else One c # items (d # re))"

definition covers :: "char \<Rightarrow> char \<Rightarrow> bool" where
  "covers c x \<longleftrightarrow> c = CHR ''.'' \<or> c = x"


fun lang :: "item list \<Rightarrow> string set" where
  "lang [] = {[]}"
| "lang (One c # r) = {x # w | x w. covers c x \<and> w \<in> lang r}"
| "lang (Star c # r) = {u @ w | u w. (\<forall>x \<in> set u. covers c x) \<and> w \<in> lang r}"
| "lang (Eol # r) = lang r"

text \<open>A prefix of the ws is in the language, and all of it is when the pattern ends in \<open>$\<close>.\<close>

definition prefix_in :: "item list \<Rightarrow> string \<Rightarrow> bool" where
  "prefix_in its ws \<longleftrightarrow> (\<exists>u v. ws = u @ v \<and> u \<in> lang its \<and> (Eol \<in> set its \<longrightarrow> v = []))"

lemma prefix_inI: "ws = u @ v \<Longrightarrow> u \<in> lang its \<Longrightarrow> (Eol \<in> set its \<Longrightarrow> v = []) \<Longrightarrow> prefix_in its ws"
  by (auto simp: prefix_in_def)

lemma prefix_inE:
  assumes "prefix_in its ws"
  obtains u v where "ws = u @ v" "u \<in> lang its" "Eol \<in> set its \<longrightarrow> v = []"
  using assms unfolding prefix_in_def by blast

lemma prefix_in_Nil [simp]: "prefix_in [] ws"
  by (simp add: prefix_in_def)

lemma prefix_in_Eol [simp]: "prefix_in [Eol] ws \<longleftrightarrow> ws = []"
  by (auto simp: prefix_in_def)

lemma prefix_in_One [simp]: "\<not> prefix_in (One c # r) []" "prefix_in (One c # r) (x # t) \<longleftrightarrow> covers c x \<and> prefix_in r t"
proof -
  show "\<not> prefix_in (One c # r) []" by (auto simp: prefix_in_def)
  show "prefix_in (One c # r) (x # t) \<longleftrightarrow> covers c x \<and> prefix_in r t"
  proof
    assume "prefix_in (One c # r) (x # t)"
    then obtain u v where "x # t = u @ v" "u \<in> lang (One c # r)" "Eol \<in> set r \<longrightarrow> v = []" by (elim prefix_inE) simp
    then show "covers c x \<and> prefix_in r t" by (auto intro!: prefix_inI [of t _ v r])
  next
    assume "covers c x \<and> prefix_in r t"
    then obtain u v where "covers c x" "t = u @ v" "u \<in> lang r" "Eol \<in> set r \<longrightarrow> v = []" by (elim conjE prefix_inE)
    then show "prefix_in (One c # r) (x # t)" by (intro prefix_inI [of "x # t" "x # u" v]) auto
  qed
qed

lemma prefix_in_Star:
  "prefix_in (Star c # r) [] \<longleftrightarrow> prefix_in r []"
  "prefix_in (Star c # r) (x # t) \<longleftrightarrow> prefix_in r (x # t) \<or> covers c x \<and> prefix_in (Star c # r) t"
proof -
  have star: "prefix_in (Star c # r) ws \<longleftrightarrow> (\<exists>u v. ws = u @ v \<and> (\<forall>x \<in> set u. covers c x) \<and> prefix_in r v)" for ws
  proof
    assume "prefix_in (Star c # r) ws"
    then obtain p v where "ws = p @ v" "p \<in> lang (Star c # r)" "Eol \<in> set r \<longrightarrow> v = []" by (elim prefix_inE) simp
    moreover from this(2) obtain u w where "p = u @ w" "\<forall>x \<in> set u. covers c x" "w \<in> lang r" by auto
    ultimately show "\<exists>u v. ws = u @ v \<and> (\<forall>x \<in> set u. covers c x) \<and> prefix_in r v"
      by (intro exI [of _ u] exI [of _ "w @ v"]) (auto intro!: prefix_inI [of _ w v])
  next
    assume "\<exists>u v. ws = u @ v \<and> (\<forall>x \<in> set u. covers c x) \<and> prefix_in r v"
    then obtain u w v where "ws = u @ w @ v" "\<forall>x \<in> set u. covers c x" "w \<in> lang r" "Eol \<in> set r \<longrightarrow> v = []"
      by (elim exE conjE prefix_inE) blast
    then show "prefix_in (Star c # r) ws" by (intro prefix_inI [of ws "u @ w" v]) auto
  qed
  show "prefix_in (Star c # r) [] \<longleftrightarrow> prefix_in r []" by (auto simp: star)
  show "prefix_in (Star c # r) (x # t) \<longleftrightarrow> prefix_in r (x # t) \<or> covers c x \<and> prefix_in (Star c # r) t" (is "?L \<longleftrightarrow> ?R")
  proof
    assume ?L
    then obtain u v where s: "x # t = u @ v" "\<forall>x \<in> set u. covers c x" "prefix_in r v" by (auto simp: star)
    then show ?R by (cases u) (auto simp: star)
  next
    assume ?R
    then show ?L
    proof
      assume "prefix_in r (x # t)"
      then show ?L unfolding star by (intro exI [of _ "[]"] exI [of _ "x # t"]) simp
    next
      assume "covers c x \<and> prefix_in (Star c # r) t"
      then obtain u v where "covers c x" "t = u @ v" "\<forall>x \<in> set u. covers c x" "prefix_in r v" by (auto simp: star)
      then show ?L unfolding star by (intro exI [of _ "x # u"] exI [of _ v]) simp
    qed
  qed
qed

lemma matchhere_eqs:
  "matchhere [] ws"
  "matchhere [c] [] \<longleftrightarrow> c = CHR ''$''"
  "matchhere [c] (x # ws) \<longleftrightarrow> c \<noteq> CHR ''$'' \<and> covers c x"
  "matchhere (c # CHR ''*'' # re) ws = matchstar c re ws"
  "d \<noteq> CHR ''*'' \<Longrightarrow> \<not> matchhere (c # d # re) []"
  "d \<noteq> CHR ''*'' \<Longrightarrow> matchhere (c # d # re) (x # ws) \<longleftrightarrow> covers c x \<and> matchhere (d # re) ws"
proof -
  show nil: "matchhere [] ws" for ws by (simp add: matchhere.simps)
  show "matchhere [c] (x # ws) \<longleftrightarrow> c \<noteq> CHR ''$'' \<and> covers c x"
    by (subst matchhere.simps) (simp add: nil covers_def)
qed (subst matchhere.simps, simp add: covers_def)+

lemma matchstar_eqs:
  "matchstar c re [] = matchhere re []"
  "matchstar c re (x # ws) \<longleftrightarrow> matchhere re (x # ws) \<or> covers c x \<and> matchstar c re ws"
  by (auto simp: matchstar.simps [of c re "[]"] matchstar.simps [of c re "x # ws"] covers_def)

lemma matchhere_prefix: "matchhere re ws \<longleftrightarrow> prefix_in (items re) ws"
proof (induction re arbitrary: ws rule: items.induct)
  case (2 c)
  then show ?case by (cases ws) (simp_all add: matchhere_eqs)
next
  case (3 c d re)
  show ?case
  proof (cases "d = CHR ''*''")
    case True
    have "matchstar c re ws \<longleftrightarrow> prefix_in (Star c # items re) ws"
      by (induction ws) (simp_all add: matchstar_eqs prefix_in_Star "3.IH"(1) [OF True])
    with True show ?thesis by (simp add: matchhere_eqs)
  next
    case False
    then show ?thesis by (cases ws) (simp_all add: matchhere_eqs "3.IH"(2))
  qed
qed (simp add: matchhere_eqs)

lemma match_from_suffix: "match_from re ws \<longleftrightarrow> (\<exists>u v. ws = u @ v \<and> matchhere re v)"
proof (induction ws)
  case (Cons x ws)
  have "(\<exists>u v. x # ws = u @ v \<and> matchhere re v) \<longleftrightarrow> matchhere re (x # ws) \<or> (\<exists>u v. ws = u @ v \<and> matchhere re v)"
    by (auto simp: Cons_eq_append_conv)
  then show ?case by (simp add: Cons.IH)
qed simp

text \<open>
  C32.  The matcher decides the language of the pattern: \<open>match re ws\<close> is true exactly when some
  substring of the text is in the language of the pattern's items (a literal, \<open>.\<close>, a starred
  character), the substring starting the text under a leading \<open>^\<close> and ending it under a final \<open>$\<close>.
\<close>

theorem match_correct:
  "match re ws \<longleftrightarrow>
     (let anchored = (re \<noteq> [] \<and> hd re = CHR ''^''); its = items (if anchored then tl re else re)
      in \<exists>u w v. ws = u @ w @ v \<and> w \<in> lang its \<and> (anchored \<longrightarrow> u = []) \<and> (Eol \<in> set its \<longrightarrow> v = []))"
proof (cases "re \<noteq> [] \<and> hd re = CHR ''^''")
  case True
  then obtain re' where "re = CHR ''^'' # re'" by (cases re) auto
  then show ?thesis by (simp add: match_def matchhere_prefix prefix_in_def Let_def)
next
  case False
  then have "match re ws = match_from re ws" by (cases re) (auto simp: match_def)
  with False show ?thesis by (auto simp: match_from_suffix matchhere_prefix prefix_in_def Let_def)
qed

theorem match_correct_witness:
  "match ''^ab*$'' ''abb''"
proof -
  have "''abb'' \<in> lang [One (CHR ''a''), Star (CHR ''b''), Eol]"
    by (auto simp: covers_def intro!: exI [of _ "''bb''"])
  then show ?thesis
    by (subst match_correct) (auto simp: Let_def intro!: exI [of _ "''abb''"] exI [of _ "[]"])
qed

section \<open>Lines\<close>

definition plain :: "string \<Rightarrow> bool" where
  "plain l \<longleftrightarrow> LF \<notin> set l \<and> NUL \<notin> set l"

definition joined :: "string list \<Rightarrow> string" where
  "joined ls = concat (map (\<lambda>l. l @ [LF]) ls)"

lemma joined_simps [simp]: "joined [] = []" "joined (l # ls) = l @ LF # joined ls" "joined ls = [] \<longleftrightarrow> ls = []"
  by (auto simp: joined_def)

lemma strchr_in_plain:
  assumes "plain l"
  shows "strchr_in LF p (l @ LF # r) = Some (p + length l)" "strchr_in LF p (l @ NUL # r) = None"
  using assms by (induction l arbitrary: p) (auto simp: plain_def)

lemma cstring_plain: "plain l \<Longrightarrow> cstring_at (pre @ l @ NUL # r) (length pre) = l"
  unfolding cstring_at_def plain_def by (simp, subst takeWhile_append2) auto

text \<open>The loop over the lines of the buffer.\<close>

lemma grep_lines_joined:
  assumes "\<forall>l \<in> set ls. plain l" "plain r"
  shows "\<exists>pre'. grep_lines re (pre @ joined ls @ r @ NUL # junk) (length pre) out =
     (pre' @ r @ NUL # junk, length pre', out @ map (\<lambda>l. l @ [LF]) (filter (match re) ls)) \<and>
     length pre' = length pre + length (joined ls)"
  using assms(1)
proof (induction ls arbitrary: pre out)
  case Nil
  show ?case by (subst grep_lines.simps) (simp add: strchr_in_plain(2) [OF assms(2)])
next
  case (Cons l ls)
  let ?rest = "joined ls @ r @ NUL # junk"
  let ?b = "pre @ l @ LF # ?rest" and ?q = "length pre + length l"
  from Cons.prems have l: "plain l" by simp
  have b1: "?b[?q := NUL] = pre @ l @ NUL # ?rest" by (simp add: list_update_append)
  have b2: "(pre @ l @ NUL # ?rest)[?q := LF] = ?b" by (simp add: list_update_append)
  have dr: "drop (length pre) ?b = l @ LF # ?rest" by simp
  have out: "take (?q + 1 - length pre) (l @ LF # ?rest) = l @ [LF]" by simp
  have step: "grep_lines re ?b (length pre) out =
     (if match re l then grep_lines re ?b (?q + 1) (out @ [l @ [LF]]) else grep_lines re (pre @ l @ NUL # ?rest) (?q + 1) out)"
    by (subst grep_lines.simps)
       (simp only: dr strchr_in_plain(1) [OF l] option.case Let_def b1 cstring_plain [OF l] b2 out)
  show ?case
  proof (cases "match re l")
    case True
    from Cons.IH [of "pre @ l @ [LF]" "out @ [l @ [LF]]"] Cons.prems True show ?thesis
      by (simp add: step add.assoc)
  next
    case False
    from Cons.IH [of "pre @ l @ [NUL]" out] Cons.prems False show ?thesis
      by (simp add: step add.assoc)
  qed
qed

text \<open>One iteration of the read loop: with an empty prefix, a chunk of whole lines and a rest.\<close>

lemma grep_loop_step:
  assumes "length b = BUFSZ" "\<forall>l \<in> set ls. plain l" "plain r" "joined ls @ r \<noteq> []" "length (joined ls @ r) < BUFSZ" "ls = [] \<or> r = []"
  shows "\<exists>b'. length b' = BUFSZ \<and> grep_loop re ((joined ls @ r) # reads) b 0 out =
     grep_loop re reads b' 0 (out @ map (\<lambda>l. l @ [LF]) (filter (match re) ls))"
proof -
  let ?xs = "joined ls @ r" and ?j = "drop (Suc (length (joined ls @ r))) b"
  have pl: "(place b 0 ?xs)[length ?xs := NUL] = joined ls @ r @ NUL # ?j"
  proof -
    have "drop (length ?xs) b = b ! length ?xs # ?j" using assms(1,5) by (simp add: Cons_nth_drop_Suc)
    then show ?thesis by (simp add: place_def list_update_append)
  qed
  from grep_lines_joined [OF assms(2,3), of re "[]" ?j out] obtain pre where
    g: "grep_lines re (joined ls @ r @ NUL # ?j) 0 out = (pre @ r @ NUL # ?j, length pre, out @ map (\<lambda>l. l @ [LF]) (filter (match re) ls))"
      "length pre = length (joined ls)" by auto
  have len: "length (pre @ r @ NUL # ?j) = BUFSZ" using g(2) assms(1,5) by simp
  show ?thesis
  proof (cases "ls = []")
    case True
    then show ?thesis using g len pl assms(4) by (intro exI [of _ "pre @ r @ NUL # ?j"]) (simp add: Let_def)
  next
    case False
    then have "r = []" using assms(6) by simp
    with False g len pl show ?thesis
      by (intro exI [of _ "pre @ r @ NUL # ?j"]) (simp add: Let_def place_def)
  qed
qed

lemma grep_loop_whole:
  assumes "\<forall>ls \<in> set lss. ls \<noteq> [] \<and> (\<forall>l \<in> set ls. plain l) \<and> length (joined ls) < BUFSZ" "length b = BUFSZ"
  shows "grep_loop re (map joined lss) b 0 out = out @ map (\<lambda>l. l @ [LF]) (filter (match re) (concat lss))"
  using assms
proof (induction lss arbitrary: b out)
  case (Cons ls lss)
  have p: "plain []" by (simp add: plain_def)
  from grep_loop_step [OF Cons.prems(2) _ p, of ls re "map joined lss" out] Cons.prems(1) obtain b' where
    "length b' = BUFSZ" "grep_loop re (joined ls # map joined lss) b 0 out =
       grep_loop re (map joined lss) b' 0 (out @ map (\<lambda>l. l @ [LF]) (filter (match re) ls))" by auto
  with Cons.IH [of b'] Cons.prems(1) show ?case by simp
qed simp

text \<open>
  C39.  When every \<open>read\<close> returns whole lines that fit in the buffer, \<open>grep\<close> writes exactly the lines
  the pattern matches, in order.
\<close>

theorem grep_whole_lines:
  assumes "\<forall>ls \<in> set lss. ls \<noteq> [] \<and> (\<forall>l \<in> set ls. plain l) \<and> length (joined ls) < BUFSZ"
  shows "grep re (map joined lss) = map (\<lambda>l. l @ [LF]) (filter (match re) (concat lss))"
  using grep_loop_whole [OF assms, of "replicate BUFSZ NUL" re "[]"] by (simp add: grep_def)

theorem grep_whole_lines_witness:
  "grep ''^b'' (map joined [[''ab'', ''ba''], [''b'']]) = map (\<lambda>l. l @ [LF]) (filter (match ''^b'') (concat [[''ab'', ''ba''], [''b'']]))"
  by (rule grep_whole_lines) (auto simp: plain_def BUFSZ_def)

text \<open>
  A \<open>read\<close> that returns part of a line, as one from a pipe may, loses that part: the characters
  before the line's next \<open>read\<close> are discarded and the rest is searched as a line of its own.
\<close>

theorem grep_loses_split_line:
  assumes "plain r" "r \<noteq> []" "length r < BUFSZ"
    and "\<forall>ls \<in> set lss. ls \<noteq> [] \<and> (\<forall>l \<in> set ls. plain l) \<and> length (joined ls) < BUFSZ"
  shows "grep re (r # map joined lss) = map (\<lambda>l. l @ [LF]) (filter (match re) (concat lss))"
proof -
  from grep_loop_step [of "replicate BUFSZ NUL" "[]" r re "map joined lss" "[]"] assms(1-3) obtain b where
    "length b = BUFSZ" "grep_loop re (r # map joined lss) (replicate BUFSZ NUL) 0 [] = grep_loop re (map joined lss) b 0 []"
    by auto
  with grep_loop_whole [OF assms(4), of b re "[]"] show ?thesis by (simp add: grep_def)
qed

end
