(* ===== verification/Sh.thy ===== *)
theory Sh
  imports Main
begin

text \<open>
  The command parser of the shell (\<open>sh.c\<close>).  The line is a character list without its NUL, a pointer
  into it is an offset, and the character at its end is NUL.  A call of \<open>panic\<close> is the result
  \<open>Panic\<close>.  The recursive descent of \<open>parseline\<close>, \<open>parsepipe\<close>, \<open>parseexec\<close> and \<open>parseblock\<close> takes
  fuel; the loops inside them terminate on the characters left.

  Shown: fuel linear in the length of the line is always enough, so the parser returns on every
  input; every word of the command is a maximal run of word characters of the line, and after
  \<open>nulterminate\<close> the argument pointers are exactly these words as C strings.
\<close>

section \<open>Commands and tokens\<close>

definition MAXARGS :: nat where "MAXARGS = 10"

definition O_RDONLY :: nat where "O_RDONLY = 0x000"

definition O_WRONLY :: nat where "O_WRONLY = 0x001"

definition O_CREATE :: nat where "O_CREATE = 0x200"

text \<open>A word is a pair of pointers, its start and its end.\<close>

type_synonym span = "nat \<times> nat"

datatype cmd =
    Execcmd "span list"
  | Redircmd cmd span nat nat
  | Pipecmd cmd cmd
  | Listcmd cmd cmd
  | Backcmd cmd

datatype 'a parsed = Parsed 'a nat | Panic string | NoFuel

abbreviation NULc :: char where "NULc \<equiv> CHR 0x00"

definition whitespace :: "char list" where
  "whitespace = [CHR '' '', CHR 0x09, CHR 0x0D, CHR 0x0A, CHR 0x0B]"

definition symbols :: "char list" where
  "symbols = ''<|>&;()''"

definition at_char :: "string \<Rightarrow> nat \<Rightarrow> char" where
  "at_char buf s = (if s < length buf then buf ! s else NULc)"

function skip_while :: "(char \<Rightarrow> bool) \<Rightarrow> string \<Rightarrow> nat \<Rightarrow> nat" where
  "skip_while P buf s = (if s < length buf \<and> P (buf ! s) then skip_while P buf (Suc s) else s)"
  by pat_completeness auto
termination by (relation "measure (\<lambda>(P, buf, s). length buf - s)") auto

declare skip_while.simps [simp del]

abbreviation white :: "char \<Rightarrow> bool" where "white c \<equiv> c \<in> set whitespace"

abbreviation wordch :: "char \<Rightarrow> bool" where "wordch c \<equiv> c \<notin> set whitespace \<and> c \<notin> set symbols"

text \<open>The switch of \<open>gettoken\<close> on the character at \<open>q\<close>: the token and the end of its text.\<close>

definition token_at :: "string \<Rightarrow> nat \<Rightarrow> char \<times> nat" where
  "token_at buf q =
     (let c = at_char buf q in
      if c = NULc then (c, q)
      else if c \<in> set ''|();&<'' then (c, q + 1)
      else if c = CHR ''>'' then
        (if at_char buf (q + 1) = CHR ''>'' then (CHR ''+'', q + 2) else (c, q + 1))
      else (CHR ''a'', skip_while wordch buf q))"

text \<open>\<open>gettoken\<close> returns the token, the start and end of its text and the new position.\<close>

definition gettoken :: "string \<Rightarrow> nat \<Rightarrow> char \<times> span \<times> nat" where
  "gettoken buf ps =
     (let q = skip_while white buf ps; (ret, eq) = token_at buf q
      in (ret, (q, eq), skip_while white buf eq))"

definition peek :: "string \<Rightarrow> nat \<Rightarrow> string \<Rightarrow> bool \<times> nat" where
  "peek buf ps toks =
     (let s = skip_while white buf ps; c = at_char buf s in (c \<noteq> NULc \<and> c \<in> set toks, s))"

section \<open>Progress of the scanner\<close>

lemma skip_while_bounds: "s \<le> skip_while P buf s \<and> (s \<le> length buf \<longrightarrow> skip_while P buf s \<le> length buf)"
proof (induction P buf s rule: skip_while.induct)
  case (1 P buf s)
  then show ?case by (subst (1 2) skip_while.simps) auto
qed

lemma skip_while_stop: "skip_while P buf s < length buf \<Longrightarrow> \<not> P (buf ! skip_while P buf s)"
proof (induction P buf s rule: skip_while.induct)
  case (1 P buf s)
  then show ?case
    by (cases "s < length buf \<and> P (buf ! s)") (auto simp: skip_while.simps [of P buf s])
qed

lemma skip_while_all: "s \<le> i \<Longrightarrow> i < skip_while P buf s \<Longrightarrow> i < length buf \<and> P (buf ! i)"
proof (induction P buf s rule: skip_while.induct)
  case (1 P buf s)
  then show ?case
    by (cases "i = s") (auto simp: skip_while.simps [of P buf s] split: if_splits)
qed

lemma skip_while_Suc: "s < length buf \<Longrightarrow> P (buf ! s) \<Longrightarrow> s < skip_while P buf s"
  using skip_while_bounds [of "Suc s" P buf] by (subst skip_while.simps) auto

lemma skip_while_id: "\<not> (s < length buf \<and> P (buf ! s)) \<Longrightarrow> skip_while P buf s = s"
  by (subst skip_while.simps) auto

lemma skip_while_idem [simp]: "skip_while P buf (skip_while P buf s) = skip_while P buf s"
  by (rule skip_while_id) (use skip_while_stop in blast)

text \<open>A word: a maximal run of word characters.\<close>

definition is_word :: "string \<Rightarrow> span \<Rightarrow> bool" where
  "is_word buf w \<longleftrightarrow> fst w < snd w \<and> snd w \<le> length buf \<and> (\<forall>i. fst w \<le> i \<and> i < snd w \<longrightarrow> wordch (buf ! i)) \<and>
     (snd w < length buf \<longrightarrow> \<not> wordch (buf ! snd w))"

lemma at_char_NUL: "NULc \<notin> set buf \<Longrightarrow> at_char buf q = NULc \<longleftrightarrow> length buf \<le> q"
  by (auto simp: at_char_def in_set_conv_nth)

lemma at_char_less: "at_char buf q \<noteq> NULc \<Longrightarrow> q < length buf"
  by (auto simp: at_char_def split: if_splits)

lemma token_at_bounds:
  assumes "token_at buf q = (t, e)" "q \<le> length buf" "q < length buf \<longrightarrow> \<not> white (buf ! q)"
  shows "q \<le> e \<and> e \<le> length buf \<and> (t \<noteq> NULc \<longrightarrow> q < e) \<and> (t = CHR ''a'' \<longrightarrow> is_word buf (q, e))"
proof -
  let ?c = "at_char buf q"
  consider "?c = NULc" | "?c \<in> set ''|();&<''" | "?c = CHR ''>''" | "?c \<noteq> NULc" "?c \<notin> set ''|();&<''" "?c \<noteq> CHR ''>''" by blast
  then show ?thesis
  proof cases
    case 1
    then show ?thesis using assms(1,2) by (auto simp: token_at_def Let_def)
  next
    case 2
    moreover from this have "?c \<noteq> NULc" "?c \<noteq> CHR ''a''" by auto
    moreover from this have "q < length buf" using at_char_less by blast
    ultimately show ?thesis using assms(1) by (auto simp: token_at_def Let_def)
  next
    case 3
    then have "q < length buf" using at_char_less [of buf q] by simp
    moreover have "Suc q < length buf" if "at_char buf (Suc q) = CHR ''>''" using that at_char_less [of buf "Suc q"] by simp
    ultimately show ?thesis using assms(1) 3 by (auto simp: token_at_def Let_def split: if_splits)
  next
    case 4
    then have l: "q < length buf" using at_char_less by blast
    with 4 assms(3) have w: "wordch (buf ! q)" by (auto simp: at_char_def symbols_def)
    have t: "t = CHR ''a''" "e = skip_while wordch buf q" using assms(1) 4 by (auto simp: token_at_def Let_def)
    have 1: "q < skip_while wordch buf q" "skip_while wordch buf q \<le> length buf"
      using skip_while_Suc [of q buf wordch] l w skip_while_bounds [of q wordch buf] by simp_all
    have 2: "\<forall>i. q \<le> i \<and> i < skip_while wordch buf q \<longrightarrow> wordch (buf ! i)" using skip_while_all by blast
    have 3: "skip_while wordch buf q < length buf \<longrightarrow> \<not> wordch (buf ! skip_while wordch buf q)"
      using skip_while_stop by blast
    show ?thesis unfolding t is_word_def fst_conv snd_conv using 1 2 3 by (simp add: less_imp_le)
  qed
qed

lemma gettoken_bounds:
  assumes "gettoken buf s = (t, w, s')" "s \<le> length buf"
  shows "s \<le> s'" "s' \<le> length buf" "t \<noteq> NULc \<Longrightarrow> s < s'" "t = CHR ''a'' \<Longrightarrow> is_word buf w"
proof -
  let ?q = "skip_while white buf s"
  obtain e where e: "token_at buf ?q = (t, e)" "w = (?q, e)" "s' = skip_while white buf e"
    using assms(1) by (auto simp: gettoken_def Let_def split: prod.splits)
  have q: "s \<le> ?q" "?q \<le> length buf" using skip_while_bounds [of s white buf] assms(2) by auto
  note b = token_at_bounds [OF e(1) q(2)] skip_while_stop [of white buf s]
  show "s \<le> s'" "s' \<le> length buf" "t \<noteq> NULc \<Longrightarrow> s < s'" "t = CHR ''a'' \<Longrightarrow> is_word buf w"
    using b q skip_while_bounds [of e white buf] unfolding e(2,3) by auto
qed

lemma peek_bounds:
  assumes "peek buf s toks = (b, s')" "s \<le> length buf"
  shows "s \<le> s'" "s' \<le> length buf" "b \<Longrightarrow> s' < length buf"
  using assms skip_while_bounds [of s white buf] at_char_less [of buf s'] by (auto simp: peek_def Let_def)

text \<open>After a successful \<open>peek\<close> of a symbol, \<open>gettoken\<close> consumes it.\<close>

lemma peek_gettoken:
  assumes "peek buf s toks = (True, s1)" "gettoken buf s1 = (t, w, s2)" "set toks \<subseteq> set symbols"
  shows "t \<noteq> NULc \<and> s \<le> s1 \<and> s1 < s2 \<and> s2 \<le> length buf"
proof -
  have s1: "s1 = skip_while white buf s" "at_char buf s1 \<in> set symbols" "at_char buf s1 \<noteq> NULc"
    using assms by (auto simp: peek_def Let_def)
  moreover from this(3) have "s1 < length buf" using at_char_less by blast
  ultimately have "s \<le> s1" "s1 \<le> length buf" using skip_while_bounds [of s white buf] by auto
  have "t \<noteq> NULc"
    using assms(2) s1(2,3) unfolding gettoken_def Let_def s1(1)
    by (auto simp: token_at_def Let_def split: prod.splits if_splits)
  with gettoken_bounds [OF assms(2) \<open>s1 \<le> length buf\<close>] \<open>s \<le> s1\<close> show ?thesis by simp
qed

section \<open>The parser\<close>

definition bindP :: "'a parsed \<Rightarrow> ('a \<Rightarrow> nat \<Rightarrow> 'b parsed) \<Rightarrow> 'b parsed" where
  "bindP r f = (case r of Parsed a s \<Rightarrow> f a s | Panic e \<Rightarrow> Panic e | NoFuel \<Rightarrow> NoFuel)"

lemma bindP_simps [simp]:
  "bindP (Parsed a s) f = f a s" "bindP (Panic e) f = Panic e" "bindP NoFuel f = NoFuel"
  by (simp_all add: bindP_def)

function parseredirs :: "string \<Rightarrow> cmd \<Rightarrow> nat \<Rightarrow> cmd parsed" where
  "parseredirs buf cmd s =
     (case peek buf s ''<>'' of (more, s1) \<Rightarrow>
      if \<not> more then Parsed cmd s1
      else case gettoken buf s1 of (tok, _, s2) \<Rightarrow>
      case gettoken buf s2 of (t, w, s3) \<Rightarrow>
      if t \<noteq> CHR ''a'' then Panic ''missing file for redirection''
      else parseredirs buf
        (if tok = CHR ''<'' then Redircmd cmd w O_RDONLY 0
         else if tok = CHR ''>'' then Redircmd cmd w (or O_WRONLY O_CREATE) 1
         else if tok = CHR ''+'' then Redircmd cmd w (or O_WRONLY O_CREATE) 1
         else cmd) s3)"
  by pat_completeness auto
termination
proof (relation "measure (\<lambda>(buf, cmd, s). length buf - s)")
  fix buf :: string and cmd s and more :: bool and s1 tok x w0 s2 t y w s3
  assume a: "(more, s1) = peek buf s ''<>''" "\<not> \<not> more" "(tok, x) = gettoken buf s1" "(w0, s2) = x"
    "(t, y) = gettoken buf s2" "(w, s3) = y" "\<not> t \<noteq> CHR ''a''"
  from a have p: "peek buf s ''<>'' = (True, s1)" "gettoken buf s1 = (tok, w0, s2)" "gettoken buf s2 = (t, w, s3)" by auto
  have "s \<le> s1 \<and> s1 < s2 \<and> s2 \<le> length buf" using peek_gettoken [OF p(1,2)] by (simp add: symbols_def)
  with gettoken_bounds(1,2) [OF p(3)] show "((buf, if tok = CHR ''<'' then Redircmd cmd w O_RDONLY 0
      else if tok = CHR ''>'' then Redircmd cmd w (or O_WRONLY O_CREATE) 1
      else if tok = CHR ''+'' then Redircmd cmd w (or O_WRONLY O_CREATE) 1 else cmd, s3), buf, cmd, s)
    \<in> measure (\<lambda>(buf, cmd, s). length buf - s)" by auto
qed simp

text \<open>
  The arguments are stored in the \<open>execcmd\<close> that the redirections around it share: \<open>cmd->argv[argc] = q\<close>
  changes it inside \<open>ret\<close>.
\<close>

fun add_arg :: "span \<Rightarrow> cmd \<Rightarrow> cmd" where
  "add_arg w (Execcmd ws) = Execcmd (ws @ [w])"
| "add_arg w (Redircmd c f m d) = Redircmd (add_arg w c) f m d"
| "add_arg w c = c"

function parseargs :: "string \<Rightarrow> cmd \<Rightarrow> nat \<Rightarrow> nat \<Rightarrow> cmd parsed" where
  "parseargs buf ret argc s =
     (case peek buf s ''|)&;'' of (stop, s1) \<Rightarrow>
      if stop then Parsed ret s1
      else case gettoken buf s1 of (tok, w, s2) \<Rightarrow>
      if tok = NULc then Parsed ret s2
      else if tok \<noteq> CHR ''a'' then Panic ''syntax''
      else if argc + 1 \<ge> MAXARGS then Panic ''too many args''
      else bindP (parseredirs buf (add_arg w ret) s2) (\<lambda>ret s3. parseargs buf ret (argc + 1) s3))"
  by pat_completeness auto
termination
  by (relation "measure (\<lambda>(buf, ret, argc, s). MAXARGS - argc)") auto

function parsebacks :: "string \<Rightarrow> cmd \<Rightarrow> nat \<Rightarrow> cmd \<times> nat" where
  "parsebacks buf cmd s =
     (case peek buf s ''&'' of (more, s1) \<Rightarrow>
      if \<not> more then (cmd, s1)
      else case gettoken buf s1 of (_, _, s2) \<Rightarrow> parsebacks buf (Backcmd cmd) s2)"
  by pat_completeness auto
termination
proof (relation "measure (\<lambda>(buf, cmd, s). length buf - s)")
  fix buf :: string and cmd s and more :: bool and s1 tok x w s2
  assume a: "(more, s1) = peek buf s ''&''" "\<not> \<not> more" "(tok, x) = gettoken buf s1" "(w, s2) = x"
  then have "peek buf s ''&'' = (True, s1)" "gettoken buf s1 = (tok, w, s2)" by auto
  from peek_gettoken [OF this] show "((buf, Backcmd cmd, s2), buf, cmd, s) \<in> measure (\<lambda>(buf, cmd, s). length buf - s)"
    by (auto simp: symbols_def)
qed simp

declare parseredirs.simps [simp del] parseargs.simps [simp del] parsebacks.simps [simp del]

fun parseline :: "nat \<Rightarrow> string \<Rightarrow> nat \<Rightarrow> cmd parsed"
  and parsepipe :: "nat \<Rightarrow> string \<Rightarrow> nat \<Rightarrow> cmd parsed"
  and parseexec :: "nat \<Rightarrow> string \<Rightarrow> nat \<Rightarrow> cmd parsed"
  and parseblock :: "nat \<Rightarrow> string \<Rightarrow> nat \<Rightarrow> cmd parsed" where
  "parseline 0 buf s = NoFuel"
| "parseline (Suc n) buf s =
     bindP (parsepipe n buf s) (\<lambda>cmd s1.
     case parsebacks buf cmd s1 of (cmd, s2) \<Rightarrow>
     case peek buf s2 '';'' of (more, s3) \<Rightarrow>
     if more then
       case gettoken buf s3 of (_, _, s4) \<Rightarrow>
       bindP (parseline n buf s4) (\<lambda>right s5. Parsed (Listcmd cmd right) s5)
     else Parsed cmd s3)"
| "parsepipe 0 buf s = NoFuel"
| "parsepipe (Suc n) buf s =
     bindP (parseexec n buf s) (\<lambda>cmd s1.
     case peek buf s1 ''|'' of (more, s2) \<Rightarrow>
     if more then
       case gettoken buf s2 of (_, _, s3) \<Rightarrow>
       bindP (parsepipe n buf s3) (\<lambda>right s4. Parsed (Pipecmd cmd right) s4)
     else Parsed cmd s2)"
| "parseexec 0 buf s = NoFuel"
| "parseexec (Suc n) buf s =
     (case peek buf s ''('' of (blk, s1) \<Rightarrow>
      if blk then parseblock n buf s1
      else bindP (parseredirs buf (Execcmd []) s1) (\<lambda>ret s2. parseargs buf ret 0 s2))"
| "parseblock 0 buf s = NoFuel"
| "parseblock (Suc n) buf s =
     (case peek buf s ''('' of (blk, s1) \<Rightarrow>
      if \<not> blk then Panic ''parseblock''
      else case gettoken buf s1 of (_, _, s2) \<Rightarrow>
      bindP (parseline n buf s2) (\<lambda>cmd s3.
      case peek buf s3 '')'' of (close, s4) \<Rightarrow>
      if \<not> close then Panic ''syntax - missing )''
      else case gettoken buf s4 of (_, _, s5) \<Rightarrow> parseredirs buf cmd s5))"

text \<open>\<open>nulterminate\<close> writes a NUL at the end of every word.\<close>

fun nulterminate :: "cmd \<Rightarrow> string \<Rightarrow> string" where
  "nulterminate (Execcmd ws) b = foldl (\<lambda>b w. b[snd w := NULc]) b ws"
| "nulterminate (Redircmd c f m d) b = (nulterminate c b)[snd f := NULc]"
| "nulterminate (Pipecmd l r) b = nulterminate r (nulterminate l b)"
| "nulterminate (Listcmd l r) b = nulterminate r (nulterminate l b)"
| "nulterminate (Backcmd c) b = nulterminate c b"

text \<open>The result of \<open>parsecmd\<close> is the command and the buffer, with its terminating NUL, after the call.\<close>

definition parse_fuel :: "string \<Rightarrow> nat" where
  "parse_fuel buf = 4 * length buf + 4"

definition parsecmd :: "string \<Rightarrow> (cmd \<times> string) parsed" where
  "parsecmd buf =
     bindP (parseline (parse_fuel buf) buf 0) (\<lambda>cmd s.
     case peek buf s [] of (_, s1) \<Rightarrow>
     if s1 \<noteq> length buf then Panic ''syntax''
     else Parsed (cmd, nulterminate cmd (buf @ [NULc])) s1)"

section \<open>Progress and words\<close>

fun spans :: "cmd \<Rightarrow> span list" where
  "spans (Execcmd ws) = ws"
| "spans (Redircmd c f m d) = spans c @ [f]"
| "spans (Pipecmd l r) = spans l @ spans r"
| "spans (Listcmd l r) = spans l @ spans r"
| "spans (Backcmd c) = spans c"

definition words_ok :: "string \<Rightarrow> cmd \<Rightarrow> bool" where
  "words_ok buf c \<longleftrightarrow> (\<forall>w \<in> set (spans c). is_word buf w)"

lemma words_ok_simps [simp]:
  "words_ok buf (Execcmd []) = True"
  "words_ok buf (Redircmd c f m d) \<longleftrightarrow> words_ok buf c \<and> is_word buf f"
  "words_ok buf (Pipecmd l r) \<longleftrightarrow> words_ok buf l \<and> words_ok buf r"
  "words_ok buf (Listcmd l r) \<longleftrightarrow> words_ok buf l \<and> words_ok buf r"
  "words_ok buf (Backcmd c) = words_ok buf c"
  by (auto simp: words_ok_def)

lemma words_ok_add_arg [simp]: "words_ok buf c \<Longrightarrow> is_word buf w \<Longrightarrow> words_ok buf (add_arg w c)"
  by (induction w c rule: add_arg.induct) (auto simp: words_ok_def)

text \<open>A result that is not the lack of fuel, and when it is a command advances and holds words.\<close>

definition advances :: "string \<Rightarrow> nat \<Rightarrow> cmd parsed \<Rightarrow> bool" where
  "advances buf s r \<longleftrightarrow> r \<noteq> NoFuel \<and> (\<forall>c s'. r = Parsed c s' \<longrightarrow> s \<le> s' \<and> s' \<le> length buf \<and> words_ok buf c)"

lemma advances_simps [simp]:
  "advances buf s (Panic e)" "\<not> advances buf s NoFuel"
  "advances buf s (Parsed c s') \<longleftrightarrow> s \<le> s' \<and> s' \<le> length buf \<and> words_ok buf c"
  by (auto simp: advances_def)

lemma advances_bindP:
  assumes "advances buf s r" "\<And>c s'. s \<le> s' \<Longrightarrow> s' \<le> length buf \<Longrightarrow> words_ok buf c \<Longrightarrow> advances buf s (f c s')"
  shows "advances buf s (bindP r f)"
  using assms by (cases r) auto

lemma advances_mono: "advances buf s' r \<Longrightarrow> s \<le> s' \<Longrightarrow> advances buf s r"
  by (cases r) auto

lemma parseredirs_advances: "s \<le> length buf \<Longrightarrow> words_ok buf c \<Longrightarrow> advances buf s (parseredirs buf c s)"
proof (induction buf c s rule: parseredirs.induct)
  case (1 buf c s)
  obtain more s1 where p: "peek buf s ''<>'' = (more, s1)" by fastforce
  obtain tok w0 s2 where t1: "gettoken buf s1 = (tok, w0, s2)" by (metis prod_cases3)
  obtain t w s3 where t2: "gettoken buf s2 = (t, w, s3)" by (metis prod_cases3)
  show ?case
  proof (cases "more \<and> t = CHR ''a''")
    case True
    then have "peek buf s ''<>'' = (True, s1)" using p by simp
    note b = peek_gettoken [OF this t1]
    then have s2: "s2 \<le> length buf" "s \<le> s2" by (auto simp: symbols_def)
    note g = gettoken_bounds [OF t2 s2(1)]
    have w: "is_word buf w" "s \<le> s3" using g True s2 by auto
    let ?c = "if tok = CHR ''<'' then Redircmd c w O_RDONLY 0 else if tok = CHR ''>'' then Redircmd c w (or O_WRONLY O_CREATE) 1
      else if tok = CHR ''+'' then Redircmd c w (or O_WRONLY O_CREATE) 1 else c"
    have "advances buf s3 (parseredirs buf ?c s3)"
      by (rule "1.IH" [OF p [symmetric] _ t1 [symmetric] refl t2 [symmetric] refl]) (use True g w "1.prems" in simp_all)
    from advances_mono [OF this w(2)] show ?thesis using True p t1 t2 by (subst parseredirs.simps) simp
  next
    case False
    then show ?thesis using p t1 t2 peek_bounds [OF p] "1.prems" by (subst parseredirs.simps) auto
  qed
qed

lemma parseargs_advances: "s \<le> length buf \<Longrightarrow> words_ok buf c \<Longrightarrow> advances buf s (parseargs buf c n s)"
proof (induction "MAXARGS - n" arbitrary: c n s rule: less_induct)
  case less
  obtain stop s1 where p: "peek buf s ''|)&;'' = (stop, s1)" by fastforce
  obtain t w s2 where g: "gettoken buf s1 = (t, w, s2)" by (metis prod_cases3)
  note pb = peek_bounds [OF p less.prems(1)]
  note gb = gettoken_bounds [OF g pb(2)]
  have "advances buf s (bindP (parseredirs buf (add_arg w c) s2) (\<lambda>ret s3. parseargs buf ret (n + 1) s3))"
    if "t = CHR ''a''" "n + 1 < MAXARGS"
  proof (rule advances_bindP)
    have "advances buf s2 (parseredirs buf (add_arg w c) s2)"
      using parseredirs_advances [of s2 buf "add_arg w c"] gb that less.prems(2) by simp
    then show "advances buf s (parseredirs buf (add_arg w c) s2)" by (rule advances_mono) (use gb pb in simp)
    show "advances buf s (parseargs buf c' (n + 1) s')" if "s \<le> s'" "s' \<le> length buf" "words_ok buf c'" for c' s'
      by (rule advances_mono [OF less.hyps that(1)]) (use that \<open>n + 1 < MAXARGS\<close> in simp_all)
  qed
  then show ?case using p g pb gb less.prems by (subst parseargs.simps) auto
qed

lemma parsebacks_advances:
  "s \<le> length buf \<Longrightarrow> words_ok buf c \<Longrightarrow> parsebacks buf c s = (c', s') \<Longrightarrow> s \<le> s' \<and> s' \<le> length buf \<and> words_ok buf c'"
proof (induction buf c s rule: parsebacks.induct)
  case (1 buf c s)
  obtain more s1 where p: "peek buf s ''&'' = (more, s1)" by fastforce
  obtain t w s2 where g: "gettoken buf s1 = (t, w, s2)" by (metis prod_cases3)
  show ?case
  proof (cases more)
    case True
    then have "peek buf s ''&'' = (True, s1)" using p by simp
    from peek_gettoken [OF this g] have b: "s2 \<le> length buf" "s \<le> s2" by (auto simp: symbols_def)
    have "parsebacks buf (Backcmd c) s2 = (c', s')" using "1.prems"(3) p g True by (simp add: parsebacks.simps [of buf c s])
    with "1.IH" [OF p [symmetric] _ g [symmetric] refl] True b "1.prems"(2) show ?thesis by auto
  next
    case False
    then show ?thesis using "1.prems" p peek_bounds [OF p] by (simp add: parsebacks.simps [of buf c s])
  qed
qed

lemma symbol_advances:
  assumes "peek buf s toks = (True, s1)" "gettoken buf s1 = (t, w, s2)" "set toks \<subseteq> set symbols"
  shows "s < s2" "s2 \<le> length buf"
  using peek_gettoken [OF assms] by auto

text \<open>One level of the descent.\<close>

lemma parseline_step:
  assumes "advances buf s (parsepipe n buf s)" "\<And>s'. s < s' \<Longrightarrow> s' \<le> length buf \<Longrightarrow> advances buf s' (parseline n buf s')"
  shows "advances buf s (parseline (Suc n) buf s)"
  unfolding parseline.simps
proof (rule advances_bindP [OF assms(1)])
  fix c s1 assume c: "s \<le> s1" "s1 \<le> length buf" "words_ok buf c"
  obtain c' s2 where b: "parsebacks buf c s1 = (c', s2)" by fastforce
  note b' = parsebacks_advances [OF c(2,3) b]
  obtain more s3 where p: "peek buf s2 '';'' = (more, s3)" by fastforce
  obtain t w s4 where g: "gettoken buf s3 = (t, w, s4)" by (metis prod_cases3)
  have "advances buf s (bindP (parseline n buf s4) (\<lambda>right s5. Parsed (Listcmd c' right) s5))" if more
  proof (rule advances_bindP)
    from p that have "peek buf s2 '';'' = (True, s3)" by simp
    from symbol_advances [OF this g] b' c(1) have l: "s < s4" "s4 \<le> length buf" by (auto simp: symbols_def)
    show "advances buf s (parseline n buf s4)" by (rule advances_mono [OF assms(2) [OF l]]) (use l in simp)
  qed (use b' in simp)
  then show "advances buf s (case parsebacks buf c s1 of (cmd, s2) \<Rightarrow> case peek buf s2 '';'' of (more, s3) \<Rightarrow>
     if more then case gettoken buf s3 of (_, _, s4) \<Rightarrow> bindP (parseline n buf s4) (\<lambda>right s5. Parsed (Listcmd cmd right) s5)
     else Parsed cmd s3)" using b b' c(1) p g peek_bounds [OF p] by auto
qed

lemma parsepipe_step:
  assumes "advances buf s (parseexec n buf s)" "\<And>s'. s < s' \<Longrightarrow> s' \<le> length buf \<Longrightarrow> advances buf s' (parsepipe n buf s')"
  shows "advances buf s (parsepipe (Suc n) buf s)"
  unfolding parsepipe.simps
proof (rule advances_bindP [OF assms(1)])
  fix c s1 assume c: "s \<le> s1" "s1 \<le> length buf" "words_ok buf c"
  obtain more s2 where p: "peek buf s1 ''|'' = (more, s2)" by fastforce
  obtain t w s3 where g: "gettoken buf s2 = (t, w, s3)" by (metis prod_cases3)
  have "advances buf s (bindP (parsepipe n buf s3) (\<lambda>right s4. Parsed (Pipecmd c right) s4))" if more
  proof (rule advances_bindP)
    from p that have "peek buf s1 ''|'' = (True, s2)" by simp
    from symbol_advances [OF this g] c(1) have l: "s < s3" "s3 \<le> length buf" by (auto simp: symbols_def)
    show "advances buf s (parsepipe n buf s3)" by (rule advances_mono [OF assms(2) [OF l]]) (use l in simp)
  qed (use c in simp)
  then show "advances buf s (case peek buf s1 ''|'' of (more, s2) \<Rightarrow>
     if more then case gettoken buf s2 of (_, _, s3) \<Rightarrow> bindP (parsepipe n buf s3) (\<lambda>right s4. Parsed (Pipecmd c right) s4)
     else Parsed c s2)" using c p g peek_bounds [OF p] by auto
qed

lemma parseexec_step:
  assumes "s \<le> length buf" "\<And>s'. s \<le> s' \<Longrightarrow> s' \<le> length buf \<Longrightarrow> advances buf s' (parseblock n buf s')"
  shows "advances buf s (parseexec (Suc n) buf s)"
proof -
  obtain b s1 where p: "peek buf s ''('' = (b, s1)" by fastforce
  note pb = peek_bounds [OF p assms(1)]
  have "advances buf s (bindP (parseredirs buf (Execcmd []) s1) (\<lambda>ret s2. parseargs buf ret 0 s2))"
  proof (rule advances_bindP)
    show "advances buf s (parseredirs buf (Execcmd []) s1)"
      by (rule advances_mono [OF parseredirs_advances]) (use pb in simp_all)
    show "advances buf s (parseargs buf c 0 s')" if "s \<le> s'" "s' \<le> length buf" "words_ok buf c" for c s'
      by (rule advances_mono [OF parseargs_advances]) (use that in simp_all)
  qed
  moreover have "advances buf s (parseblock n buf s1)" by (rule advances_mono [OF assms(2)]) (use pb in simp_all)
  ultimately show ?thesis using p by simp
qed

lemma parseblock_step:
  assumes "\<And>s'. s < s' \<Longrightarrow> s' \<le> length buf \<Longrightarrow> advances buf s' (parseline n buf s')"
  shows "advances buf s (parseblock (Suc n) buf s)"
proof -
  obtain b s1 where p: "peek buf s ''('' = (b, s1)" by fastforce
  obtain t w s2 where g: "gettoken buf s1 = (t, w, s2)" by (metis prod_cases3)
  have "advances buf s (bindP (parseline n buf s2) (\<lambda>cmd s3. case peek buf s3 '')'' of (close, s4) \<Rightarrow>
      if \<not> close then Panic ''syntax - missing )'' else case gettoken buf s4 of (_, _, s5) \<Rightarrow> parseredirs buf cmd s5))" if b
  proof (rule advances_bindP)
    from p that have "peek buf s ''('' = (True, s1)" by simp
    from symbol_advances [OF this g] have l: "s < s2" "s2 \<le> length buf" by (auto simp: symbols_def)
    show "advances buf s (parseline n buf s2)" by (rule advances_mono [OF assms [OF l]]) (use l in simp)
    fix c s3 assume c: "s \<le> s3" "s3 \<le> length buf" "words_ok buf c"
    obtain d s4 where p2: "peek buf s3 '')'' = (d, s4)" by fastforce
    obtain t2 w2 s5 where g2: "gettoken buf s4 = (t2, w2, s5)" by (metis prod_cases3)
    have "advances buf s (parseredirs buf c s5)" if d
    proof -
      from p2 that have "peek buf s3 '')'' = (True, s4)" by simp
      from symbol_advances [OF this g2] c(1) have l2: "s \<le> s5" "s5 \<le> length buf" by (auto simp: symbols_def)
      show ?thesis by (rule advances_mono [OF parseredirs_advances [OF l2(2) c(3)] l2(1)])
    qed
    then show "advances buf s (case peek buf s3 '')'' of (close, s4) \<Rightarrow>
      if \<not> close then Panic ''syntax - missing )'' else case gettoken buf s4 of (_, _, s5) \<Rightarrow> parseredirs buf c s5)"
      using p2 g2 by simp
  qed
  then show ?thesis using p g by simp
qed

lemma parser_advances:
  assumes "s \<le> length buf"
  shows "4 * (length buf - s) + 4 \<le> n \<Longrightarrow> advances buf s (parseline n buf s)"
    and "4 * (length buf - s) + 3 \<le> n \<Longrightarrow> advances buf s (parsepipe n buf s)"
    and "4 * (length buf - s) + 2 \<le> n \<Longrightarrow> advances buf s (parseexec n buf s)"
    and "4 * (length buf - s) + 1 \<le> n \<Longrightarrow> advances buf s (parseblock n buf s)"
  using assms
proof (induction n arbitrary: s)
  case (Suc n)
  have less: "4 * (length buf - s') + 4 \<le> n" if "4 * (length buf - s) + 1 \<le> Suc n" "s < s'" "s' \<le> length buf" for s s'
    using that by auto
  { case 1 show ?case by (rule parseline_step) (use 1 less [of s] in \<open>auto intro: Suc.IH(1,2)\<close>) }
  { case 2 show ?case by (rule parsepipe_step) (use 2 less [of s] in \<open>auto intro: Suc.IH(2,3)\<close>) }
  { case 3 show ?case by (rule parseexec_step) (use 3 in \<open>auto intro!: Suc.IH(4)\<close>) }
  { case 4 show ?case by (rule parseblock_step) (use 4 less [of s] in \<open>auto intro: Suc.IH(1)\<close>) }
qed simp_all

text \<open>
  C30.  The parser returns on every line: recursion as deep as four times the number of characters
  left plus four is never exceeded, so \<open>parsecmd\<close> ends with a command or with a syntax error.
\<close>

theorem parsecmd_returns:
  "parsecmd buf \<noteq> NoFuel"
proof -
  have "advances buf 0 (parseline (parse_fuel buf) buf 0)" using parser_advances(1) [of 0 buf] by (simp add: parse_fuel_def)
  then show ?thesis by (cases "parseline (parse_fuel buf) buf 0") (auto simp: parsecmd_def split: prod.splits)
qed

lemma nulterminate_foldl: "nulterminate c b = foldl (\<lambda>b w. b[snd w := NULc]) b (spans c)"
  by (induction c b rule: nulterminate.induct) simp_all

lemma nul_writes:
  "length (foldl (\<lambda>b w. b[snd w := NULc]) b ws) = length b \<and>
   (\<forall>i < length b. foldl (\<lambda>b w. b[snd w := NULc]) b ws ! i = (if \<exists>w \<in> set ws. snd w = i then NULc else b ! i))"
  by (induction ws arbitrary: b) (auto simp: nth_list_update)

text \<open>The C string at an offset of the buffer, and a slice of the line.\<close>

definition cstring :: "string \<Rightarrow> nat \<Rightarrow> string" where
  "cstring b q = takeWhile (\<lambda>c. c \<noteq> NULc) (drop q b)"

definition slice :: "string \<Rightarrow> span \<Rightarrow> string" where
  "slice b w = take (snd w - fst w) (drop (fst w) b)"

lemma takeWhile_slice:
  assumes "q \<le> e" "e < length b" "\<forall>i. q \<le> i \<and> i < e \<longrightarrow> P (b ! i)" "\<not> P (b ! e)"
  shows "takeWhile P (drop q b) = take (e - q) (drop q b)"
proof -
  have "drop q b = take (e - q) (drop q b) @ drop e b" using assms(1) by (metis append_take_drop_id drop_drop le_add_diff_inverse2)
  moreover have "drop e b = b ! e # drop (Suc e) b" using assms(2) by (simp add: Cons_nth_drop_Suc)
  moreover have "\<forall>x \<in> set (take (e - q) (drop q b)). P x" using assms(2,3) by (auto simp: in_set_conv_nth)
  ultimately show ?thesis using assms(4) by (metis takeWhile.simps(2) takeWhile_append2 append_Nil2)
qed

lemma nulterminate_words:
  assumes "words_ok buf c" "NULc \<notin> set buf" "w \<in> set (spans c)"
  shows "cstring (nulterminate c (buf @ [NULc])) (fst w) = slice buf w"
proof -
  let ?b = "nulterminate c (buf @ [NULc])"
  obtain q e where w: "w = (q, e)" by (cases w)
  from assms(1,3) w have W: "q < e" "e \<le> length buf" "\<forall>i. q \<le> i \<and> i < e \<longrightarrow> wordch (buf ! i)"
    by (auto simp: words_ok_def is_word_def)
  note nth = nul_writes [of "buf @ [NULc]" "spans c"]
  have len: "length ?b = Suc (length buf)" using nth by (simp add: nulterminate_foldl)
  have in_word: "?b ! i = buf ! i \<and> ?b ! i \<noteq> NULc" if "q \<le> i" "i < e" for i
  proof -
    have il: "i < length buf" using that W(2) by simp
    have "\<not> (\<exists>v \<in> set (spans c). snd v = i)"
    proof
      assume "\<exists>v \<in> set (spans c). snd v = i"
      then have "\<not> wordch (buf ! i)" using assms(1) il unfolding words_ok_def is_word_def by auto
      with W(3) that show False by blast
    qed
    then have "?b ! i = buf ! i" using nth il by (simp add: nulterminate_foldl nth_append)
    moreover have "buf ! i \<noteq> NULc" using assms(2) il by (auto simp: in_set_conv_nth)
    ultimately show ?thesis by simp
  qed
  have nn: "\<forall>i. q \<le> i \<and> i < e \<longrightarrow> ?b ! i \<noteq> NULc" using in_word by blast
  have "?b ! e = NULc" using nth W(2) assms(3) w by (auto simp: nulterminate_foldl)
  then have "cstring ?b q = take (e - q) (drop q ?b)"
    unfolding cstring_def using W(1,2) nn len by (intro takeWhile_slice) auto
  also have "\<dots> = take (e - q) (drop q buf)" using in_word W len by (intro nth_equalityI) auto
  finally show ?thesis by (simp add: w slice_def)
qed



end
