(* ===== verification/Mp.thy ===== *)
theory Mp
  imports Cstring Trap
begin

unbundle bit_operations_syntax

text \<open>
  Finding the processors (\<open>mp.c\<close>, \<open>mp.h\<close>): the search for the floating pointer structure the firmware leaves in
  memory, the checks of the configuration table, and the walk over its entries that fills the \<open>cpus\<close> array.  The
  firmware's memory is an argument.  The walk is a partial function: \<open>None\<close> means that it does not end.
\<close>

section \<open>Structures of mp.h\<close>

text \<open>The fields the code uses, at their offsets in \<open>struct mp\<close>, \<open>struct mpconf\<close>, \<open>struct mpproc\<close> and \<open>struct mpioapic\<close>.\<close>

definition load16 :: "mem \<Rightarrow> u32 \<Rightarrow> u32" where
  "load16 m a = ucast (m a) OR push_bit 8 (ucast (m (a + 1)))"

definition load32 :: "mem \<Rightarrow> u32 \<Rightarrow> u32" where
  "load32 m a = ucast (m a) OR push_bit 8 (ucast (m (a + 1))) OR push_bit 16 (ucast (m (a + 2))) OR push_bit 24 (ucast (m (a + 3)))"

definition sizeof_mp :: nat where [param_defs]: "sizeof_mp = 16"

definition mp_physaddr :: "mem \<Rightarrow> u32 \<Rightarrow> u32" where
  "mp_physaddr m mp = load32 m (mp + 4)"

definition mp_imcrp :: "mem \<Rightarrow> u32 \<Rightarrow> byte" where
  "mp_imcrp m mp = m (mp + 12)"

definition sizeof_mpconf :: u32 where [param_defs]: "sizeof_mpconf = 44"

definition conf_length :: "mem \<Rightarrow> u32 \<Rightarrow> u32" where
  "conf_length m conf = load16 m (conf + 4)"

definition conf_version :: "mem \<Rightarrow> u32 \<Rightarrow> byte" where
  "conf_version m conf = m (conf + 6)"

definition conf_lapicaddr :: "mem \<Rightarrow> u32 \<Rightarrow> u32" where
  "conf_lapicaddr m conf = load32 m (conf + 36)"

definition sizeof_mpproc :: u32 where [param_defs]: "sizeof_mpproc = 20"

definition sizeof_mpioapic :: u32 where [param_defs]: "sizeof_mpioapic = 8"

definition MPPROC :: byte where [param_defs]: "MPPROC = 0"

definition MPBUS :: byte where [param_defs]: "MPBUS = 1"

definition MPIOAPIC :: byte where [param_defs]: "MPIOAPIC = 2"

definition MPIOINTR :: byte where [param_defs]: "MPIOINTR = 3"

definition MPLINTR :: byte where [param_defs]: "MPLINTR = 4"

section \<open>The search\<close>

definition mp_sum :: "mem \<Rightarrow> u32 \<Rightarrow> nat \<Rightarrow> byte" where
  "mp_sum m addr len = of_nat (sum_list (map unat (bytes m addr len)))"

definition has_sig :: "mem \<Rightarrow> u32 \<Rightarrow> string \<Rightarrow> bool" where
  "has_sig m p sig \<longleftrightarrow> bytes m p (length sig) = map of_char sig"

text \<open>The loop of \<open>mpsearch1\<close>, with the number of structures left; 0 is the null pointer.\<close>

fun mpsearch1_from :: "mem \<Rightarrow> u32 \<Rightarrow> nat \<Rightarrow> u32" where
  "mpsearch1_from m p 0 = 0"
| "mpsearch1_from m p (Suc n) =
     (if has_sig m p ''_MP_'' \<and> mp_sum m p sizeof_mp = 0 then p else mpsearch1_from m (p + of_nat sizeof_mp) n)"

definition mpsearch1 :: "mem \<Rightarrow> u32 \<Rightarrow> nat \<Rightarrow> u32" where
  "mpsearch1 m a len = mpsearch1_from m (P2V a) ((len + sizeof_mp - 1) div sizeof_mp)"

definition mpsearch :: "mem \<Rightarrow> u32" where
  "mpsearch m =
     (let bda = P2V 0x400; p = push_bit 4 (load16 m (bda + 0x0E)) in
      if p \<noteq> 0
      then let mp = mpsearch1 m p 1024 in if mp \<noteq> 0 then mp else mpsearch1 m 0xF0000 0x10000
      else let mp = mpsearch1 m (load16 m (bda + 0x13) * 1024 - 1024) 1024 in
           if mp \<noteq> 0 then mp else mpsearch1 m 0xF0000 0x10000)"

text \<open>The result of \<open>mpconfig\<close> is the table and, through its argument, the pointer structure.\<close>

definition mpconfig :: "mem \<Rightarrow> (u32 \<times> u32) option" where
  "mpconfig m =
     (let mp = mpsearch m in
      if mp = 0 \<or> mp_physaddr m mp = 0 then None
      else let conf = P2V (mp_physaddr m mp) in
        if \<not> has_sig m conf ''PCMP'' then None
        else if conf_version m conf \<noteq> 1 \<and> conf_version m conf \<noteq> 4 then None
        else if mp_sum m conf (unat (conf_length m conf)) \<noteq> 0 then None
        else Some (conf, mp))"

section \<open>The walk\<close>

record mp_st =
  mp_ncpu :: nat
  mp_apicid :: "nat list"
  mp_ioapicid :: nat
  mp_lapic :: u32
  mp_ports :: "(nat \<times> byte) list"

definition add_cpu :: "mem \<Rightarrow> u32 \<Rightarrow> mp_st \<Rightarrow> mp_st" where
  "add_cpu m p s =
     (if mp_ncpu s < NCPU
      then s\<lparr>mp_apicid := (mp_apicid s)[mp_ncpu s := unat (m (p + 1))], mp_ncpu := mp_ncpu s + 1\<rparr>
      else s)"

definition set_ioapic :: "mem \<Rightarrow> u32 \<Rightarrow> mp_st \<Rightarrow> mp_st" where
  "set_ioapic m p s = s\<lparr>mp_ioapicid := unat (m (p + 1))\<rparr>"

text \<open>
  The loop of \<open>mpinit\<close>.  The \<open>break\<close> of the \<open>default\<close> case leaves the \<open>switch\<close>, not the loop, and \<open>p\<close> has not
  moved.
\<close>

partial_function (option) mpinit_loop :: "mem \<Rightarrow> u32 \<Rightarrow> u32 \<Rightarrow> bool \<Rightarrow> mp_st \<Rightarrow> (bool \<times> mp_st) option" where
  "mpinit_loop m e p ismp s =
     (if p < e then
        if m p = MPPROC then mpinit_loop m e (p + sizeof_mpproc) ismp (add_cpu m p s)
        else if m p = MPIOAPIC then mpinit_loop m e (p + sizeof_mpioapic) ismp (set_ioapic m p s)
        else if m p = MPBUS \<or> m p = MPIOINTR \<or> m p = MPLINTR then mpinit_loop m e (p + 8) ismp s
        else mpinit_loop m e p False s
      else Some (ismp, s))"

definition mpinit :: "mem \<Rightarrow> (nat \<Rightarrow> byte) \<Rightarrow> mp_st \<Rightarrow> (unit, mp_st) outcome option" where
  "mpinit m inb s =
     (case mpconfig m of None \<Rightarrow> Some (Panicked ''Expect to run on an SMP'')
      | Some (conf, mp) \<Rightarrow>
          (case mpinit_loop m (conf + conf_length m conf) (conf + sizeof_mpconf) True (s\<lparr>mp_lapic := conf_lapicaddr m conf\<rparr>) of
             None \<Rightarrow> None
           | Some (ismp, t) \<Rightarrow> Some (
               if \<not> ismp then Panicked ''Didn't find a suitable machine''
               else if mp_imcrp m mp \<noteq> 0 then Done () (t\<lparr>mp_ports := mp_ports t @ [(0x22, 0x70), (0x23, inb 0x23 OR 1)]\<rparr>)
               else Done () t)))"

section \<open>Interrupt controllers\<close>

text \<open>
  \<open>ioapic.c\<close> and \<open>picirq.c\<close>.  The I/O APIC is its register file: the device gives access to the register selected
  by the preceding write to \<open>reg\<close>.  \<open>picinit\<close> is the two port writes it does.
\<close>

record ioapic_st =
  io_regs :: "nat \<Rightarrow> u32"

definition REG_ID :: nat where [param_defs]: "REG_ID = 0"

definition REG_VER :: nat where [param_defs]: "REG_VER = 1"

definition REG_TABLE :: nat where [param_defs]: "REG_TABLE = 0x10"

definition INT_DISABLED :: u32 where [param_defs]: "INT_DISABLED = 0x00010000"

definition ioapicread :: "nat \<Rightarrow> ioapic_st \<Rightarrow> u32" where
  "ioapicread reg s = io_regs s reg"

definition ioapicwrite :: "nat \<Rightarrow> u32 \<Rightarrow> ioapic_st \<Rightarrow> ioapic_st" where
  "ioapicwrite reg d s = s\<lparr>io_regs := (io_regs s)(reg := d)\<rparr>"

fun ioapicinit_loop :: "nat list \<Rightarrow> ioapic_st \<Rightarrow> ioapic_st" where
  "ioapicinit_loop [] s = s"
| "ioapicinit_loop (i # is) s =
     ioapicinit_loop is (ioapicwrite (REG_TABLE + 2 * i + 1) 0
       (ioapicwrite (REG_TABLE + 2 * i) (INT_DISABLED OR (of_nat T_IRQ0 + of_nat i)) s))"

text \<open>The message \<open>ioapicinit\<close> prints when the id is not the one in the configuration table is left out.\<close>

definition ioapicinit :: "ioapic_st \<Rightarrow> ioapic_st" where
  "ioapicinit s = (let maxintr = drop_bit 16 (ioapicread REG_VER s) AND 0xFF in ioapicinit_loop [0..<unat maxintr + 1] s)"

definition ioapicenable :: "nat \<Rightarrow> nat \<Rightarrow> ioapic_st \<Rightarrow> ioapic_st" where
  "ioapicenable irq cpunum s =
     ioapicwrite (REG_TABLE + 2 * irq + 1) (push_bit 24 (of_nat cpunum)) (ioapicwrite (REG_TABLE + 2 * irq) (of_nat T_IRQ0 + of_nat irq) s)"

definition picinit :: "(nat \<times> byte) list" where
  "picinit = [(0x20 + 1, 0xFF), (0xA0 + 1, 0xFF)]"

section \<open>What the walk finds\<close>

text \<open>A configuration table as a list of entries, and its bytes in memory.\<close>

datatype mpentry = ProcEntry nat | IoapicEntry nat | OtherEntry byte

fun entry_size :: "mpentry \<Rightarrow> nat" where
  "entry_size (ProcEntry i) = 20"
| "entry_size (IoapicEntry i) = 8"
| "entry_size (OtherEntry t) = 8"

fun entry_at :: "mem \<Rightarrow> u32 \<Rightarrow> mpentry \<Rightarrow> bool" where
  "entry_at m p (ProcEntry i) \<longleftrightarrow> m p = MPPROC \<and> unat (m (p + 1)) = i"
| "entry_at m p (IoapicEntry i) \<longleftrightarrow> m p = MPIOAPIC \<and> unat (m (p + 1)) = i"
| "entry_at m p (OtherEntry t) \<longleftrightarrow> m p = t \<and> t \<in> {MPBUS, MPIOINTR, MPLINTR}"

fun entries_at :: "mem \<Rightarrow> u32 \<Rightarrow> mpentry list \<Rightarrow> bool" where
  "entries_at m p [] \<longleftrightarrow> True"
| "entries_at m p (x # xs) \<longleftrightarrow> entry_at m p x \<and> entries_at m (p + of_nat (entry_size x)) xs"

definition table_size :: "mpentry list \<Rightarrow> nat" where
  "table_size xs = sum_list (map entry_size xs)"

fun proc_id :: "mpentry \<Rightarrow> nat option" where
  "proc_id (ProcEntry i) = Some i"
| "proc_id e = None"

definition proc_ids :: "mpentry list \<Rightarrow> nat list" where
  "proc_ids xs = List.map_filter proc_id xs"

definition known :: "byte \<Rightarrow> bool" where
  "known t \<longleftrightarrow> t \<in> {MPPROC, MPIOAPIC, MPBUS, MPIOINTR, MPLINTR}"

text \<open>The ids registered: those already there and the new ones, as far as the array has room.\<close>

definition registered :: "mp_st \<Rightarrow> nat list" where
  "registered s = take (mp_ncpu s) (mp_apicid s)"

definition mp_ok :: "mp_st \<Rightarrow> bool" where
  "mp_ok s \<longleftrightarrow> length (mp_apicid s) = NCPU \<and> mp_ncpu s \<le> NCPU"

lemma unknown_spins:
  assumes "p < e" "\<not> known (m p)"
  shows "mpinit_loop m e p b s = None"
proof -
  have "\<not> (p < e \<and> \<not> known (m p))" if "mpinit_loop m e p b s = Some y" for y
  proof (rule mpinit_loop.raw_induct [where P = "\<lambda>m e p b s y. \<not> (p < e \<and> \<not> known (m p))", OF _ that])
    fix f :: "mem \<Rightarrow> u32 \<Rightarrow> u32 \<Rightarrow> bool \<Rightarrow> mp_st \<Rightarrow> (bool \<times> mp_st) option" and m e p b s y
    assume IH: "\<And>m e p b s y. f m e p b s = Some y \<Longrightarrow> \<not> (p < e \<and> \<not> known (m p))"
      and y: "(if p < e then if m p = MPPROC then f m e (p + sizeof_mpproc) b (add_cpu m p s)
           else if m p = MPIOAPIC then f m e (p + sizeof_mpioapic) b (set_ioapic m p s)
           else if m p = MPBUS \<or> m p = MPIOINTR \<or> m p = MPLINTR then f m e (p + 8) b s
           else f m e p False s else Some (b, s)) = Some y"
    show "\<not> (p < e \<and> \<not> known (m p))"
      using y IH [of m e p False s y] by (auto simp: known_def split: if_splits)
  qed
  then show ?thesis using assms by (cases "mpinit_loop m e p b s") auto
qed

lemma add_cpu_registers:
  assumes "mp_ok s"
  shows "mp_ok (add_cpu m p s)" "registered (add_cpu m p s) = take NCPU (registered s @ [unat (m (p + 1))])"
  using assms by (auto simp: mp_ok_def add_cpu_def registered_def take_Suc_conv_app_nth)

lemma proc_ids_simps [simp]:
  "proc_ids [] = []" "proc_ids (ProcEntry i # xs) = i # proc_ids xs"
  "proc_ids (IoapicEntry i # xs) = proc_ids xs" "proc_ids (OtherEntry t # xs) = proc_ids xs"
  by (simp_all add: proc_ids_def List.map_filter_simps)

lemma table_size_simps [simp]: "table_size [] = 0" "table_size (x # xs) = entry_size x + table_size xs"
  by (simp_all add: table_size_def)

lemma entry_size_bounds: "0 < entry_size x" "entry_size x \<le> 20"
  by (cases x; simp)+

definition walked :: "mpentry \<Rightarrow> mem \<Rightarrow> u32 \<Rightarrow> mp_st \<Rightarrow> mp_st" where
  "walked x m p s = (case x of ProcEntry i \<Rightarrow> add_cpu m p s | IoapicEntry i \<Rightarrow> set_ioapic m p s | OtherEntry t \<Rightarrow> s)"

lemma walk_one:
  assumes "entry_at m p x" "p < e"
  shows "mpinit_loop m e p b s = mpinit_loop m e (p + of_nat (entry_size x)) b (walked x m p s)"
  using assms by (subst mpinit_loop.simps) (cases x; auto simp: walked_def param_defs)

lemma walk_end: "\<not> p < e \<Longrightarrow> mpinit_loop m e p b s = Some (b, s)"
  by (subst mpinit_loop.simps) simp

lemma walked_registers:
  assumes "entry_at m p x" "mp_ok s"
  shows "mp_ok (walked x m p s)" "registered (walked x m p s) = take NCPU (registered s @ proc_ids [x])"
    "mp_lapic (walked x m p s) = mp_lapic s" "mp_ports (walked x m p s) = mp_ports s"
proof -
  have "length (registered s) \<le> NCPU" using assms(2) by (simp add: mp_ok_def registered_def)
  then show "mp_ok (walked x m p s)" "registered (walked x m p s) = take NCPU (registered s @ proc_ids [x])"
    "mp_lapic (walked x m p s) = mp_lapic s" "mp_ports (walked x m p s) = mp_ports s"
    using assms add_cpu_registers [OF assms(2), of m p]
    by (cases x; auto simp: walked_def set_ioapic_def add_cpu_def mp_ok_def registered_def)+
qed

lemma take_take_append: "take n (take n xs @ ys) = take n (xs @ ys)"
  by (cases "length xs \<le> n") simp_all

lemma walk_entries:
  assumes "entries_at m p xs" "unat p + table_size xs \<le> unat e" "mp_ok s"
  obtains t where "mpinit_loop m e p b s = mpinit_loop m e (p + of_nat (table_size xs)) b t" "mp_ok t"
    "registered t = take NCPU (registered s @ proc_ids xs)" "mp_lapic t = mp_lapic s" "mp_ports t = mp_ports s"
  using assms
proof (induction xs arbitrary: p s thesis)
  case Nil
  then show ?case by (simp add: mp_ok_def registered_def)
next
  case (Cons x xs)
  let ?p = "p + of_nat (entry_size x)" and ?s = "walked x m p s"
  have x: "entry_at m p x" "p < e" using Cons.prems(2,3) entry_size_bounds(1) [of x] by (simp_all add: word_less_nat_alt)
  note W = walked_registers [OF x(1) Cons.prems(4)]
  have "unat p + entry_size x \<le> unat e" using Cons.prems(3) by simp
  then have "unat p + entry_size x < 4294967296" by (rule le_less_trans) (rule unat_u32_bound)
  then have p: "unat ?p = unat p + entry_size x" by (simp add: unat_word_ariths(1) unat_of_nat)
  obtain t where "mpinit_loop m e ?p b ?s = mpinit_loop m e (?p + of_nat (table_size xs)) b t" "mp_ok t"
    "registered t = take NCPU (registered ?s @ proc_ids xs)" "mp_lapic t = mp_lapic ?s" "mp_ports t = mp_ports ?s"
    by (rule Cons.IH [of ?p ?s]) (use Cons.prems p W(1) in simp_all)
  moreover have "take NCPU (take NCPU (registered s @ proc_ids [x]) @ proc_ids xs) = take NCPU (registered s @ proc_ids (x # xs))"
    by (subst take_take_append) (cases x; simp)
  ultimately show ?case using Cons.prems(1) [of t] walk_one [OF x] W by (simp add: add.assoc)
qed

text \<open>After \<open>ioapicinit\<close> no interrupt is delivered; \<open>ioapicenable\<close> changes the entry of its interrupt alone.\<close>

lemma ioapicinit_loop_regs:
  assumes "distinct is"
  shows "io_regs (ioapicinit_loop is s) r =
    (if r \<ge> REG_TABLE \<and> (r - REG_TABLE) div 2 \<in> set is
     then if even (r - REG_TABLE) then INT_DISABLED OR (of_nat T_IRQ0 + of_nat ((r - REG_TABLE) div 2)) else 0
     else io_regs s r)"
  using assms
proof (induction "is" arbitrary: s)
  case (Cons i "is")
  have "r = REG_TABLE + 2 * i \<longleftrightarrow> r \<ge> REG_TABLE \<and> (r - REG_TABLE) div 2 = i \<and> even (r - REG_TABLE)"
    "r = REG_TABLE + 2 * i + 1 \<longleftrightarrow> r \<ge> REG_TABLE \<and> (r - REG_TABLE) div 2 = i \<and> odd (r - REG_TABLE)"
    unfolding REG_TABLE_def by presburger+
  then show ?case using Cons by (auto simp: ioapicwrite_def)
qed simp

lemma ioapicinit_disabled:
  assumes "i \<le> unat (drop_bit 16 (io_regs s REG_VER) AND 0xFF :: u32)" "i < 256"
  shows "io_regs (ioapicinit s) (REG_TABLE + 2 * i) AND INT_DISABLED = INT_DISABLED"
proof -
  have "io_regs (ioapicinit s) (REG_TABLE + 2 * i) = INT_DISABLED OR (of_nat T_IRQ0 + of_nat i)"
    using assms by (simp add: ioapicinit_def ioapicread_def ioapicinit_loop_regs Let_def)
  then show ?thesis by (simp add: bit_eq_iff bit_simps) auto
qed

lemma ioapicenable_regs:
  "io_regs (ioapicenable irq c s) (REG_TABLE + 2 * irq) = of_nat T_IRQ0 + of_nat irq"
  "r \<noteq> REG_TABLE + 2 * irq \<Longrightarrow> r \<noteq> REG_TABLE + 2 * irq + 1 \<Longrightarrow> io_regs (ioapicenable irq c s) r = io_regs s r"
  by (simp_all add: ioapicenable_def ioapicwrite_def)

text \<open>
  C29. The processors \<open>mpinit\<close> registers.  If the configuration table consists of well-formed entries, \<open>mpinit\<close>
  returns with the APIC ids of its processor entries in \<open>cpus\<close>, in the table's order and as far as the array has room,
  and the local APIC's address from the header.  If an entry of another type follows the well-formed ones, it never returns.
\<close>

theorem mpinit_registers:
  assumes conf: "mpconfig m = Some (conf, mp)" and len: "unat conf + unat (conf_length m conf) < 4294967296"
    and xs: "entries_at m (conf + sizeof_mpconf) xs" "44 + table_size xs \<le> unat (conf_length m conf)"
    and s: "mp_ncpu s = 0" "length (mp_apicid s) = NCPU"
  shows "(44 + table_size xs = unat (conf_length m conf) \<longrightarrow> (\<exists>t. mpinit m inb s = Some (Done () t) \<and>
      take (mp_ncpu t) (mp_apicid t) = take NCPU (proc_ids xs) \<and> mp_ncpu t = min NCPU (length (proc_ids xs)) \<and>
      mp_lapic t = conf_lapicaddr m conf)) \<and>
    (44 + table_size xs < unat (conf_length m conf) \<and> \<not> known (m (conf + sizeof_mpconf + of_nat (table_size xs))) \<longrightarrow>
      mpinit m inb s = None)"
proof -
  let ?e = "conf + conf_length m conf" and ?p = "conf + sizeof_mpconf" and ?s = "s\<lparr>mp_lapic := conf_lapicaddr m conf\<rparr>"
  let ?q = "?p + of_nat (table_size xs)"
  have e: "unat ?e = unat conf + unat (conf_length m conf)" using len by (simp add: unat_word_ariths(1))
  have p: "unat ?p = unat conf + 44" using len xs(2) by (simp add: unat_word_ariths(1) param_defs)
  have q: "unat ?q = unat conf + 44 + table_size xs" using len xs(2) p by (simp add: unat_word_ariths(1) unat_of_nat)
  have ok: "mp_ok ?s" using s by (simp add: mp_ok_def)
  obtain t where t: "mpinit_loop m ?e ?p True ?s = mpinit_loop m ?e ?q True t" "mp_ok t"
    "registered t = take NCPU (registered ?s @ proc_ids xs)" "mp_lapic t = mp_lapic ?s" "mp_ports t = mp_ports ?s"
    by (rule walk_entries [OF xs(1) _ ok, of ?e]) (use e p xs(2) in simp)
  have r: "registered t = take NCPU (proc_ids xs)" using t(3) s by (simp add: registered_def)
  have n: "mp_ncpu t = min NCPU (length (proc_ids xs))"
    using arg_cong [OF r, of length] t(2) by (simp add: registered_def mp_ok_def)
  have "\<exists>t. mpinit m inb s = Some (Done () t) \<and> take (mp_ncpu t) (mp_apicid t) = take NCPU (proc_ids xs) \<and>
      mp_ncpu t = min NCPU (length (proc_ids xs)) \<and> mp_lapic t = conf_lapicaddr m conf"
    if "44 + table_size xs = unat (conf_length m conf)"
  proof -
    have "unat ?q = unat ?e" using that e q by linarith
    then have "mpinit_loop m ?e ?q True t = Some (True, t)" by (intro walk_end) (simp only: word_less_nat_alt)
    then show ?thesis using conf r n t(1,4) by (auto simp: mpinit_def registered_def)
  qed
  moreover have "mpinit m inb s = None" if "44 + table_size xs < unat (conf_length m conf)" "\<not> known (m ?q)"
    using unknown_spins [of ?q ?e m] that t(1) e q conf by (simp add: mpinit_def word_less_nat_alt)
  ultimately show ?thesis by blast
qed

text \<open>Firmware that describes two processors and an I/O APIC.\<close>

definition demo_conf :: "byte list" where
  "demo_conf = map of_char ''PCMP'' @ [92, 0, 4, 0x81] @ replicate 28 0 @ [0, 0, 0xE0, 0xFE] @ replicate 4 0 @
     [0, 3] @ replicate 18 0 @ [0, 5] @ replicate 18 0 @ [2, 7] @ replicate 6 0"

definition demo_bios :: mem where
  "demo_bios a =
     (if a = 0x8000040F then 1
      else if 0x80001000 \<le> a \<and> a < 0x80001010 then (map of_char ''_MP_'' @ [0, 0x20, 0, 0, 1, 4, 0x80, 0, 0, 0, 0, 0]) ! unat (a - 0x80001000)
      else if 0x80002000 \<le> a \<and> a < 0x8000205C then demo_conf ! unat (a - 0x80002000)
      else 0)"

definition demo_mp :: mp_st where
  "demo_mp = \<lparr>mp_ncpu = 0, mp_apicid = replicate NCPU 0, mp_ioapicid = 0, mp_lapic = 0, mp_ports = []\<rparr>"

lemma demo_mpconfig: "mpconfig demo_bios = Some (0x80002000, 0x80001000)"
  by code_simp

theorem mpinit_registers_witness:
  "\<exists>t. mpinit demo_bios (\<lambda>_. 0) demo_mp = Some (Done () t) \<and> take (mp_ncpu t) (mp_apicid t) = [3, 5]"
proof -
  have l: "conf_length demo_bios 0x80002000 = 92" by code_simp
  have xs: "entries_at demo_bios (0x80002000 + sizeof_mpconf) [ProcEntry 3, ProcEntry 5, IoapicEntry 7]" by code_simp
  have "unat (0x80002000 :: u32) + unat (conf_length demo_bios 0x80002000) < 4294967296" by (simp add: l)
  from mpinit_registers [OF demo_mpconfig this xs, of demo_mp "\<lambda>_. 0"]
  show ?thesis by (auto simp: l demo_mp_def NCPU_def)
qed

end
