(* ===== verification/Console.thy ===== *)
theory Console
  imports Pipe Trap Printf
begin

unbundle bit_operations_syntax

text \<open>
  The console (\<open>console.c\<close>) and the listings of \<open>proc.c\<close> that print on it (\<open>procdump\<close>, \<open>myprint\<close>).  The screen is the
  array \<open>crt\<close> of character cells with the cursor position the CRT controller keeps; the input buffer is the ring
  \<open>input\<close> with its free-running read, write and edit counters.  \<open>uartputc\<close>, whose source is not part of the
  sources, is an argument.  \<open>getc\<close>, which \<open>consoleintr\<close> calls until it returns a negative number, is the list
  of the codes it returns before that.  A string argument of \<open>cprintf\<close> is the string itself.

  The interrupt handler is shown to refine a line editor: a line is edited until it is finished by a newline or an
  end-of-file character, or until the buffer is full, and finished characters are never changed.
\<close>

section \<open>State\<close>

record con_st = sys_st +
  cons_locking :: bool
  panicked :: bool
  crt :: "nat \<Rightarrow> 16 word"
  cursor :: int
  in_buf :: "byte list"
  in_r :: u32
  in_w :: u32
  in_e :: u32

definition BACKSPACE :: int where [param_defs]: "BACKSPACE = 0x100"

definition INPUT_BUF :: nat where [param_defs]: "INPUT_BUF = 128"

definition Ctrl :: "char \<Rightarrow> int" where
  "Ctrl c = of_char c - 64"

section \<open>Output\<close>

definition set_crt :: "int \<Rightarrow> 16 word \<Rightarrow> 'x con_st_scheme \<Rightarrow> 'x con_st_scheme" where
  "set_crt pos v s = s\<lparr>crt := (crt s)(nat pos := v)\<rparr>"

text \<open>The \<open>memmove\<close> of 23 lines and the \<open>memset\<close> from the new position \<open>pos\<close> to the end of line 24.\<close>

definition scroll_up :: "int \<Rightarrow> 'x con_st_scheme \<Rightarrow> 'x con_st_scheme" where
  "scroll_up pos s = s\<lparr>crt := (\<lambda>i. if pos \<le> int i \<and> i < 24 * 80 then 0 else if i < 23 * 80 then crt s (i + 80) else crt s i)\<rparr>"

definition place_cursor :: "int \<Rightarrow> ('x con_st_scheme, unit) kop" where
  "place_cursor pos =
     (if pos < 0 \<or> pos > 25 * 80 then panic ''pos under/overflow''
      else bindK (if pos div 80 \<ge> 24 then seqK (modify (scroll_up (pos - 80))) (ret (pos - 80)) else ret pos) (\<lambda>pos.
           seqK (modify (\<lambda>s. s\<lparr>cursor := pos\<rparr>))
           (modify (set_crt pos 0x0720))))"

definition cgaputc :: "int \<Rightarrow> ('x con_st_scheme, unit) kop" where
  "cgaputc c =
     bindK (gets cursor) (\<lambda>pos.
     bindK (if c = 10 then ret (pos + (80 - pos mod 80))
            else if c = BACKSPACE then ret (if pos > 0 then pos - 1 else pos)
            else seqK (modify (set_crt pos (word_of_int (c mod 256) OR 0x0700))) (ret (pos + 1)))
     place_cursor)"

text \<open>After a panic on another processor \<open>consputc\<close> stops its processor.\<close>

definition consputc :: "(int \<Rightarrow> ('x con_st_scheme, unit) kop) \<Rightarrow> int \<Rightarrow> ('x con_st_scheme, unit) kop" where
  "consputc uartputc c =
     bindK (gets panicked) (\<lambda>p.
     if p then seqK (onm cli) (panic ''stopped'')
     else seqK (if c = BACKSPACE then seqK (uartputc 8) (seqK (uartputc 32) (uartputc 8)) else uartputc c)
          (cgaputc c))"

fun consputs :: "(int \<Rightarrow> ('x con_st_scheme, unit) kop) \<Rightarrow> byte list \<Rightarrow> ('x con_st_scheme, unit) kop" where
  "consputs U [] = ret ()"
| "consputs U (c # cs) = seqK (consputc U (sint c)) (consputs U cs)"

text \<open>\<open>digit_loop\<close> returns for every base above 1; the calls have base 10 and 16.\<close>

definition cons_printint :: "(int \<Rightarrow> ('x con_st_scheme, unit) kop) \<Rightarrow> u32 \<Rightarrow> u32 \<Rightarrow> bool \<Rightarrow> ('x con_st_scheme, unit) kop" where
  "cons_printint U xx base sg =
     (let neg = sg \<and> sint xx < 0; x = (if neg then - xx else xx)
      in case digit_loop (map of_char ''0123456789abcdef'') base x [] of
           None \<Rightarrow> panic ''no digits''
         | Some buf \<Rightarrow> consputs U (rev (if neg then buf @ [45] else buf)))"

datatype carg = CWord u32 | CStr "byte list option"

fun cprintf_loop :: "(int \<Rightarrow> ('x con_st_scheme, unit) kop) \<Rightarrow> byte list \<Rightarrow> carg list \<Rightarrow> ('x con_st_scheme, unit) kop" where
  "cprintf_loop U [] args = ret ()"
| "cprintf_loop U (c # fmt) args =
     (if c \<noteq> of_char (CHR ''%'') then seqK (consputc U (uint c)) (cprintf_loop U fmt args)
      else case fmt of
        [] \<Rightarrow> ret ()
      | k # fmt' \<Rightarrow>
          if k = of_char (CHR ''d'') then
            (case args of CWord x # as \<Rightarrow> seqK (cons_printint U x 10 True) (cprintf_loop U fmt' as) | _ \<Rightarrow> panic ''bad argument'')
          else if k = of_char (CHR ''x'') \<or> k = of_char (CHR ''p'') then
            (case args of CWord x # as \<Rightarrow> seqK (cons_printint U x 16 False) (cprintf_loop U fmt' as) | _ \<Rightarrow> panic ''bad argument'')
          else if k = of_char (CHR ''s'') then
            (case args of
               CStr (Some str) # as \<Rightarrow> seqK (consputs U (takeWhile (\<lambda>b. b \<noteq> 0) str)) (cprintf_loop U fmt' as)
             | CStr None # as \<Rightarrow> seqK (consputs U (map of_char ''(null)'')) (cprintf_loop U fmt' as)
             | _ \<Rightarrow> panic ''bad argument'')
          else if k = of_char (CHR ''%'') then seqK (consputc U (of_char (CHR ''%''))) (cprintf_loop U fmt' args)
          else seqK (consputc U (of_char (CHR ''%''))) (seqK (consputc U (uint k)) (cprintf_loop U fmt' args)))"

text \<open>The format is the string up to its NUL; \<open>None\<close> is the null pointer.\<close>

definition cprintf :: "(int \<Rightarrow> ('x con_st_scheme, unit) kop) \<Rightarrow> byte list option \<Rightarrow> carg list \<Rightarrow> ('x con_st_scheme, unit) kop" where
  "cprintf U fmt args =
     bindK (gets cons_locking) (\<lambda>locking.
     seqK (whenK locking (onm (acquire LkCons))) (
     case fmt of
       None \<Rightarrow> panic ''null fmt''
     | Some f \<Rightarrow> seqK (cprintf_loop U (takeWhile (\<lambda>b. b \<noteq> 0) f) args) (whenK locking (onm (release LkCons)))))"

abbreviation cformat :: "string \<Rightarrow> byte list option" where
  "cformat str \<equiv> Some (map of_char str)"

fun print_pcs :: "(int \<Rightarrow> ('x con_st_scheme, unit) kop) \<Rightarrow> u32 list \<Rightarrow> ('x con_st_scheme, unit) kop" where
  "print_pcs U [] = ret ()"
| "print_pcs U (pc # pcs) = seqK (cprintf U (cformat '' %p'') [CWord pc]) (print_pcs U pcs)"

fun state_name :: "procstate \<Rightarrow> string" where
  "state_name UNUSED = ''unused''"
| "state_name EMBRYO = ''embryo''"
| "state_name SLEEPING = ''sleep ''"
| "state_name RUNNABLE = ''runble''"
| "state_name RUNNING = ''run   ''"
| "state_name ZOMBIE = ''zombie''"

fun procdump_from :: "(int \<Rightarrow> ('x con_st_scheme, unit) kop) \<Rightarrow> nat list \<Rightarrow> ('x con_st_scheme, unit) kop" where
  "procdump_from U [] = ret ()"
| "procdump_from U (i # is) =
     bindK (gets (\<lambda>s. procs s ! i)) (\<lambda>p.
     seqK (whenK (p_state p \<noteq> UNUSED) (
       seqK (cprintf U (cformat ''%d %s %s'') [CWord (word_of_int (p_pid p)), CStr (cformat (state_name (p_state p))), CStr (cformat (p_name p))]) (
       seqK (whenK (p_state p = SLEEPING) (
         bindK (gets (\<lambda>s. getcallerpcs (stackw (km s)) (cx_ebp (p_context p) + 8))) (\<lambda>pc.
         print_pcs U (takeWhile (\<lambda>x. x \<noteq> 0) pc))))
       (cprintf U (cformat [CHR 0x0A]) []))))
     (procdump_from U is))"

definition procdump :: "(int \<Rightarrow> ('x con_st_scheme, unit) kop) \<Rightarrow> ('x con_st_scheme, unit) kop" where
  "procdump U = bindK (gets (\<lambda>s. length (procs s))) (\<lambda>n. procdump_from U [0..<n])"

text \<open>The loop of \<open>myprint\<close> over the offsets 0, 16, ... below \<open>n\<close>, which must be at most \<open>2 ^ 32 - 16\<close> for the loop variable not to wrap; a \<open>char\<close> is widened with its sign.\<close>

fun myprint_from :: "(int \<Rightarrow> ('x con_st_scheme, unit) kop) \<Rightarrow> byte list \<Rightarrow> u32 \<Rightarrow> nat list \<Rightarrow> ('x con_st_scheme, unit) kop" where
  "myprint_from U buf addr [] = ret ()"
| "myprint_from U buf addr (st # sts) =
     seqK (cprintf U (cformat ''%p: '') [CWord (addr + of_nat st)]) (
     seqK (cprintf U (cformat ''%p '') [CWord (scast (buf ! st))]) (
     seqK (cprintf U (cformat ''%p '') [CWord (scast (buf ! (st + 4)))]) (
     seqK (cprintf U (cformat ''%p '') [CWord (scast (buf ! (st + 8)))]) (
     seqK (cprintf U (cformat (''%p'' @ [CHR 0x0A])) [CWord (scast (buf ! (st + 12)))])
     (myprint_from U buf addr sts)))))"

definition myprint :: "(int \<Rightarrow> ('x con_st_scheme, unit) kop) \<Rightarrow> byte list \<Rightarrow> u32 \<Rightarrow> nat \<Rightarrow> ('x con_st_scheme, int) kop" where
  "myprint U buf addr n = seqK (myprint_from U buf addr (map (\<lambda>i. 16 * i) [0..<(n + 15) div 16])) (ret 0)"

section \<open>Input\<close>

definition in_at :: "u32 \<Rightarrow> 'x con_st_scheme \<Rightarrow> byte" where
  "in_at i s = in_buf s ! (unat i mod INPUT_BUF)"

text \<open>The loop of the kill-line character; the distance from \<open>w\<close> to \<open>e\<close> is enough fuel.\<close>

fun kill_line :: "(int \<Rightarrow> ('x con_st_scheme, unit) kop) \<Rightarrow> nat \<Rightarrow> ('x con_st_scheme, unit) kop" where
  "kill_line U 0 = ret ()"
| "kill_line U (Suc n) =
     bindK (gets (\<lambda>s. in_e s \<noteq> in_w s \<and> in_at (in_e s - 1) s \<noteq> 10)) (\<lambda>more.
     if more then seqK (modify (\<lambda>s. s\<lparr>in_e := in_e s - 1\<rparr>)) (
                  seqK (consputc U BACKSPACE)
                  (kill_line U n))
     else ret ())"

definition put_input :: "byte \<Rightarrow> 'x con_st_scheme \<Rightarrow> 'x con_st_scheme" where
  "put_input c s = s\<lparr>in_buf := (in_buf s)[unat (in_e s) mod INPUT_BUF := c], in_e := in_e s + 1\<rparr>"

text \<open>Adding a character when there is room.\<close>

definition add_char :: "(int \<Rightarrow> ('x con_st_scheme, unit) kop) \<Rightarrow> int \<Rightarrow> ('x con_st_scheme, unit) kop" where
  "add_char U c = seqK (modify (put_input (word_of_int c))) (
     seqK (consputc U c) (
     bindK (gets (\<lambda>s. c = 10 \<or> c = Ctrl (CHR ''D'') \<or> in_e s = in_r s + of_nat INPUT_BUF)) (\<lambda>fin.
     whenK fin (seqK (modify (\<lambda>s. s\<lparr>in_w := in_e s\<rparr>)) (wakeup (Some ChInput))))))"

text \<open>The body of the loop of \<open>consoleintr\<close>; the result is whether the process listing was asked for.\<close>

definition consoleintr_char :: "(int \<Rightarrow> ('x con_st_scheme, unit) kop) \<Rightarrow> int \<Rightarrow> ('x con_st_scheme, bool) kop" where
  "consoleintr_char U c =
     (if c = Ctrl (CHR ''P'') then ret True
      else if c = Ctrl (CHR ''U'') then
        bindK (gets (\<lambda>s. unat (in_e s - in_w s))) (\<lambda>n. seqK (kill_line U n) (ret False))
      else if c = Ctrl (CHR ''H'') \<or> c = 0x7F then
        bindK (gets (\<lambda>s. in_e s \<noteq> in_w s)) (\<lambda>more.
        seqK (whenK more (seqK (modify (\<lambda>s. s\<lparr>in_e := in_e s - 1\<rparr>)) (consputc U BACKSPACE)))
        (ret False))
      else
        bindK (gets (\<lambda>s. c \<noteq> 0 \<and> in_e s - in_r s < of_nat INPUT_BUF)) (\<lambda>room.
        seqK (whenK room (add_char U (if c = 13 then 10 else c)))
        (ret False)))"

fun consoleintr_loop :: "(int \<Rightarrow> ('x con_st_scheme, unit) kop) \<Rightarrow> nat list \<Rightarrow> bool \<Rightarrow> ('x con_st_scheme, bool) kop" where
  "consoleintr_loop U [] dodump = ret dodump"
| "consoleintr_loop U (c # cs) dodump = bindK (consoleintr_char U (int c)) (\<lambda>d. consoleintr_loop U cs (dodump \<or> d))"

definition consoleintr :: "(int \<Rightarrow> ('x con_st_scheme, unit) kop) \<Rightarrow> nat list \<Rightarrow> ('x con_st_scheme, unit) kop" where
  "consoleintr U cs =
     seqK (onm (acquire LkCons)) (
     bindK (consoleintr_loop U cs False) (\<lambda>dodump.
     seqK (onm (release LkCons))
     (whenK dodump (procdump U))))"

definition consoleread_end :: "fsh \<Rightarrow> nat \<Rightarrow> int \<Rightarrow> byte list \<Rightarrow> ('x con_st_scheme, int \<times> byte list) kop" where
  "consoleread_end G ip r acc = seqK (onm (release LkCons)) (seqK (ilock G (Some ip)) (ret (r, acc)))"

text \<open>The loop of \<open>consoleread\<close>: \<open>n\<close> bytes are left of \<open>target\<close>, \<open>acc\<close> are the bytes copied so far.\<close>

fun consoleread_loop :: "fsh \<Rightarrow> nat \<Rightarrow> nat \<Rightarrow> nat \<Rightarrow> byte list \<Rightarrow> ('x con_st_scheme, int \<times> byte list) kop" where
  "consoleread_loop G ip target 0 acc = consoleread_end G ip (int target) acc"
| "consoleread_loop G ip target (Suc n) acc =
     bindK (gets (\<lambda>s. in_r s = in_w s)) (\<lambda>empty.
     if empty then
       bindK my_killed (\<lambda>k.
       if k then consoleread_end G ip (- 1) acc
       else await ChInput LkCons)
     else
       bindK (gets (\<lambda>s. in_at (in_r s) s)) (\<lambda>c.
       seqK (modify (\<lambda>s. s\<lparr>in_r := in_r s + 1\<rparr>)) (
       if sint c = Ctrl (CHR ''D'') then
         seqK (whenK (Suc n < target) (modify (\<lambda>s. s\<lparr>in_r := in_r s - 1\<rparr>)))
         (consoleread_end G ip (int (target - Suc n)) acc)
       else if c = 10 then consoleread_end G ip (int (target - n)) (acc @ [c])
       else consoleread_loop G ip target n (acc @ [c]))))"

definition consoleread :: "fsh \<Rightarrow> nat \<Rightarrow> nat \<Rightarrow> ('x con_st_scheme, int \<times> byte list) kop" where
  "consoleread G ip n =
     seqK (iunlock (Some ip)) (
     seqK (onm (acquire LkCons))
     (consoleread_loop G ip n n []))"

definition consoleread_resume :: "nat \<Rightarrow> bool \<Rightarrow> fsh \<Rightarrow> nat \<Rightarrow> nat \<Rightarrow> nat \<Rightarrow> byte list \<Rightarrow> ('x con_st_scheme, int \<times> byte list) kop" where
  "consoleread_resume q saved G ip target n acc = seqK (sleep_resume q LkCons saved) (consoleread_loop G ip target n acc)"

fun consolewrite_loop :: "(int \<Rightarrow> ('x con_st_scheme, unit) kop) \<Rightarrow> byte list \<Rightarrow> ('x con_st_scheme, unit) kop" where
  "consolewrite_loop U [] = ret ()"
| "consolewrite_loop U (c # cs) = seqK (consputc U (uint c)) (consolewrite_loop U cs)"

definition consolewrite :: "(int \<Rightarrow> ('x con_st_scheme, unit) kop) \<Rightarrow> fsh \<Rightarrow> nat \<Rightarrow> byte list \<Rightarrow> ('x con_st_scheme, int) kop" where
  "consolewrite U G ip buf =
     seqK (iunlock (Some ip)) (
     seqK (onm (acquire LkCons)) (
     seqK (consolewrite_loop U buf) (
     seqK (onm (release LkCons)) (
     seqK (ilock G (Some ip))
     (ret (int (length buf)))))))"

definition CONSOLE :: nat where [param_defs]: "CONSOLE = 1"

text \<open>The entries \<open>consoleinit\<close> makes in the device switch \<open>dv\<close>; \<open>ioapicenable\<close> is an argument.\<close>

definition consoleinit :: "(int \<Rightarrow> ('x con_st_scheme, unit) kop) \<Rightarrow> fsh \<Rightarrow> ('x con_st_scheme, unit) kop \<Rightarrow>
    'x con_st_scheme devsw \<Rightarrow> ('x con_st_scheme, 'x con_st_scheme devsw) kop" where
  "consoleinit U G enable_kbd dv =
     seqK (onm (initlock LkCons ''console'')) (
     seqK (modify (\<lambda>s. s\<lparr>cons_locking := True\<rparr>)) (
     seqK enable_kbd
     (ret (dv(CONSOLE := (Some (consoleread G), Some (consolewrite U G)))))))"

section \<open>The screen\<close>

text \<open>The documented effect of \<open>uartputc\<close> is on the serial line alone.\<close>

definition uart_quiet :: "(int \<Rightarrow> ('x con_st_scheme, unit) kop) \<Rightarrow> bool" where
  "uart_quiet U \<longleftrightarrow> (\<forall>c s. U c s = Done () s)"

definition screen_ok :: "'x con_st_scheme \<Rightarrow> bool" where
  "screen_ok s \<longleftrightarrow> 0 \<le> cursor s \<and> cursor s < 24 * 80 \<and> \<not> panicked s"

lemma screen_ok_running: "screen_ok s \<Longrightarrow> \<not> panicked s"
  by (simp add: screen_ok_def)

lemma uart_wp: "uart_quiet U \<Longrightarrow> wp (U c) Q s \<longleftrightarrow> Q () s"
  by (simp add: uart_quiet_def wp_def)

text \<open>What \<open>cgaputc\<close> does with the new position.\<close>

lemma place_cursor_wp:
  assumes "0 \<le> pos" "pos \<le> 24 * 80" "\<And>f k. 0 \<le> k \<Longrightarrow> k < 24 * 80 \<Longrightarrow> Q () (s\<lparr>cursor := k, crt := f\<rparr>)"
  shows "wp (place_cursor pos) Q (s\<lparr>crt := g\<rparr>)"
proof -
  have q: "Q () (s\<lparr>cursor := k, crt := f\<rparr>)" if "0 \<le> k" "k < 1920" for f k using assms(3) that by simp
  have r: "\<not> (pos < 0 \<or> pos > 25 * 80)" "pos div 80 \<ge> 24 \<longleftrightarrow> pos = 1920" using assms(1,2) by auto
  show ?thesis unfolding place_cursor_def wp_if r wp_bindK using assms(1,2) by (simp add: set_crt_def scroll_up_def q)
qed

lemma cgaputc_wp:
  assumes "screen_ok s" "\<And>f k. 0 \<le> k \<Longrightarrow> k < 24 * 80 \<Longrightarrow> Q () (s\<lparr>cursor := k, crt := f\<rparr>)"
  shows "wp (cgaputc c) Q s"
proof -
  let ?p = "cursor s"
  note P = place_cursor_wp [of _ Q s, OF _ _ assms(2)]
  have c: "0 \<le> ?p" "?p < 24 * 80" using assms(1) by (simp_all add: screen_ok_def)
  have "?p + (80 - ?p mod 80) = (?p div 80 + 1) * 80" by (simp add: algebra_simps minus_mod_eq_mult_div)
  moreover have "0 \<le> ?p div 80" "?p div 80 \<le> 23" using c by (simp_all add: pos_imp_zdiv_nonneg_iff)
  ultimately obtain d where "?p + (80 - ?p mod 80) = (d + 1) * 80" "0 \<le> d" "d \<le> 23" by blast
  then have n: "0 \<le> ?p + (80 - ?p mod 80)" "?p + (80 - ?p mod 80) \<le> 24 * 80" by simp_all
  have "wp (place_cursor pos) Q s" if "0 \<le> pos" "pos \<le> 24 * 80" for pos using P [OF that, of "crt s"] by simp
  then show ?thesis using P [of "?p + 1"] c n by (simp add: cgaputc_def set_crt_def wp_bind_fun)
qed

definition drawn :: "int \<Rightarrow> (nat \<Rightarrow> 16 word) \<Rightarrow> 'x con_st_scheme \<Rightarrow> 'x con_st_scheme" where
  "drawn k f s = s\<lparr>cursor := k, crt := f\<rparr>"

lemma drawn_simps [simp]:
  "km (drawn k f s) = km s" "procs (drawn k f s) = procs s" "cons_locking (drawn k f s) = cons_locking s" "in_buf (drawn k f s) = in_buf s"
  "in_r (drawn k f s) = in_r s" "in_w (drawn k f s) = in_w s" "in_e (drawn k f s) = in_e s" "drawn k f (drawn k' f' s) = drawn k f s"
  "screen_ok (drawn k f s) \<longleftrightarrow> 0 \<le> k \<and> k < 24 * 80 \<and> \<not> panicked s"
  by (simp_all add: drawn_def screen_ok_def)

lemma drawn_upd [simp]:
  "in_e_update g (drawn k f s) = drawn k f (in_e_update g s)" "in_w_update g (drawn k f s) = drawn k f (in_w_update g s)"
  "km_update h (drawn k f s) = drawn k f (km_update h s)" "procs_update h' (drawn k f s) = drawn k f (procs_update h' s)"
  by (simp_all add: drawn_def)

lemma consputc_wp:
  assumes "uart_quiet U" "screen_ok s" "\<And>k f. 0 \<le> k \<Longrightarrow> k < 24 * 80 \<Longrightarrow> Q () (drawn k f s)"
  shows "wp (consputc U c) Q s"
  using assms(2) cgaputc_wp [OF assms(2), of Q] assms(3)
  by (simp add: consputc_def uart_wp [OF assms(1)] screen_ok_def drawn_def)

lemma consputs_wp:
  assumes U: "uart_quiet U" and "screen_ok s" "\<And>k f. 0 \<le> k \<Longrightarrow> k < 24 * 80 \<Longrightarrow> Q () (drawn k f s)"
  shows "wp (consputs U cs) Q s"
  using assms(2,3)
proof (induction cs arbitrary: s)
  case Nil
  then show ?case using Nil.prems(2) [of "cursor s" "crt s"] by (simp add: screen_ok_def drawn_def)
next
  case (Cons c cs)
  have "wp (consputc U (sint c)) (\<lambda>_. wp (consputs U cs) Q) s"
    by (rule consputc_wp [OF U Cons.prems(1)], rule Cons.IH) (use Cons.prems screen_ok_running [OF Cons.prems(1)] in simp_all)
  then show ?case by simp
qed

lemma cons_printint_wp:
  assumes "uart_quiet U" "screen_ok s" "\<And>k f. 0 \<le> k \<Longrightarrow> k < 24 * 80 \<Longrightarrow> Q () (drawn k f s)" "2 \<le> unat base"
  shows "wp (cons_printint U x base sg) Q s"
  using consputs_wp [OF assms(1,2), of Q] assms(3) by (simp add: cons_printint_def Let_def digit_loop_digs [OF assms(4)])

section \<open>The input ring\<close>

definition ring :: "byte list \<Rightarrow> u32 \<Rightarrow> nat \<Rightarrow> byte list" where
  "ring b a n = map (\<lambda>i. b ! (unat (a + of_nat i) mod INPUT_BUF)) [0..<n]"

lemma length_ring [simp]: "length (ring b a n) = n"
  by (simp add: ring_def)

lemma ring_append: "ring b a (n + m) = ring b a n @ ring b (a + of_nat n) m"
  by (rule nth_equalityI) (auto simp: ring_def nth_append add.assoc simp flip: of_nat_add)

lemma ring_put:
  assumes "length b = INPUT_BUF" "n < INPUT_BUF"
  shows "ring (b[unat (a + of_nat n) mod INPUT_BUF := c]) a (Suc n) = ring b a n @ [c]"
proof (rule nth_equalityI)
  have m: "unat (a + of_nat j :: u32) mod 128 = (unat a + j) mod 128" for j by (rule unat_add_mod_dvd) simp
  fix i assume i: "i < length (ring (b[unat (a + of_nat n) mod INPUT_BUF := c]) a (Suc n))"
  have "(unat a + i) mod 128 \<noteq> (unat a + n) mod 128" if "i < n" using that assms(2) by (intro ring_distinct) (auto simp: INPUT_BUF_def)
  then show "ring (b[unat (a + of_nat n) mod INPUT_BUF := c]) a (Suc n) ! i = (ring b a n @ [c]) ! i"
    using i assms(1) by (auto simp: ring_def nth_append INPUT_BUF_def m less_Suc_eq simp del: upt_Suc)
qed simp

text \<open>The finished characters, not yet read, and the line being edited.\<close>

definition finished :: "'x con_st_scheme \<Rightarrow> byte list" where
  "finished s = ring (in_buf s) (in_r s) (unat (in_w s - in_r s))"

definition line :: "'x con_st_scheme \<Rightarrow> byte list" where
  "line s = ring (in_buf s) (in_w s) (unat (in_e s - in_w s))"

definition con_ok :: "'x con_st_scheme \<Rightarrow> bool" where
  "con_ok s \<longleftrightarrow> screen_ok s \<and> length (in_buf s) = INPUT_BUF \<and> length (finished s) + length (line s) \<le> INPUT_BUF \<and> 10 \<notin> set (line s)"

lemma ring_counters:
  "length (finished s) = unat (in_w s - in_r s)" "length (line s) = unat (in_e s - in_w s)"
  "in_w s = in_r s + of_nat (length (finished s))" "in_e s = in_w s + of_nat (length (line s))"
  by (simp_all add: finished_def line_def)

lemma unat_diff_of_nat: "b = a + of_nat n \<Longrightarrow> n < 4294967296 \<Longrightarrow> unat (b - a :: u32) = n"
  by (simp add: unat_of_nat)

lemma ring_views:
  assumes "in_r t = in_r s" "in_w t = in_r s + of_nat n" "in_e t = in_r s + of_nat (n + m)" "in_buf t = b" "n + m \<le> INPUT_BUF"
    "ring b (in_r s) (n + m) = xs @ ys" "length xs = n"
  shows "finished t = xs" "line t = ys"
proof -
  have n: "unat (in_w t - in_r t) = n" by (rule unat_diff_of_nat) (use assms in \<open>simp_all add: INPUT_BUF_def\<close>)
  have m: "unat (in_e t - in_w t) = m" by (rule unat_diff_of_nat) (use assms in \<open>simp_all add: INPUT_BUF_def\<close>)
  have "ring b (in_r s) (n + m) = finished t @ line t" unfolding finished_def line_def n m by (simp add: ring_append assms)
  then show "finished t = xs" "line t = ys" using assms(6,7) n by (simp_all add: finished_def)
qed

lemma ring_whole:
  assumes "length (finished s) + length (line s) \<le> INPUT_BUF"
  shows "ring (in_buf s) (in_r s) (length (finished s) + length (line s)) = finished s @ line s"
    "in_e s = in_r s + of_nat (length (finished s) + length (line s))" "unat (in_e s - in_r s) = length (finished s) + length (line s)"
proof -
  show e: "in_e s = in_r s + of_nat (length (finished s) + length (line s))"
    using ring_counters(3,4) [of s] by (simp add: add.assoc)
  show "unat (in_e s - in_r s) = length (finished s) + length (line s)"
    by (rule unat_diff_of_nat [OF e]) (use assms in \<open>simp add: INPUT_BUF_def\<close>)
  show "ring (in_buf s) (in_r s) (length (finished s) + length (line s)) = finished s @ line s"
    unfolding ring_append using ring_counters(3) [of s] by (simp add: finished_def line_def)
qed

text \<open>Deleting the last character, finishing the line, and adding a character.\<close>

lemma input_delete:
  assumes ok: "con_ok s" and ne: "line s \<noteq> []"
  shows "con_ok (s\<lparr>in_e := in_e s - 1\<rparr>)" "finished (s\<lparr>in_e := in_e s - 1\<rparr>) = finished s" "line (s\<lparr>in_e := in_e s - 1\<rparr>) = butlast (line s)"
    "in_at (in_e s - 1) s = last (line s)"
proof -
  let ?t = "s\<lparr>in_e := in_e s - 1\<rparr>"
  obtain m where m: "length (line s) = Suc m" using ne by (cases "length (line s)") auto
  have e: "in_e s - 1 = in_w s + of_nat m" using ring_counters(4) [of s] m by simp
  have n: "unat (in_e ?t - in_w ?t) = m"
    by (rule unat_diff_of_nat) (use e m ok in \<open>simp_all add: con_ok_def INPUT_BUF_def\<close>)
  have "line s = ring (in_buf s) (in_w s) (m + 1)" using m ring_counters(2) [of s] by (simp add: line_def)
  also have "\<dots> = ring (in_buf s) (in_w s) m @ [in_at (in_e s - 1) s]" unfolding ring_append by (simp add: e ring_def in_at_def)
  finally have l: "line s = line ?t @ [in_at (in_e s - 1) s]" using n by (simp add: line_def)
  show f: "finished ?t = finished s" by (simp add: finished_def)
  show "line ?t = butlast (line s)" "in_at (in_e s - 1) s = last (line s)" using l by simp_all
  show "con_ok ?t" using ok l f unfolding con_ok_def by (simp add: screen_ok_def)
qed

lemma input_finish:
  assumes ok: "screen_ok s" "length (in_buf s) = INPUT_BUF" "length (finished s) + length (line s) \<le> INPUT_BUF"
  shows "con_ok (s\<lparr>in_w := in_e s\<rparr>)" "finished (s\<lparr>in_w := in_e s\<rparr>) = finished s @ line s" "line (s\<lparr>in_w := in_e s\<rparr>) = []"
proof -
  note W = ring_whole [OF ok(3)]
  note V = ring_views [of "s\<lparr>in_w := in_e s\<rparr>" s "length (finished s) + length (line s)" 0, OF _ _ _ refl]
  show "finished (s\<lparr>in_w := in_e s\<rparr>) = finished s @ line s" "line (s\<lparr>in_w := in_e s\<rparr>) = []"
    using V [of "finished s @ line s" "[]"] W ok(3) by simp_all
  then show "con_ok (s\<lparr>in_w := in_e s\<rparr>)" using ok by (simp add: con_ok_def screen_ok_def)
qed

lemma input_put:
  assumes ok: "con_ok s" and room: "length (finished s) + length (line s) < INPUT_BUF"
  shows "finished (put_input c s) = finished s" "line (put_input c s) = line s @ [c]" "length (in_buf (put_input c s)) = INPUT_BUF"
    "screen_ok (put_input c s)"
proof -
  let ?n = "length (finished s)" and ?m = "length (line s)"
  have b: "length (in_buf s) = INPUT_BUF" "?n + ?m \<le> INPUT_BUF" using ok by (simp_all add: con_ok_def)
  note W = ring_whole [OF b(2)]
  have r: "ring (in_buf (put_input c s)) (in_r s) (?n + Suc ?m) = finished s @ line s @ [c]"
    using ring_put [OF b(1) room, of "in_r s" c] W by (simp add: put_input_def)
  note V = ring_views [of "put_input c s" s ?n "Suc ?m", OF _ _ _ refl _ r]
  show "finished (put_input c s) = finished s" "line (put_input c s) = line s @ [c]"
    using V W(2) ring_counters(3) [of s] room by (simp_all add: put_input_def)
  show "length (in_buf (put_input c s)) = INPUT_BUF" "screen_ok (put_input c s)"
    using ok by (simp_all add: put_input_def con_ok_def screen_ok_def)
qed

lemma drawn_input [simp]: "finished (drawn k f s) = finished s" "line (drawn k f s) = line s" "in_at i (drawn k f s) = in_at i s"
  by (simp_all add: finished_def line_def in_at_def)

lemma con_ok_drawn: "con_ok s \<Longrightarrow> 0 \<le> k \<Longrightarrow> k < 24 * 80 \<Longrightarrow> con_ok (drawn k f s)"
  by (simp add: con_ok_def screen_ok_running)

lemma con_ok_screen: "con_ok s \<Longrightarrow> screen_ok s"
  by (simp add: con_ok_def)

lemma kill_line_wp:
  assumes U: "uart_quiet U" and "con_ok s" "n = length (line s)"
    "\<And>t. con_ok t \<Longrightarrow> finished t = finished s \<Longrightarrow> line t = [] \<Longrightarrow> km t = km s \<Longrightarrow> procs t = procs s \<Longrightarrow> cons_locking t = cons_locking s \<Longrightarrow> Q () t"
  shows "wp (kill_line U n) Q s"
  using assms(2-)
proof (induction n arbitrary: s)
  case (Suc n)
  then have ne: "line s \<noteq> []" by auto
  note D = input_delete [OF Suc.prems(1) ne]
  have "10 \<notin> set (line s)" using Suc.prems(1) by (simp add: con_ok_def)
  with last_in_set [OF ne] have "last (line s) \<noteq> 10" by metis
  moreover have "in_e s \<noteq> in_w s" using Suc.prems(2) ring_counters(2) [of s] by auto
  ultimately have m: "(in_e s \<noteq> in_w s \<and> in_at (in_e s - 1) s \<noteq> 10) = True" using D(4) by simp
  have "wp (consputc U BACKSPACE) (\<lambda>_. wp (kill_line U n) Q) (s\<lparr>in_e := in_e s - 1\<rparr>)"
  proof (rule consputc_wp [OF U con_ok_screen [OF D(1)]])
    fix k f assume "0 \<le> k" "k < (24 * 80 :: int)"
    then show "wp (kill_line U n) Q (drawn k f (s\<lparr>in_e := in_e s - 1\<rparr>))"
      by (intro Suc.IH con_ok_drawn D(1)) (use D Suc.prems in auto)
  qed
  then show ?case by (simp add: m)
qed simp

section \<open>The line editor\<close>

text \<open>The effect of a code on the finished characters and the line, and whether it finishes the line.\<close>

fun typed :: "nat \<Rightarrow> byte list \<times> byte list \<Rightarrow> byte list \<times> byte list" where
  "typed c (fin, ln) =
     (if c = 16 then (fin, ln)
      else if c = 21 then (fin, [])
      else if c = 8 \<or> c = 127 then (fin, butlast ln)
      else if c = 0 \<or> length fin + length ln \<ge> 128 then (fin, ln)
      else if c \<in> {4, 10, 13} \<or> length fin + length ln = 127 then (fin @ ln @ [if c = 13 then 10 else of_nat c], [])
      else (fin, ln @ [of_nat c]))"

definition finishes :: "nat \<Rightarrow> byte list \<times> byte list \<Rightarrow> bool" where
  "finishes c p \<longleftrightarrow> length (fst (typed c p)) > length (fst p)"

definition edit_of :: "'x con_st_scheme \<Rightarrow> byte list \<times> byte list" where
  "edit_of s = (finished s, line s)"

definition typed_post :: "nat \<Rightarrow> 'x con_st_scheme \<Rightarrow> 'x con_st_scheme \<Rightarrow> bool" where
  "typed_post c s t \<longleftrightarrow> con_ok t \<and> mach_inv {LkCons} (km t) \<and> edit_of t = typed c (edit_of s) \<and> cons_locking t = cons_locking s \<and>
     procs t = (if finishes c (edit_of s) then map (wake (Some ChInput)) (procs s) else procs s)"

lemma ctrl_codes [simp]: "Ctrl (CHR ''P'') = 16" "Ctrl (CHR ''U'') = 21" "Ctrl (CHR ''H'') = 8" "Ctrl (CHR ''D'') = 4"
  by (simp_all add: Ctrl_def)

lemma con_ok_km [simp]: "con_ok (km_update g s) = con_ok s" "finished (km_update g s) = finished s" "line (km_update g s) = line s"
  "con_ok (procs_update h s) = con_ok s" "finished (procs_update h s) = finished s" "line (procs_update h s) = line s"
  by (simp_all add: con_ok_def screen_ok_def finished_def line_def)

lemma put_input_simps [simp]:
  "km (put_input c s) = km s" "procs (put_input c s) = procs s" "cons_locking (put_input c s) = cons_locking s"
  "in_r (put_input c s) = in_r s" "in_e (put_input c s) = in_e s + 1"
  by (simp_all add: put_input_def)

declare typed.simps [simp del]

lemma finish_line_wp:
  assumes "screen_ok s" "length (in_buf s) = INPUT_BUF" "length (finished s) + length (line s) \<le> INPUT_BUF" "mach_inv {LkCons} (km s)"
    and Q: "\<And>t. con_ok t \<Longrightarrow> finished t = finished s @ line s \<Longrightarrow> line t = [] \<Longrightarrow> mach_inv {LkCons} (km t) \<Longrightarrow>
      cons_locking t = cons_locking s \<Longrightarrow> procs t = map (wake (Some ChInput)) (procs s) \<Longrightarrow> Q () t"
  shows "wp (seqK (modify (\<lambda>s. s\<lparr>in_w := in_e s\<rparr>)) (wakeup (Some ChInput))) Q s"
  unfolding wp_bindK wp_modify
proof (rule wakeup_wp [of "{LkCons}"])
  fix m' assume "mach_inv {LkCons} m'"
  then show "Q () (s\<lparr>in_w := in_e s, procs := map (wake (Some ChInput)) (procs (s\<lparr>in_w := in_e s\<rparr>)), km := m'\<rparr>)"
    using input_finish [OF assms(1-3)] by (intro Q) simp_all
qed (use assms(4) in simp_all)

lemma ring_full:
  assumes "length (finished s) + length (line s) \<le> INPUT_BUF"
  shows "in_e s = in_r s + of_nat INPUT_BUF \<longleftrightarrow> length (finished s) + length (line s) = INPUT_BUF"
    "in_e s - in_r s < of_nat INPUT_BUF \<longleftrightarrow> length (finished s) + length (line s) < INPUT_BUF"
proof -
  have u: "unat (of_nat INPUT_BUF :: u32) = INPUT_BUF" by (simp add: INPUT_BUF_def)
  have "in_e s = in_r s + of_nat INPUT_BUF \<longleftrightarrow> in_e s - in_r s = of_nat INPUT_BUF" by (auto simp: algebra_simps)
  then show "in_e s = in_r s + of_nat INPUT_BUF \<longleftrightarrow> length (finished s) + length (line s) = INPUT_BUF"
    unfolding word_unat_eq_iff [of "in_e s - in_r s"] ring_whole(3) [OF assms] u .
  show "in_e s - in_r s < of_nat INPUT_BUF \<longleftrightarrow> length (finished s) + length (line s) < INPUT_BUF"
    unfolding word_less_nat_alt ring_whole(3) [OF assms] u ..
qed

lemma add_char_wp:
  assumes U: "uart_quiet U" and ok: "con_ok s" "mach_inv {LkCons} (km s)" and room: "length (finished s) + length (line s) < INPUT_BUF"
    and finish: "\<And>t. con_ok t \<Longrightarrow> mach_inv {LkCons} (km t) \<Longrightarrow> cons_locking t = cons_locking s \<Longrightarrow>
      c = 10 \<or> c = 4 \<or> Suc (length (finished s) + length (line s)) = INPUT_BUF \<Longrightarrow>
      finished t = finished s @ line s @ [word_of_int c] \<Longrightarrow> line t = [] \<Longrightarrow> procs t = map (wake (Some ChInput)) (procs s) \<Longrightarrow> Q () t"
    and more: "\<And>t. con_ok t \<Longrightarrow> mach_inv {LkCons} (km t) \<Longrightarrow> cons_locking t = cons_locking s \<Longrightarrow>
      \<not> (c = 10 \<or> c = 4 \<or> Suc (length (finished s) + length (line s)) = INPUT_BUF) \<Longrightarrow>
      finished t = finished s \<Longrightarrow> line t = line s @ [word_of_int c] \<Longrightarrow> procs t = procs s \<Longrightarrow> Q () t"
    and c: "(word_of_int c :: byte) = 10 \<Longrightarrow> c = 10"
  shows "wp (add_char U c) Q s"
  unfolding add_char_def wp_bindK [of "modify (put_input (word_of_int c))"] wp_modify wp_bindK [of "consputc U c"]
proof (rule consputc_wp [OF U])
  let ?s = "put_input (word_of_int c) s"
  note P = input_put [OF ok(1) room, of "word_of_int c"]
  show "screen_ok ?s" by (rule P(4))
  fix k f assume k: "0 \<le> k" "k < (24 * 80 :: int)"
  let ?t = "drawn k f ?s"
  have T: "screen_ok ?t" "length (in_buf ?t) = INPUT_BUF" "length (finished ?t) + length (line ?t) \<le> INPUT_BUF" "mach_inv {LkCons} (km ?t)"
    using P k room screen_ok_running [OF P(4)] ok(2) by simp_all
  have full: "in_e ?t = in_r ?t + of_nat INPUT_BUF \<longleftrightarrow> Suc (length (finished s) + length (line s)) = INPUT_BUF"
    using ring_full(1) [OF T(3)] P by simp
  show "wp (bindK (gets (\<lambda>s. c = 10 \<or> c = Ctrl (CHR ''D'') \<or> in_e s = in_r s + of_nat INPUT_BUF)) (\<lambda>fin.
     whenK fin (seqK (modify (\<lambda>s. s\<lparr>in_w := in_e s\<rparr>)) (wakeup (Some ChInput))))) Q ?t"
  proof (cases "c = 10 \<or> c = 4 \<or> Suc (length (finished s) + length (line s)) = INPUT_BUF")
    case True
    have "wp (seqK (modify (\<lambda>s. s\<lparr>in_w := in_e s\<rparr>)) (wakeup (Some ChInput))) Q ?t"
      by (rule finish_line_wp [OF T], rule finish) (use True P in simp_all)
    then show ?thesis unfolding wp_bindK [of "gets _"] wp_gets full ctrl_codes wp_whenK using True by (simp del: wp_bindK)
  next
    case False
    have "con_ok ?t" using T P c False ok(1) by (auto simp: con_ok_def)
    then have "Q () ?t" by (rule more) (use False P ok in simp_all)
    then show ?thesis unfolding wp_bindK [of "gets _"] wp_gets full ctrl_codes wp_whenK using False by (simp del: wp_bindK)
  qed
qed

lemma consoleintr_char_wp:
  assumes U: "uart_quiet U" and ok: "con_ok s" "mach_inv {LkCons} (km s)" and c: "c < 256"
    and Q: "\<And>t. typed_post c s t \<Longrightarrow> Q (c = 16) t"
  shows "wp (consoleintr_char U (int c)) Q s"
proof -
  have b: "length (finished s) + length (line s) \<le> INPUT_BUF" using ok(1) by (simp add: con_ok_def)
  have l: "in_e s \<noteq> in_w s \<longleftrightarrow> line s \<noteq> []" using ring_counters(2,4) [of s] by (cases "line s") auto
  consider "c = 16" | "c = 21" | "c = 8 \<or> c = 127" | "c \<notin> {8, 16, 21, 127}" by blast
  then show ?thesis
  proof cases
    case 1
    then have "typed_post c s s" using ok by (simp add: typed_post_def edit_of_def finishes_def typed.simps)
    then show ?thesis using Q 1 by (simp add: consoleintr_char_def)
  next
    case 2
    have "wp (kill_line U (unat (in_e s - in_w s))) (\<lambda>_. Q False) s"
      by (rule kill_line_wp [OF U ok(1)])
        (use 2 ok Q ring_counters(2) [of s] in \<open>auto simp: typed_post_def edit_of_def finishes_def typed.simps\<close>)
    then show ?thesis using 2 by (simp add: consoleintr_char_def wp_ret_fun)
  next
    case 3
    then have q: "typed_post c s t \<Longrightarrow> Q False t" for t using Q [of t] by auto
    have "Q False s" if "line s = []"
      by (rule q) (use 3 ok that in \<open>auto simp: typed_post_def edit_of_def finishes_def typed.simps\<close>)
    moreover have "wp (consputc U BACKSPACE) (\<lambda>_. Q False) (s\<lparr>in_e := in_e s - 1\<rparr>)" if "line s \<noteq> []"
      by (rule consputc_wp [OF U con_ok_screen [OF input_delete(1) [OF ok(1) that]]], rule q)
        (use 3 ok input_delete [OF ok(1) that] in \<open>auto simp: typed_post_def edit_of_def finishes_def typed.simps con_ok_drawn\<close>)
    ultimately show ?thesis using 3 l by (auto simp: consoleintr_char_def wp_ret_fun)
  next
    case 4
    then have q: "typed_post c s t \<Longrightarrow> Q False t" for t using Q [of t] by auto
    have w: "(word_of_int (if int c = 13 then 10 else int c) :: byte) = (if c = 13 then 10 else of_nat c)" by simp
    have n: "(of_nat c :: byte) = 10 \<longleftrightarrow> c = 10" using c by (simp add: word_unat_eq_iff unat_of_nat)
    have "wp (add_char U (if int c = 13 then 10 else int c)) (\<lambda>_. Q False) s" if "c \<noteq> 0" "length (finished s) + length (line s) < INPUT_BUF"
      by (rule add_char_wp [OF U ok that(2)])
        (use 4 that n w in \<open>auto intro!: q simp: typed_post_def edit_of_def finishes_def typed.simps INPUT_BUF_def split: if_splits\<close>)
    moreover have "Q False s" if "c = 0 \<or> \<not> length (finished s) + length (line s) < INPUT_BUF"
      by (rule q) (use 4 that ok in \<open>auto simp: typed_post_def edit_of_def finishes_def typed.simps INPUT_BUF_def\<close>)
    ultimately show ?thesis using 4 ring_full(2) [OF b] by (auto simp: consoleintr_char_def wp_ret_fun)
  qed
qed

fun finishes_any :: "nat list \<Rightarrow> byte list \<times> byte list \<Rightarrow> bool" where
  "finishes_any [] p \<longleftrightarrow> False"
| "finishes_any (c # cs) p \<longleftrightarrow> finishes c p \<or> finishes_any cs (typed c p)"

lemma wake_wake [simp]: "wake ch (wake ch p) = wake ch p"
  by (simp add: wake_def)

lemma consoleintr_loop_wp:
  fixes s :: "'x con_st_scheme"
  assumes U: "uart_quiet U" and "con_ok s" "mach_inv {LkCons} (km s)" "\<forall>c \<in> set cs. c < 256"
    "\<And>t. con_ok t \<Longrightarrow> mach_inv {LkCons} (km t) \<Longrightarrow> edit_of t = fold typed cs (edit_of s) \<Longrightarrow> cons_locking t = cons_locking s \<Longrightarrow>
      procs t = (if finishes_any cs (edit_of s) then map (wake (Some ChInput)) (procs s) else procs s) \<Longrightarrow> Q (b \<or> 16 \<in> set cs) t"
  shows "wp (consoleintr_loop U cs b) Q s"
  using assms(2-)
proof (induction cs arbitrary: b s)
  case (Cons c cs)
  have "wp (consoleintr_char U (int c)) (\<lambda>d. wp (consoleintr_loop U cs (b \<or> d)) Q) s"
  proof (rule consoleintr_char_wp [OF U Cons.prems(1,2)])
    show "c < 256" using Cons.prems(3) by simp
    fix u :: "'x con_st_scheme"
    assume u: "typed_post c s u"
    show "wp (consoleintr_loop U cs (b \<or> c = 16)) Q u"
    proof (rule Cons.IH)
      fix t :: "'x con_st_scheme"
      assume "con_ok t" "mach_inv {LkCons} (km t)" "edit_of t = fold typed cs (edit_of u)" "cons_locking t = cons_locking u"
        "procs t = (if finishes_any cs (edit_of u) then map (wake (Some ChInput)) (procs u) else procs u)"
      then show "Q ((b \<or> c = 16) \<or> 16 \<in> set cs) t"
        using Cons.prems(4) [of t] u by (simp add: typed_post_def disj_ac split: if_splits)
    qed (use u Cons.prems(3) in \<open>simp_all add: typed_post_def\<close>)
  qed
  then show ?case by simp
qed simp

section \<open>Listings\<close>

fun fmt_ok :: "byte list \<Rightarrow> carg list \<Rightarrow> bool" where
  "fmt_ok [] args \<longleftrightarrow> True"
| "fmt_ok (c # fmt) args \<longleftrightarrow>
     (if c \<noteq> 37 then fmt_ok fmt args
      else case fmt of [] \<Rightarrow> True
      | k # fmt' \<Rightarrow>
          if k \<in> {100, 112, 120} then (case args of CWord x # as \<Rightarrow> fmt_ok fmt' as | _ \<Rightarrow> False)
          else if k = 115 then (case args of CStr x # as \<Rightarrow> fmt_ok fmt' as | _ \<Rightarrow> False)
          else fmt_ok fmt' args)"

text \<open>A routine that only prints: whatever the cursor and the screen are afterwards, the rest goes on.\<close>

definition prints :: "('x con_st_scheme, unit) kop \<Rightarrow> 'x con_st_scheme \<Rightarrow> bool" where
  "prints m s \<longleftrightarrow> wp m (\<lambda>_ t. \<exists>k f. 0 \<le> k \<and> k < 24 * 80 \<and> t = drawn k f s) s"

lemma printsD: "prints m s \<Longrightarrow> (\<And>k f. 0 \<le> k \<Longrightarrow> k < 24 * 80 \<Longrightarrow> Q () (drawn k f s)) \<Longrightarrow> wp m Q s"
  unfolding prints_def by (erule wp_mono) auto

lemma prints_basic:
  assumes "uart_quiet U" "screen_ok s"
  shows "prints (consputc U c) s" "prints (consputs U cs) s" "2 \<le> unat base \<Longrightarrow> prints (cons_printint U x base sg) s" "prints (ret ()) s"
proof -
  show "prints (consputc U c) s" "prints (consputs U cs) s" unfolding prints_def
    by (rule consputc_wp [OF assms] consputs_wp [OF assms], blast)+
  show "prints (cons_printint U x base sg) s" if "2 \<le> unat base" unfolding prints_def
    by (rule cons_printint_wp [OF assms _ that], blast)
  show "prints (ret ()) s" using assms(2) unfolding prints_def
    by (auto simp: screen_ok_def drawn_def intro!: exI [of _ "cursor s"] exI [of _ "crt s"])
qed

lemma prints_seq:
  assumes "prints m s" "screen_ok s" "\<And>t. screen_ok t \<Longrightarrow> prints n t"
  shows "prints (seqK m n) s"
  unfolding prints_def wp_bindK
proof (rule printsD [OF assms(1)])
  fix k f assume "0 \<le> k" "k < (24 * 80 :: int)"
  then have "prints n (drawn k f s)" using assms(2,3) by (simp add: screen_ok_running)
  then show "wp n (\<lambda>_ t. \<exists>k f. 0 \<le> k \<and> k < 24 * 80 \<and> t = drawn k f s) (drawn k f s)" by (simp add: prints_def)
qed

lemma cprintf_loop_prints:
  assumes U: "uart_quiet U"
  shows "fmt_ok fmt args \<Longrightarrow> screen_ok s \<Longrightarrow> prints (cprintf_loop U fmt args) s"
proof (induction "length fmt" arbitrary: fmt args s rule: less_induct)
  case less
  note P = prints_basic [OF U less.prems(2)]
  have S: "prints (seqK m (cprintf_loop U fmt' as)) s" if "prints m s" "length fmt' < length fmt" "fmt_ok fmt' as" for m fmt' as
    by (rule prints_seq [OF that(1) less.prems(2)]) (rule less.hyps [OF that(2,3)])
  show ?case
  proof (cases fmt)
    case Nil
    then show ?thesis using P(4) by simp
  next
    case (Cons c fmt1)
    show ?thesis
    proof (cases "c = 37 \<and> fmt1 \<noteq> []")
      case False
      then show ?thesis using Cons less.prems P(4) S [OF P(1), of fmt1 args] by auto
    next
      case True
      then obtain k fmt2 where f: "fmt1 = k # fmt2" by (cases fmt1) auto
      have S2: "prints (seqK m (cprintf_loop U fmt2 as)) s" if "prints m s" "fmt_ok fmt2 as" for m as
        using S [OF that(1) _ that(2)] Cons f by simp
      have "prints (seqK (consputc U 37) (seqK (consputc U (uint k)) (cprintf_loop U fmt2 as))) s" if "fmt_ok fmt2 as" for as
        by (rule prints_seq [OF P(1) less.prems(2)], rule prints_seq [OF prints_basic(1) [OF U]])
          (use Cons f that in \<open>auto intro: less.hyps\<close>)
      then show ?thesis using Cons f True less.prems S2 P by (auto simp del: consputs.simps split: list.splits carg.splits option.splits)
    qed
  qed
qed

lemma cprintf_wp:
  assumes U: "uart_quiet U" and s: "screen_ok s" "mach_inv {} (km s)" and f: "fmt_ok (takeWhile (\<lambda>b. b \<noteq> 0) fmt) args"
    and Q: "\<And>k f m'. 0 \<le> k \<Longrightarrow> k < 24 * 80 \<Longrightarrow> mach_inv {} m' \<Longrightarrow> Q () (drawn k f (s\<lparr>km := m'\<rparr>))"
  shows "wp (cprintf U (Some fmt) args) Q s"
proof (cases "cons_locking s")
  case True
  let ?L = "cprintf_loop U (takeWhile (\<lambda>b. b \<noteq> 0) fmt) args"
  have "wp (onm (acquire LkCons)) (\<lambda>_. wp ?L (\<lambda>_. wp (onm (release LkCons)) Q)) s"
  proof (rule acquire_onm [OF s(2)])
    fix m assume m: "mach_inv {LkCons} m"
    have "prints ?L (s\<lparr>km := m\<rparr>)" by (rule cprintf_loop_prints [OF U f]) (use s in \<open>simp add: screen_ok_def\<close>)
    then show "wp ?L (\<lambda>_. wp (onm (release LkCons)) Q) (s\<lparr>km := m\<rparr>)"
    proof (rule printsD)
      fix k f assume k: "0 \<le> k" "k < (24 * 80 :: int)"
      show "wp (onm (release LkCons)) Q (drawn k f (s\<lparr>km := m\<rparr>))"
        by (rule release_onm [of "{LkCons}"]) (use m k Q in simp_all)
    qed
  qed simp
  then show ?thesis using True by (simp add: cprintf_def wp_bind_fun whenK_def)
next
  case False
  have "wp (cprintf_loop U (takeWhile (\<lambda>b. b \<noteq> 0) fmt) args) Q s"
    by (rule printsD [OF cprintf_loop_prints [OF U f s(1)]]) (use Q [of _ "km s"] s(2) in simp)
  then show ?thesis using False by (simp add: cprintf_def wp_bind_fun wp_ret_fun whenK_def)
qed

text \<open>Listings as a whole: they leave the screen and the machine in order and change nothing else.\<close>

definition listing :: "('x con_st_scheme, unit) kop \<Rightarrow> bool" where
  "listing m \<longleftrightarrow> (\<forall>s. screen_ok s \<longrightarrow> mach_inv {} (km s) \<longrightarrow>
     wp m (\<lambda>_ t. \<exists>k f m'. 0 \<le> k \<and> k < 24 * 80 \<and> mach_inv {} m' \<and> t = drawn k f (s\<lparr>km := m'\<rparr>)) s)"

lemma listingD:
  assumes "listing m" "screen_ok s" "mach_inv {} (km s)" "\<And>k f m'. 0 \<le> k \<Longrightarrow> k < 24 * 80 \<Longrightarrow> mach_inv {} m' \<Longrightarrow> Q () (drawn k f (s\<lparr>km := m'\<rparr>))"
  shows "wp m Q s"
proof -
  have "wp m (\<lambda>_ t. \<exists>k f m'. 0 \<le> k \<and> k < 24 * 80 \<and> mach_inv {} m' \<and> t = drawn k f (s\<lparr>km := m'\<rparr>)) s"
    using assms(1) [unfolded listing_def, rule_format, OF assms(2,3)] .
  then show ?thesis by (rule wp_mono) (use assms(4) in auto)
qed

lemma listing_ret [simp]: "listing (ret () :: ('x con_st_scheme, unit) kop)"
  unfolding listing_def
proof (intro allI impI)
  fix s :: "'x con_st_scheme" assume s: "screen_ok s" "mach_inv {} (km s)"
  have "s = drawn (cursor s) (crt s) (s\<lparr>km := km s\<rparr>)" by (simp add: drawn_def)
  with s show "wp (ret ()) (\<lambda>_ t. \<exists>k f m'. 0 \<le> k \<and> k < 24 * 80 \<and> mach_inv {} m' \<and> t = drawn k f (s\<lparr>km := m'\<rparr>)) s"
    unfolding wp_ret screen_ok_def by blast
qed

lemma listing_gets:
  assumes "\<And>a. listing (m a)"
  shows "listing (bindK (gets g) m)"
  using assms by (simp add: listing_def)

lemma listing_seq:
  fixes m n :: "('x con_st_scheme, unit) kop"
  assumes "listing m" "listing n"
  shows "listing (seqK m n)"
  unfolding listing_def wp_bindK
proof (intro allI impI)
  fix s :: "'x con_st_scheme" assume s: "screen_ok s" "mach_inv {} (km s)"
  show "wp m (\<lambda>_. wp n (\<lambda>_ t. \<exists>k f m'. 0 \<le> k \<and> k < 24 * 80 \<and> mach_inv {} m' \<and> t = drawn k f (s\<lparr>km := m'\<rparr>))) s"
  proof (rule listingD [OF assms(1) s])
    fix k f m' assume k: "0 \<le> k" "k < (24 * 80 :: int)" "mach_inv {} m'"
    show "wp n (\<lambda>_ t. \<exists>k f m'. 0 \<le> k \<and> k < 24 * 80 \<and> mach_inv {} m' \<and> t = drawn k f (s\<lparr>km := m'\<rparr>)) (drawn k f (s\<lparr>km := m'\<rparr>))"
      by (rule listingD [OF assms(2)]) (use k screen_ok_running [OF s(1)] in auto)
  qed
qed

lemma listing_cprintf:
  assumes "uart_quiet U" "fmt_ok (takeWhile (\<lambda>b. b \<noteq> 0) fmt) args"
  shows "listing (cprintf U (Some fmt) args)"
  unfolding listing_def by (intro allI impI, rule cprintf_wp [OF assms(1) _ _ assms(2)]) blast+

lemma procdump_listing:
  assumes U: "uart_quiet U"
  shows "listing (procdump U)"
proof -
  have pcs: "listing (print_pcs U xs)" for xs
    by (induction xs) (auto intro!: listing_seq listing_cprintf [OF U])
  have "listing (procdump_from U is)" for "is"
    by (induction "is") (auto intro!: listing_seq listing_gets listing_cprintf [OF U] pcs simp: whenK_def)
  then show ?thesis unfolding procdump_def by (intro listing_gets)
qed

text \<open>
  C28. Typing.  Under the console lock, the codes of one interrupt act on the finished characters and the line in
  progress like the line editor \<open>typed\<close>, one after the other: finished characters are never changed, the line is finished
  by a newline, an end-of-file character or a full buffer, and then, and only then, the readers sleeping on the input are
  woken.  The screen position stays on the screen, the counters may wrap, and a listing does not disturb anything.
\<close>

theorem consoleintr_refines:
  fixes s :: "'x con_st_scheme"
  assumes "uart_quiet U" "con_ok s" "mach_inv {} (km s)" "\<forall>c \<in> set cs. c < 256"
  shows "wp (consoleintr U cs) (\<lambda>_ t. con_ok t \<and> mach_inv {} (km t) \<and> (finished t, line t) = fold typed cs (finished s, line s) \<and>
     procs t = (if finishes_any cs (finished s, line s) then map (wake (Some ChInput)) (procs s) else procs s)) s"
  unfolding consoleintr_def wp_bindK
proof (rule acquire_onm [OF assms(3)])
  fix m assume m: "mach_inv {LkCons} m"
  let ?Q = "\<lambda>_ t. con_ok t \<and> mach_inv {} (km t) \<and> (finished t, line t) = fold typed cs (finished s, line s) \<and>
     procs t = (if finishes_any cs (finished s, line s) then map (wake (Some ChInput)) (procs s) else procs s)"
  show "wp (consoleintr_loop U cs False) (\<lambda>d. wp (onm (release LkCons)) (\<lambda>_. wp (whenK d (procdump U)) ?Q)) (s\<lparr>km := m\<rparr>)"
  proof (rule consoleintr_loop_wp [OF assms(1)])
    fix t :: "'x con_st_scheme"
    assume t: "con_ok t" "mach_inv {LkCons} (km t)" "edit_of t = fold typed cs (edit_of (s\<lparr>km := m\<rparr>))"
      "procs t = (if finishes_any cs (edit_of (s\<lparr>km := m\<rparr>)) then map (wake (Some ChInput)) (procs (s\<lparr>km := m\<rparr>)) else procs (s\<lparr>km := m\<rparr>))"
    show "wp (onm (release LkCons)) (\<lambda>_. wp (whenK (False \<or> 16 \<in> set cs) (procdump U)) ?Q) t"
    proof (rule release_onm [OF t(2)])
      fix m' assume m': "mach_inv ({LkCons} - {LkCons}) m'"
      have q: "?Q () (t\<lparr>km := m'\<rparr>)" using t m' by (simp add: edit_of_def)
      have "wp (procdump U) ?Q (t\<lparr>km := m'\<rparr>)"
        by (rule listingD [OF procdump_listing [OF assms(1)]]) (use q m' in \<open>auto simp: con_ok_screen con_ok_drawn\<close>)
      with q show "wp (whenK (False \<or> 16 \<in> set cs) (procdump U)) ?Q (t\<lparr>km := m'\<rparr>)" by simp
    qed simp
  qed (use assms m in simp_all)
qed simp

text \<open>The console of an idle machine whose counters are about to wrap; \<open>h\<close>, \<open>i\<close>, backspace and return are typed.\<close>

definition demo_con :: con_st where
  "demo_con = \<lparr>km = demo_mach True, ram = (\<lambda>_. replicate 4096 0), freelist = 0, use_lock = True, kend = 0x80200000, kdata = 0x80108000,
     procs = [demo_proc RUNNING 1 None, demo_proc SLEEPING 2 (Some ChInput)],
     initproc = Some 0, nextpid = 3, kpgdir = 0x80400000, cr3 = 0, esp0 = 0,
     slocks = (\<lambda>_. \<lparr>sl_locked = 0, sl_name = [], sl_pid = 0\<rparr>),
     bufs = replicate (Suc NBUF) (bss_buf 512), disk = (\<lambda>_. []), dhist = [], disksize = 1000,
     lh_n = 0, lh_block = replicate LOGSIZE 0, log_start = 2, log_size = 30, outstanding = 1, committing = False, log_dev = 1,
     sb = demo_sb, inodes = [], files = [], pipes = (\<lambda>_. demo_pipe), ticks = 0, forkret_at = 0, trapret_at = 0, initcode = [], first_ret = True,
     cons_locking = True, panicked = False, crt = (\<lambda>_. 0), cursor = 0, in_buf = replicate 128 0,
     in_r = 0xFFFFFFFF, in_w = 0xFFFFFFFF, in_e = 0xFFFFFFFF\<rparr>"

theorem consoleintr_refines_witness:
  "con_ok demo_con \<and> wp (consoleintr (\<lambda>_. ret ()) [104, 105, 8, 13]) (\<lambda>_ t. finished t = [104, 10] \<and> line t = [] \<and>
     p_state (procs t ! 1) = RUNNABLE) demo_con"
proof -
  have e: "finished demo_con = []" "line demo_con = []" by (simp_all add: demo_con_def finished_def line_def ring_def)
  have ok: "con_ok demo_con" "mach_inv {} (km demo_con)"
    using e by (simp_all add: con_ok_def screen_ok_def) (simp_all add: demo_con_def INPUT_BUF_def)
  have U: "uart_quiet (\<lambda>_. ret ())" by (simp add: uart_quiet_def ret_def)
  have t: "fold typed [104, 105, 8, 13] ([], []) = ([104, 10], [])" "finishes_any [104, 105, 8, 13] ([], [])"
    by (simp_all add: typed.simps finishes_def)
  have "wp (consoleintr (\<lambda>_. ret ()) [104, 105, 8, 13]) (\<lambda>_ t. finished t = [104, 10] \<and> line t = [] \<and> p_state (procs t ! 1) = RUNNABLE) demo_con"
    by (rule wp_mono [OF consoleintr_refines [OF U ok]]) (use e t in \<open>auto simp: demo_con_def wake_def demo_proc_def\<close>)
  then show ?thesis using ok by blast
qed

end
