(* ===== verification/Umalloc.thy ===== *)
theory Umalloc
  imports Xv6_Base
begin

text \<open>
  The user-level allocator (\<open>umalloc.c\<close>).  A block is a header of 8 bytes, which holds a pointer and the size of the block
  in units of 8 bytes, and the memory after it.  The state has the headers, by address, the pointer \<open>freep\<close> into the circular
  list of the free blocks, and the end of the process's memory.  The address of the static header \<open>base\<close> and the kernel's
  decision whether to grow the process are arguments.  The searches of \<open>free\<close> and \<open>malloc\<close> are partial functions: \<open>None\<close>
  means that they do not end.

  The circular list is shown to be a list of disjoint blocks in the order of their addresses.  \<open>free\<close> adds exactly its
  block to the free memory and \<open>malloc\<close> takes exactly the block it returns from it.
\<close>

section \<open>The allocator\<close>

record uheap =
  h_ptr :: "u32 \<Rightarrow> u32"
  h_size :: "u32 \<Rightarrow> u32"
  freep :: u32
  brk :: u32

type_synonym grant = "uheap \<Rightarrow> u32 \<Rightarrow> bool"

definition set_ptr :: "u32 \<Rightarrow> u32 \<Rightarrow> uheap \<Rightarrow> uheap" where
  "set_ptr p q s = s\<lparr>h_ptr := (h_ptr s)(p := q)\<rparr>"

definition set_size :: "u32 \<Rightarrow> u32 \<Rightarrow> uheap \<Rightarrow> uheap" where
  "set_size p n s = s\<lparr>h_size := (h_size s)(p := n)\<rparr>"

text \<open>\<open>p + p->s.size\<close>: pointer arithmetic is in units of a header.\<close>

definition h_end :: "uheap \<Rightarrow> u32 \<Rightarrow> u32" where
  "h_end s p = p + 8 * h_size s p"

partial_function (option) free_find :: "uheap \<Rightarrow> u32 \<Rightarrow> u32 \<Rightarrow> u32 option" where
  "free_find s bp p =
     (if bp > p \<and> bp < h_ptr s p then Some p
      else if p \<ge> h_ptr s p \<and> (bp > p \<or> bp < h_ptr s p) then Some p
      else free_find s bp (h_ptr s p))"

definition link_next :: "u32 \<Rightarrow> u32 \<Rightarrow> uheap \<Rightarrow> uheap" where
  "link_next bp p s =
     (if h_end s bp = h_ptr s p
      then let s = set_size bp (h_size s bp + h_size s (h_ptr s p)) s in set_ptr bp (h_ptr s (h_ptr s p)) s
      else set_ptr bp (h_ptr s p) s)"

definition link_prev :: "u32 \<Rightarrow> u32 \<Rightarrow> uheap \<Rightarrow> uheap" where
  "link_prev bp p s =
     (if h_end s p = bp
      then let s = set_size p (h_size s p + h_size s bp) s in set_ptr p (h_ptr s bp) s
      else set_ptr p bp s)"

definition free :: "u32 \<Rightarrow> uheap \<Rightarrow> uheap option" where
  "free ap s =
     (let bp = ap - 8 in
      case free_find s bp (freep s) of None \<Rightarrow> None
      | Some p \<Rightarrow> Some ((link_prev bp p (link_next bp p s))\<lparr>freep := p\<rparr>))"

text \<open>\<open>sbrk\<close> returns the old end of the memory, or -1.\<close>

definition sbrk :: "grant \<Rightarrow> u32 \<Rightarrow> uheap \<Rightarrow> u32 \<times> uheap" where
  "sbrk G n s = (if G s n then (brk s, s\<lparr>brk := brk s + n\<rparr>) else (- 1, s))"

definition morecore :: "grant \<Rightarrow> u32 \<Rightarrow> uheap \<Rightarrow> (u32 \<times> uheap) option" where
  "morecore G nu s =
     (let nu = (if nu < 4096 then 4096 else nu); (p, s) = sbrk G (nu * 8) s in
      if p = - 1 then Some (0, s)
      else case free (p + 8) (set_size p nu s) of None \<Rightarrow> None | Some s \<Rightarrow> Some (freep s, s))"

definition take_block :: "u32 \<Rightarrow> u32 \<Rightarrow> u32 \<Rightarrow> uheap \<Rightarrow> u32 \<times> uheap" where
  "take_block nunits prevp p s =
     (if h_size s p = nunits then (p + 8, (set_ptr prevp (h_ptr s p) s)\<lparr>freep := prevp\<rparr>)
      else let s = set_size p (h_size s p - nunits) s; p = h_end s p
           in (p + 8, (set_size p nunits s)\<lparr>freep := prevp\<rparr>))"

partial_function (option) malloc_loop :: "grant \<Rightarrow> u32 \<Rightarrow> u32 \<Rightarrow> u32 \<Rightarrow> uheap \<Rightarrow> (u32 \<times> uheap) option" where
  "malloc_loop G nunits prevp p s =
     (if h_size s p \<ge> nunits then Some (take_block nunits prevp p s)
      else if p = freep s
      then Option.bind (morecore G nunits s) (\<lambda>(p, s). if p = 0 then Some (0, s) else malloc_loop G nunits p (h_ptr s p) s)
      else malloc_loop G nunits p (h_ptr s p) s)"

definition units :: "u32 \<Rightarrow> u32" where
  "units nbytes = (nbytes + 8 - 1) div 8 + 1"

definition malloc :: "grant \<Rightarrow> u32 \<Rightarrow> u32 \<Rightarrow> uheap \<Rightarrow> (u32 \<times> uheap) option" where
  "malloc G base nbytes s =
     (let s = (if freep s = 0 then set_size base 0 ((set_ptr base base s)\<lparr>freep := base\<rparr>) else s)
      in malloc_loop G (units nbytes) (freep s) (h_ptr s (freep s)) s)"

section \<open>The list of free blocks\<close>

fun linked :: "(u32 \<Rightarrow> u32) \<Rightarrow> u32 list \<Rightarrow> bool" where
  "linked f (x # y # zs) \<longleftrightarrow> f x = y \<and> linked f (y # zs)"
| "linked f xs \<longleftrightarrow> True"

definition fin :: "uheap \<Rightarrow> u32 \<Rightarrow> nat" where
  "fin s p = unat p + 8 * unat (h_size s p)"

definition extent :: "uheap \<Rightarrow> u32 \<Rightarrow> nat set" where
  "extent s p = {unat p..<fin s p}"

definition apart :: "uheap \<Rightarrow> u32 \<Rightarrow> u32 \<Rightarrow> bool" where
  "apart s p q \<longleftrightarrow> unat p < unat q \<and> fin s p \<le> unat q"

definition body_ok :: "u32 \<Rightarrow> u32 list \<Rightarrow> uheap \<Rightarrow> bool" where
  "body_ok base ns s \<longleftrightarrow> ns \<noteq> [] \<and> hd ns = base \<and> linked (h_ptr s) (ns @ [base]) \<and> sorted_wrt (apart s) ns \<and> h_size s base = 0 \<and>
     (\<forall>p \<in> set ns. p \<noteq> base \<longrightarrow> h_size s p \<noteq> 0 \<and> fin s p < 4294967296)"

definition heap_ok :: "u32 \<Rightarrow> u32 list \<Rightarrow> uheap \<Rightarrow> bool" where
  "heap_ok base ns s \<longleftrightarrow> body_ok base ns s \<and> freep s \<in> set ns"

definition free_mem :: "u32 list \<Rightarrow> uheap \<Rightarrow> nat set" where
  "free_mem ns s = (\<Union>p \<in> set ns. extent s p)"

lemma linked_append: "linked f (xs @ p # ys) \<longleftrightarrow> linked f (xs @ [p]) \<and> linked f (p # ys)"
  by (induction f xs rule: linked.induct) auto

lemma linked_join: "linked f (xs @ [p]) \<Longrightarrow> linked f (p # ys) \<Longrightarrow> linked f (xs @ p # ys)"
  using linked_append by blast

lemma linked_Cons: "zs \<noteq> [] \<Longrightarrow> linked f (x # zs) \<longleftrightarrow> f x = hd zs \<and> linked f zs"
  by (cases zs) auto

lemma linked_upd: "q \<notin> set (butlast xs) \<Longrightarrow> linked (f(q := r)) xs = linked f xs"
  by (induction f xs rule: linked.induct) auto

lemma linked_next: "linked f (xs @ p # q # ys) \<Longrightarrow> f p = q"
  by (induction f xs rule: linked.induct) (auto simp: linked_append)

lemma apart_trans: "apart s p q \<Longrightarrow> apart s q r \<Longrightarrow> apart s p r"
  by (auto simp: apart_def fin_def)

text \<open>The nodes of the list with a position: what comes before it, the node and what comes after it.\<close>

lemma sorted_split:
  fixes b :: "'a :: linorder"
  assumes "sorted_wrt (<) (a # xs)" "a < b" "b \<notin> set xs"
  shows "\<exists>us p vs. a # xs = us @ p # vs \<and> p < b \<and> (\<forall>v \<in> set vs. b < v)"
  using assms
proof (induction xs arbitrary: a)
  case (Cons x xs)
  show ?case
  proof (cases "x < b")
    case True
    then obtain us p vs where "x # xs = us @ p # vs" "p < b" "\<forall>v \<in> set vs. b < v" using Cons.IH [of x] Cons.prems by auto
    then show ?thesis by (intro exI [of _ "a # us"]) auto
  next
    case False
    then have "\<forall>v \<in> set (x # xs). b < v" using Cons.prems by auto
    then show ?thesis using Cons.prems(2) by (intro exI [of _ "[]"]) auto
  qed
qed (auto intro!: exI [of _ "[]"])

lemma nodes_at:
  assumes ok: "body_ok base ns s" and split: "ns = us @ p # vs"
  shows "h_ptr s p = hd (vs @ [base])" "\<forall>u \<in> set us. apart s u p" "\<forall>v \<in> set vs. apart s p v" "unat base \<le> unat p"
    "sorted_wrt (apart s) us" "sorted_wrt (apart s) vs" "\<forall>u \<in> set us. \<forall>v \<in> set vs. apart s u v" "linked (h_ptr s) (us @ [p])"
    "linked (h_ptr s) (p # vs @ [base])" "p \<notin> set us" "p \<notin> set vs" "distinct (us @ p # vs)"
proof -
  have l: "linked (h_ptr s) (us @ p # vs @ [base])" using ok split by (simp add: body_ok_def)
  have w: "sorted_wrt (apart s) (us @ p # vs)" using ok split by (simp add: body_ok_def)
  show "linked (h_ptr s) (us @ [p])" "linked (h_ptr s) (p # vs @ [base])" 
    using l linked_append [of "h_ptr s" us p "vs @ [base]"] by blast+
  then show "h_ptr s p = hd (vs @ [base])" by (cases vs) auto
  show "\<forall>u \<in> set us. apart s u p" "\<forall>v \<in> set vs. apart s p v" "sorted_wrt (apart s) us" "sorted_wrt (apart s) vs"
    "\<forall>u \<in> set us. \<forall>v \<in> set vs. apart s u v" using w by (auto simp: sorted_wrt_append)
  then show "p \<notin> set us" "p \<notin> set vs" by (auto simp: apart_def)
  have "sorted_wrt (<) (map unat (us @ p # vs))" using w unfolding sorted_wrt_map by (rule sorted_wrt_mono_rel [rotated]) (simp add: apart_def)
  then have "distinct (map unat (us @ p # vs))" by (simp add: strict_sorted_iff)
  then show "distinct (us @ p # vs)" by (simp only: distinct_map)
  show "unat base \<le> unat p" using ok split w by (cases us) (auto simp: apart_def body_ok_def)
qed

lemma free_find_step:
  assumes ok: "body_ok base ns s" and split: "ns = us @ q # n # vs" and "\<not> (q < bp \<and> bp < n)"
  shows "free_find s bp q = free_find s bp n"
proof -
  have "h_ptr s q = n" "apart s q n" using nodes_at [OF ok split] by auto
  then show ?thesis using assms(3) by (subst free_find.simps) (auto simp: apart_def word_less_nat_alt word_le_nat_alt)
qed

lemma free_find_at:
  assumes ok: "body_ok base ns s" and split: "ns = us @ p # vs" and bp: "base < bp" "p < bp" "\<forall>v \<in> set vs. bp < v"
    and q: "q \<in> set (ns)"
  shows "free_find s bp q = Some p"
proof -
  note N = nodes_at [OF ok split]
  have here: "free_find s bp p = Some p"
    using N(1,4) bp by (cases vs) (subst free_find.simps; auto simp: word_le_nat_alt)+
  have up: "free_find s bp q = Some p" if "us = us1 @ q # us2" for us1 us2 q
    using that
  proof (induction us2 arbitrary: us1 q)
    case Nil
    then have "ns = us1 @ q # p # vs" using split by simp
    from free_find_step [OF ok this, of bp] show ?case using here bp(2) by (simp add: word_less_nat_alt)
  next
    case (Cons n us2)
    then have "ns = us1 @ q # n # us2 @ p # vs" using split by simp
    moreover have "apart s n p" using Cons.prems N(2) by simp
    ultimately show ?case using free_find_step [OF ok, of us1 q n "us2 @ p # vs" bp] Cons.IH [of "us1 @ [q]" n] Cons.prems bp(2)
      by (simp add: apart_def word_less_nat_alt)
  qed
  have start: "free_find s bp base = Some p"
    using ok split here up [of "[]" base "tl us"] by (cases us) (auto simp: body_ok_def)
  have down: "free_find s bp q = Some p" if "vs = vs1 @ q # vs2" for vs1 vs2 q
    using that
  proof (induction vs2 arbitrary: vs1 q)
    case Nil
    then have s: "ns = (us @ p # vs1) @ q # []" using split by simp
    have "bp < q" using Nil bp(3) by simp
    then have "free_find s bp q = free_find s bp base"
      using nodes_at(1,4) [OF ok s] bp(1) by (subst free_find.simps) (auto simp: word_less_nat_alt)
    then show ?case using start by simp
  next
    case (Cons n vs2)
    then have "ns = (us @ p # vs1) @ q # n # vs2" "bp < q" using split bp(3) by simp_all
    then show ?case using free_find_step [OF ok, of "us @ p # vs1" q n vs2 bp] Cons.IH [of "vs1 @ [q]" n] Cons.prems
      by (simp add: word_less_nat_alt)
  qed
  from q split have "q \<in> set us \<or> q = p \<or> q \<in> set vs" by auto
  then show ?thesis using here up down by (metis split_list)
qed

lemma predecessor:
  assumes ok: "body_ok base ns s" and bp: "base < bp" "bp \<notin> set ns"
  obtains us p vs where "ns = us @ p # vs" "p < bp" "\<forall>v \<in> set vs. bp < v"
proof -
  obtain xs where ns: "ns = base # xs" using ok by (cases ns) (auto simp: body_ok_def)
  have "sorted_wrt (<) ns" using ok unfolding body_ok_def
    by (auto intro: sorted_wrt_mono_rel [rotated] simp: apart_def word_less_nat_alt)
  then show thesis using sorted_split [of base xs bp] bp ns that by auto
qed

text \<open>A block that is not free lies between its neighbours.\<close>

lemma block_apart:
  assumes ok: "body_ok base ns s" and split: "ns = us @ p # vs" "p < bp" "\<forall>v \<in> set vs. bp < v"
    and bp: "extent s bp \<inter> free_mem ns s = {}" "h_size s bp \<noteq> 0"
  shows "\<forall>u \<in> set (us @ [p]). apart s u bp" "\<forall>v \<in> set vs. apart s bp v"
proof -
  note N = nodes_at [OF ok split(1)]
  have z: "0 < unat (h_size s q)" if "h_size s q \<noteq> 0" for q using that by (simp add: unat_gt_0)
  have p: "unat bp \<in> extent s bp" using z [OF bp(2)] by (simp add: extent_def fin_def)
  have d: "x \<notin> extent s bp" if "x \<in> extent s q" "q \<in> set ns" for x q using bp(1) that by (auto simp: free_mem_def)
  have lt: "unat q < unat bp" if "q \<in> set (us @ [p])" for q
    using that N(2) split(2) by (auto simp: apart_def word_less_nat_alt)
  show "\<forall>u \<in> set (us @ [p]). apart s u bp"
  proof
    fix u assume u: "u \<in> set (us @ [p])"
    then have "u \<in> set ns" using split(1) by auto
    from d [OF _ this, of "unat bp"] show "apart s u bp" using p lt [OF u] by (auto simp: apart_def extent_def intro: leI)
  qed
  show "\<forall>v \<in> set vs. apart s bp v"
  proof
    fix v assume v: "v \<in> set vs"
    have b: "unat bp < unat v" using v split(3) by (simp add: word_less_nat_alt)
    have "v \<noteq> base" using N(3,4) v by (auto simp: apart_def)
    then have "h_size s v \<noteq> 0" using ok split(1) v by (simp add: body_ok_def)
    then have "unat v \<in> extent s v" using z by (simp add: extent_def fin_def)
    from d [OF this] v split(1) b show "apart s bp v" by (auto simp: apart_def extent_def intro: leI)
  qed
qed

text \<open>The state between the two halves of \<open>free\<close>: \<open>bp\<close> is linked to its successor and not yet to its predecessor.\<close>

definition pending :: "u32 \<Rightarrow> u32 list \<Rightarrow> u32 \<Rightarrow> u32 \<Rightarrow> u32 list \<Rightarrow> uheap \<Rightarrow> bool" where
  "pending base us p bp vs s \<longleftrightarrow> hd (us @ [p]) = base \<and> linked (h_ptr s) (us @ [p]) \<and> linked (h_ptr s) (bp # vs @ [base]) \<and>
     sorted_wrt (apart s) (us @ p # bp # vs) \<and> h_size s base = 0 \<and>
     (\<forall>q \<in> set (us @ p # bp # vs). q \<noteq> base \<longrightarrow> h_size s q \<noteq> 0 \<and> fin s q < 4294967296)"

lemma set_simps [simp]:
  "h_ptr (set_ptr p q s) = (h_ptr s)(p := q)" "h_size (set_ptr p q s) = h_size s" "freep (set_ptr p q s) = freep s" "brk (set_ptr p q s) = brk s"
  "h_ptr (set_size p n s) = h_ptr s" "h_size (set_size p n s) = (h_size s)(p := n)" "freep (set_size p n s) = freep s" "brk (set_size p n s) = brk s"
  by (simp_all add: set_ptr_def set_size_def)

lemma fin_simps [simp]:
  "fin (set_ptr p q s) = fin s" "fin (set_size p n s) = (fin s)(p := unat p + 8 * unat n)" "extent (set_ptr p q s) = extent s"
  "extent (set_size p n s) = (extent s)(p := {unat p..<unat p + 8 * unat n})" "apart (set_ptr p q s) = apart s"
  by (auto simp: fin_def extent_def apart_def fun_eq_iff)

lemma freep_simps [simp]:
  "fin (s\<lparr>freep := p\<rparr>) = fin s" "extent (s\<lparr>freep := p\<rparr>) = extent s" "apart (s\<lparr>freep := p\<rparr>) = apart s"
  "body_ok base ns (s\<lparr>freep := p\<rparr>) = body_ok base ns s" "free_mem ns (s\<lparr>freep := p\<rparr>) = free_mem ns s"
proof -
  show "fin (s\<lparr>freep := p\<rparr>) = fin s" by (auto simp: fin_def fun_eq_iff)
  then show "extent (s\<lparr>freep := p\<rparr>) = extent s" "apart (s\<lparr>freep := p\<rparr>) = apart s" by (simp_all add: extent_def apart_def fun_eq_iff)
  then show "body_ok base ns (s\<lparr>freep := p\<rparr>) = body_ok base ns s" "free_mem ns (s\<lparr>freep := p\<rparr>) = free_mem ns s"
    by (simp_all add: body_ok_def free_mem_def fin_def)
qed

lemma h_end_fin: "fin s p < 4294967296 \<Longrightarrow> unat (h_end s p) = fin s p"
  by (simp add: h_end_def fin_def unat_word_ariths)

lemma sorted_apart_cong: "\<forall>q \<in> set xs. fin t q = fin s q \<Longrightarrow> sorted_wrt (apart t) xs \<longleftrightarrow> sorted_wrt (apart s) xs"
  by (induction xs) (auto simp: apart_def)

lemma link_next_ok:
  assumes ok: "body_ok base ns s" and split: "ns = us @ p # vs" "p < bp" "\<forall>v \<in> set vs. bp < v"
    and bp: "extent s bp \<inter> free_mem ns s = {}" "h_size s bp \<noteq> 0" "fin s bp < 4294967296"
  obtains ws where "pending base us p bp ws (link_next bp p s)"
    "extent (link_next bp p s) bp \<union> (\<Union>w \<in> set ws. extent (link_next bp p s) w) = extent s bp \<union> (\<Union>w \<in> set vs. extent s w)"
    "\<forall>q. q \<noteq> bp \<longrightarrow> h_size (link_next bp p s) q = h_size s q" "h_size s bp \<le> h_size (link_next bp p s) bp"
proof -
  note N = nodes_at [OF ok split(1)] and A = block_apart [OF ok split bp(1,2)]
  let ?s = "link_next bp p s"
  have nb: "bp \<notin> set (us @ p # vs)" using A by (auto simp: apart_def)
  have base: "unat base < unat bp" using N(4) split(2) by (simp add: word_less_nat_alt)
  have h: "hd (us @ [p]) = base" using ok split(1) by (cases us) (auto simp: body_ok_def)
  have z: "h_size s base = 0" "\<forall>q \<in> set (us @ p # vs). q \<noteq> base \<longrightarrow> h_size s q \<noteq> 0 \<and> fin s q < 4294967296"
    using ok split(1) by (simp_all add: body_ok_def)
  show thesis
  proof (cases "h_end s bp = h_ptr s p")
    case False
    then have e: "?s = set_ptr bp (hd (vs @ [base])) s" using N(1) by (simp add: link_next_def)
    have "linked (h_ptr ?s) (us @ [p])" using N(8) nb by (simp add: e linked_upd)
    moreover have "linked (h_ptr ?s) (bp # vs @ [base])" using N(9) nb by (simp add: e linked_Cons linked_upd)
    moreover have "sorted_wrt (apart ?s) (us @ p # bp # vs)" using N A by (auto simp: e sorted_wrt_append)
    ultimately have "pending base us p bp vs ?s" unfolding pending_def using h z bp by (simp add: e)
    then show thesis by (rule that) (auto simp: e)
  next
    case True
    have "vs \<noteq> []" using True N(1) h_end_fin [OF bp(3)] base by (auto simp: fin_def)
    then obtain v ws where vs: "vs = v # ws" by (cases vs) auto
    have v: "unat v = fin s bp" using True N(1) vs h_end_fin [OF bp(3)] by simp
    have fv: "h_size s v \<noteq> 0" "fin s v < 4294967296" using ok split(1) vs N(3,4) by (auto simp: body_ok_def apart_def)
    let ?n = "h_size s bp + h_size s v"
    have "8 * (unat (h_size s bp) + unat (h_size s v)) < 4294967296" using fv(2) v by (simp add: fin_def)
    then have n: "unat ?n = unat (h_size s bp) + unat (h_size s v)" by (simp add: unat_word_ariths)
    have vp: "h_ptr s v = hd (ws @ [base])" using N(9) vs by (simp add: linked_Cons)
    have vb: "v \<noteq> bp" using nb vs by auto
    have e: "?s = set_ptr bp (hd (ws @ [base])) (set_size bp ?n s)" using True N(1) vs vp vb by (simp add: link_next_def Let_def)
    have f: "fin ?s = (fin s)(bp := fin s v)" using v n by (auto simp: e fin_def)
    have ap: "apart ?s q r \<longleftrightarrow> (if q = bp then unat bp < unat r \<and> fin s v \<le> unat r else apart s q r)" for q r by (simp add: apart_def f)
    have "linked (h_ptr ?s) (us @ [p])" using N(8) nb by (simp add: e linked_upd)
    moreover have "linked (h_ptr ?s) (bp # ws @ [base])" using N(9) nb vs by (simp add: e linked_Cons linked_upd)
    moreover have "sorted_wrt (apart ?s) (us @ p # bp # ws)"
    proof -
      have sw: "sorted_wrt (apart ?s) xs \<longleftrightarrow> sorted_wrt (apart s) xs" if "bp \<notin> set xs" for xs
        by (rule sorted_apart_cong) (use that f in auto)
      have B: "\<forall>w \<in> set ws. unat bp < unat w \<and> fin s v \<le> unat w" using A(2) N(6) vs by (auto simp: apart_def)
      show ?thesis using N(2,3,5-7) A B vs nb sw [of us] sw [of ws] by (auto simp: sorted_wrt_append ap)
    qed
    moreover have "h_size ?s base = 0" using z(1) base by (auto simp: e)
    moreover have "\<forall>q \<in> set (us @ p # bp # ws). q \<noteq> base \<longrightarrow> h_size ?s q \<noteq> 0 \<and> fin ?s q < 4294967296"
      using z(2) fv bp(2) n vs unfolding f by (auto simp: e word_unat_eq_iff)
    ultimately have "pending base us p bp ws ?s" unfolding pending_def using h by blast
    moreover have "extent ?s bp = extent s bp \<union> extent s v" using v unfolding extent_def f by (auto simp: fin_def)
    ultimately show thesis using n by (intro that [of ws]) (auto simp: e vs word_le_nat_alt)
  qed
qed

lemma link_prev_ok:
  assumes pend: "pending base us p bp vs s"
  obtains ms where "body_ok base ms (link_prev bp p s)" "free_mem ms (link_prev bp p s) = free_mem (us @ p # bp # vs) s"
    "p \<in> set ms" "\<exists>q \<in> set ms. h_size s bp \<le> h_size (link_prev bp p s) q" "\<forall>q. q \<noteq> p \<longrightarrow> h_size (link_prev bp p s) q = h_size s q"
proof -
  let ?s = "link_prev bp p s"
  have h: "hd (us @ [p]) = base" "linked (h_ptr s) (us @ [p])" "linked (h_ptr s) (bp # vs @ [base])" "sorted_wrt (apart s) (us @ p # bp # vs)"
    "h_size s base = 0" "\<forall>q \<in> set (us @ p # bp # vs). q \<noteq> base \<longrightarrow> h_size s q \<noteq> 0 \<and> fin s q < 4294967296"
    using pend unfolding pending_def by blast+
  have d: "p \<notin> set us" "p \<notin> set (bp # vs)" "unat p < unat bp" "fin s p \<le> unat bp" using h(4) by (auto simp: sorted_wrt_append apart_def)
  have hd: "hd (us @ p # xs) = base" for xs using h(1) by (cases us) auto
  have bb: "bp \<noteq> base" using h(1,4) d(3) by (cases us) (auto simp: apart_def)
  show thesis
  proof (cases "h_end s p = bp")
    case False
    then have e: "?s = set_ptr p bp s" by (simp add: link_prev_def)
    have "linked (h_ptr ?s) (us @ [p])" "linked (h_ptr ?s) (p # bp # vs @ [base])"
      using h(2,3) d by (auto simp: e linked_upd butlast_append)
    from linked_join [OF this] have "linked (h_ptr ?s) ((us @ p # bp # vs) @ [base])" by simp
    then have "body_ok base (us @ p # bp # vs) ?s" unfolding body_ok_def using h(4-6) hd by (simp add: e)
    then show thesis using d(2) by (intro that) (auto simp: e free_mem_def)
  next
    case True
    have pb: "p \<noteq> base" using True h(5) d(3) by (auto simp: h_end_def)
    have fb: "fin s bp < 4294967296" "fin s p < 4294967296" using h(6) bb pb by simp_all
    have pf: "unat bp = fin s p" using True h_end_fin [OF fb(2)] by simp
    let ?n = "h_size s p + h_size s bp"
    have "8 * (unat (h_size s p) + unat (h_size s bp)) < 4294967296" using fb(1) pf by (simp add: fin_def)
    then have n: "unat ?n = unat (h_size s p) + unat (h_size s bp)" by (simp add: unat_word_ariths)
    have e: "?s = set_ptr p (hd (vs @ [base])) (set_size p ?n s)" using True h(3) by (simp add: link_prev_def Let_def linked_Cons)
    have f: "fin ?s = (fin s)(p := fin s bp)" using pf n by (auto simp: e fin_def)
    have ap: "apart ?s q r \<longleftrightarrow> (if q = p then unat p < unat r \<and> fin s bp \<le> unat r else apart s q r)" for q r by (simp add: apart_def f)
    have sw: "sorted_wrt (apart ?s) xs \<longleftrightarrow> sorted_wrt (apart s) xs" if "p \<notin> set xs" for xs
      by (rule sorted_apart_cong) (use that f in auto)
    have "linked (h_ptr ?s) (us @ [p])" "linked (h_ptr ?s) (p # vs @ [base])"
      using h(2,3) d by (auto simp: e linked_Cons linked_upd butlast_append)
    from linked_join [OF this] have "linked (h_ptr ?s) ((us @ p # vs) @ [base])" by simp
    moreover have "sorted_wrt (apart ?s) (us @ p # vs)"
      using h(4) d sw [of us] sw [of vs] by (auto simp: sorted_wrt_append ap) (auto simp: apart_def)
    moreover have "\<forall>q \<in> set (us @ p # vs). q \<noteq> base \<longrightarrow> h_size ?s q \<noteq> 0 \<and> fin ?s q < 4294967296"
      using h(6) n fb pb unfolding f by (auto simp: e word_unat_eq_iff)
    ultimately have "body_ok base (us @ p # vs) ?s" unfolding body_ok_def using h(5) hd pb by (simp add: e)
    moreover have "extent ?s = (extent s)(p := extent s p \<union> extent s bp)" using pf unfolding extent_def f by (auto simp: fin_def fun_eq_iff)
    then have "free_mem (us @ p # vs) ?s = free_mem (us @ p # bp # vs) s" using d by (auto simp: free_mem_def)
    ultimately show thesis using n by (intro that [of "us @ p # vs"]) (auto simp: e word_le_nat_alt)
  qed
qed

text \<open>\<open>free\<close> of a block that is not free.\<close>

lemma node_in_extent: "h_size s p \<noteq> 0 \<Longrightarrow> unat p \<in> extent s p"
  by (simp add: extent_def fin_def unat_gt_0)

lemma node_mem:
  assumes "body_ok base ns s" "p \<in> set ns"
  shows "unat p \<in> free_mem ns s \<union> {unat base}"
  using assms node_in_extent [of s p] by (cases "p = base") (auto simp: free_mem_def body_ok_def)

lemma free_ok:
  assumes ok: "heap_ok base ns s" and bp: "base < bp" "extent s bp \<inter> free_mem ns s = {}" "h_size s bp \<noteq> 0" "fin s bp < 4294967296"
  obtains t ms where "free (bp + 8) s = Some t" "heap_ok base ms t" "free_mem ms t = free_mem ns s \<union> extent s bp" "brk t = brk s"
    "\<forall>q. unat q \<notin> free_mem ns s \<union> extent s bp \<union> {unat base} \<longrightarrow> h_size t q = h_size s q"
    "\<exists>q \<in> set ms. h_size s bp \<le> h_size t q"
proof -
  have b: "body_ok base ns s" and fp: "freep s \<in> set ns" using ok by (simp_all add: heap_ok_def)
  have "unat bp \<in> extent s bp" by (rule node_in_extent [OF bp(3)])
  then have "bp \<notin> set ns" using node_mem [OF b, of bp] bp(1,2) by (auto simp: word_less_nat_alt)
  with b bp(1) obtain us p vs where sp: "ns = us @ p # vs" "p < bp" "\<forall>v \<in> set vs. bp < v" by (rule predecessor)
  have find: "free_find s bp (freep s) = Some p" by (rule free_find_at [OF b sp(1) bp(1) sp(2,3) fp])
  let ?u = "link_next bp p s"
  obtain ws where w: "pending base us p bp ws ?u"
    "extent ?u bp \<union> (\<Union>w \<in> set ws. extent ?u w) = extent s bp \<union> (\<Union>w \<in> set vs. extent s w)" "\<forall>q. q \<noteq> bp \<longrightarrow> h_size ?u q = h_size s q"
    "h_size s bp \<le> h_size ?u bp"
    by (rule link_next_ok [OF b sp bp(2-4)])
  obtain ms where m: "body_ok base ms (link_prev bp p ?u)" "free_mem ms (link_prev bp p ?u) = free_mem (us @ p # bp # ws) ?u" "p \<in> set ms"
    "\<forall>q. q \<noteq> p \<longrightarrow> h_size (link_prev bp p ?u) q = h_size ?u q" "\<exists>q \<in> set ms. h_size ?u bp \<le> h_size (link_prev bp p ?u) q"
    by (rule link_prev_ok [OF w(1)])
  let ?t = "(link_prev bp p ?u)\<lparr>freep := p\<rparr>"
  have x: "extent ?u q = extent s q" if "q \<noteq> bp" for q using w(3) that by (simp add: extent_def fin_def)
  have bu: "bp \<notin> set (us @ [p])" using \<open>bp \<notin> set ns\<close> sp(1) by simp
  have "free_mem (us @ p # bp # ws) ?u = (\<Union>q \<in> set (us @ [p]). extent ?u q) \<union> (extent ?u bp \<union> (\<Union>w \<in> set ws. extent ?u w))"
    by (auto simp: free_mem_def)
  also have "(\<Union>q \<in> set (us @ [p]). extent ?u q) = (\<Union>q \<in> set (us @ [p]). extent s q)" 
    by (rule SUP_cong [OF refl], rule x) (use bu in auto)
  finally have mem: "free_mem (us @ p # bp # ws) ?u = free_mem ns s \<union> extent s bp" unfolding w(2) sp(1) by (auto simp: free_mem_def)
  have "free_mem ms ?t = free_mem ns s \<union> extent s bp" using m(2) mem by simp
  moreover have "heap_ok base ms ?t" using m(1,3) by (simp add: heap_ok_def)
  moreover have "brk ?t = brk s" by (simp add: link_prev_def link_next_def Let_def)
  moreover have "h_size ?t q = h_size s q" if "unat q \<notin> free_mem ns s \<union> extent s bp \<union> {unat base}" for q
  proof -
    have "q \<noteq> p" "q \<noteq> bp" using that node_mem [OF b, of p] sp(1) \<open>unat bp \<in> extent s bp\<close> by auto
    then show ?thesis using m(4) w(3) by simp
  qed
  moreover have "\<exists>q \<in> set ms. h_size s bp \<le> h_size ?t q" using m(5) w(4) by (auto intro: order_trans)
  ultimately show thesis using find by (intro that [of ?t ms]) (simp_all add: free_def)
qed

section \<open>Allocation\<close>

lemma extents_disjoint:
  assumes "body_ok base ns s" "ns = us @ p # vs" "q \<in> set (us @ vs)"
  shows "extent s q \<inter> extent s p = {}"
  using nodes_at(2,3) [OF assms(1,2)] assms(3) by (auto simp: apart_def extent_def)

lemma free_mem_node: "p \<in> set ns \<Longrightarrow> free_mem ns s = extent s p \<union> (\<Union>x \<in> set ns - {p}. extent s x)"
  by (auto simp: free_mem_def)

lemma sorted_apart_mono: "\<forall>q \<in> set xs. fin t q \<le> fin s q \<Longrightarrow> sorted_wrt (apart s) xs \<Longrightarrow> sorted_wrt (apart t) xs"
  by (induction xs) (fastforce simp: apart_def)+

text \<open>What \<open>take_block\<close> does: \<open>q\<close> is the header of the block it takes out of the free block \<open>p\<close>.\<close>

definition took :: "u32 \<Rightarrow> u32 list \<Rightarrow> u32 \<Rightarrow> uheap \<Rightarrow> u32 \<Rightarrow> u32 \<Rightarrow> uheap \<Rightarrow> u32 list \<Rightarrow> bool" where
  "took base ns p s n q t ms \<longleftrightarrow> heap_ok base ms t \<and> h_size t q = n \<and> extent t q \<subseteq> extent s p \<and>
     free_mem ms t = free_mem ns s - extent t q \<and> brk t = brk s \<and> (\<forall>x. unat x \<notin> extent s p \<longrightarrow> h_size t x = h_size s x) \<and> base < q"

lemma take_whole:
  assumes ok: "body_ok base ns s" and split: "ns = us @ a # p # vs" and n: "h_size s p = n"
  obtains t ms where "take_block n a p s = (p + 8, t)" "took base ns p s n p t ms"
proof -
  have split': "ns = (us @ [a]) @ p # vs" using split by simp
  note N = nodes_at [OF ok split] and P = nodes_at [OF ok split']
  let ?t = "(set_ptr a (h_ptr s p) s)\<lparr>freep := a\<rparr>"
  have e: "take_block n a p s = (p + 8, ?t)" using n by (simp add: take_block_def)
  have "linked (h_ptr ?t) (us @ [a])" using N(8,10) by (simp add: linked_upd butlast_append)
  moreover have "linked (h_ptr ?t) (a # vs @ [base])" using P(1,9) N(11) by (simp add: linked_Cons linked_upd)
  ultimately have "linked (h_ptr ?t) ((us @ a # vs) @ [base])" using linked_join [of "h_ptr ?t" us a "vs @ [base]"] by simp
  then have "heap_ok base (us @ a # vs) ?t"
    using ok split by (cases us) (auto simp: heap_ok_def body_ok_def sorted_wrt_append)
  moreover have "free_mem (us @ a # vs) ?t = free_mem ns s - extent ?t p"
    using extents_disjoint [OF ok split'] unfolding split by (auto simp: free_mem_def)
  moreover have "base < p" using P(2) N(4) by (simp add: apart_def word_less_nat_alt)
  ultimately show thesis using n by (intro that [OF e, of "us @ a # vs"]) (simp add: took_def)
qed

text \<open>The rest of a block that is split.\<close>

lemma split_mem:
  assumes ok: "body_ok base ns s" and split: "ns = us @ p # vs" and q: "q \<notin> set ns" "unat p \<le> unat q" "unat q \<le> fin s p"
    and t: "extent t p = {unat p..<unat q}" "extent t q = {unat q..<fin s p}" "\<And>x. x \<noteq> p \<Longrightarrow> x \<noteq> q \<Longrightarrow> extent t x = extent s x"
  shows "free_mem ns t = free_mem ns s - extent t q"
proof -
  have p: "p \<in> set ns" using split by simp
  let ?R = "\<Union>x \<in> set ns - {p}. extent s x"
  have o: "extent s x \<inter> extent s p = {}" if "x \<in> set ns" "x \<noteq> p" for x using extents_disjoint [OF ok split] that split by auto
  have "(\<Union>x \<in> set ns - {p}. extent t x) = ?R" by (rule SUP_cong [OF refl], rule t(3)) (use q(1) in auto)
  then have "free_mem ns t = {unat p..<unat q} \<union> ?R" unfolding free_mem_node [OF p] t(1) by simp
  moreover have "free_mem ns s = extent s p \<union> ?R" by (rule free_mem_node [OF p])
  moreover have "extent s p = {unat p..<unat q} \<union> {unat q..<fin s p}" using q by (auto simp: extent_def)
  moreover have "?R \<inter> extent s p = {}" using o by blast
  ultimately show ?thesis using t(2) by auto
qed

lemma inner_not_node:
  assumes ok: "body_ok base ns s" and split: "ns = us @ p # vs" and q: "unat q \<in> extent s p" "q \<noteq> p" "q \<noteq> base"
  shows "q \<notin> set ns"
proof
  assume i: "q \<in> set ns"
  then have "q \<in> set (us @ vs)" using split q(2) by auto
  from extents_disjoint [OF ok split this] have "unat q \<notin> extent s q" using q(1) by blast
  moreover have "h_size s q \<noteq> 0" using ok i q(3) unfolding body_ok_def by blast
  ultimately show False using node_in_extent by blast
qed

lemma take_part:
  assumes ok: "body_ok base ns s" and split: "ns = us @ a # p # vs" and n: "n < h_size s p" "n \<noteq> 0"
  obtains q t where "take_block n a p s = (q + 8, t)" "took base ns p s n q t ns"
proof -
  have split': "ns = (us @ [a]) @ p # vs" using split by simp
  note P = nodes_at [OF ok split']
  have base: "unat base < unat p" using P(2) nodes_at(4) [OF ok split] by (simp add: apart_def)
  have fp: "fin s p < 4294967296" using ok split base by (auto simp: body_ok_def)
  define k where "k = h_size s p - n"
  let ?m = k and ?q = "p + 8 * k"
  let ?t = "(set_size ?q n (set_size p ?m s))\<lparr>freep := a\<rparr>"
  have m: "unat ?m = unat (h_size s p) - unat n" "0 < unat ?m" "unat n < unat (h_size s p)" "0 < unat n"
    using n by (auto simp: k_def unat_sub_if' word_less_nat_alt word_le_nat_alt word_unat_eq_iff)
  have q: "unat ?q = unat p + 8 * unat ?m" using fp m by (simp add: fin_def unat_word_ariths)
  have qp: "?q \<noteq> p" using q m by auto
  have fq: "unat ?q + 8 * unat n = fin s p" using q m by (simp add: fin_def)
  have qe: "unat ?q \<in> extent s p" using q m fq by (simp add: extent_def)
  have qb: "?q \<noteq> base" "p \<noteq> base" using base q by auto
  have qn: "?q \<notin> set ns" by (rule inner_not_node [OF ok split' qe qp qb(1)])
  have e: "take_block n a p s = (?q + 8, ?t)" using less_imp_neq [OF n(1)] by (simp add: take_block_def Let_def h_end_def flip: k_def)
  have f: "fin ?t = (fin s)(p := unat ?q, ?q := fin s p)" using q fq qp by (auto simp: fun_eq_iff)
  have fle: "\<forall>x \<in> set ns. fin ?t x \<le> fin s x" using qn fq q by (auto simp: f)
  have "sorted_wrt (apart ?t) ns" by (rule sorted_apart_mono [OF fle]) (use ok in \<open>simp add: body_ok_def\<close>)
  moreover have "\<forall>x \<in> set ns. x \<noteq> base \<longrightarrow> h_size ?t x \<noteq> 0 \<and> fin ?t x < 4294967296"
  proof (intro ballI impI)
    fix x assume x: "x \<in> set ns" "x \<noteq> base"
    then have "h_size s x \<noteq> 0" "fin s x < 4294967296" using ok unfolding body_ok_def by blast+
    moreover have "k \<noteq> 0" using m(2) by auto
    ultimately show "h_size ?t x \<noteq> 0 \<and> fin ?t x < 4294967296" using bspec [OF fle x(1)] x(1) qn by auto
  qed
  ultimately have h: "heap_ok base ns ?t" using ok split qb by (simp add: heap_ok_def body_ok_def)
  have fm: "free_mem ns ?t = free_mem ns s - extent ?t ?q"
    by (rule split_mem [OF ok split' qn]) (use q fq qp in simp_all)
  have sz: "h_size ?t ?q = n" by simp
  have sub: "extent ?t ?q \<subseteq> extent s p" using q fq by (auto simp: extent_def [of s p])
  have "unat p \<in> extent s p" using q fq m by (simp add: extent_def)
  then have hdr: "\<forall>x. unat x \<notin> extent s p \<longrightarrow> h_size ?t x = h_size s x" using qe by auto
  have "base < ?q" using base q by (simp add: word_less_nat_alt)
  with h sz sub fm hdr show thesis by (intro that [OF e]) (simp add: took_def)
qed

lemma take_block_ok:
  assumes ok: "body_ok base ns s" and split: "ns = us @ a # p # vs" and n: "n \<le> h_size s p" "n \<noteq> 0"
  obtains q t ms where "take_block n a p s = (q + 8, t)" "took base ns p s n q t ms"
proof (cases "h_size s p = n")
  case True
  then show thesis by (rule take_whole [OF ok split]) (rule that)
next
  case False
  then have "n < h_size s p" using n(1) by simp
  then show thesis by (rule take_part [OF ok split _ n(2)]) (rule that)
qed

text \<open>The search of \<open>malloc\<close> goes once round the circle, from the block after \<open>freep\<close> to \<open>freep\<close> itself.\<close>

lemma ring_from:
  assumes ok: "body_ok base ns s" and split: "ns = us @ f # vs"
  shows "linked (h_ptr s) (f # vs @ us @ [f])"
proof (cases us)
  case Nil
  then show ?thesis using nodes_at(9) [OF ok split] ok split by (simp add: body_ok_def)
next
  case (Cons b us')
  then have b: "b = base" using ok split by (simp add: body_ok_def)
  have "linked (h_ptr s) ((f # vs) @ b # us' @ [f])"
    by (rule linked_join) (use nodes_at(8,9) [OF ok split] Cons b in simp_all)
  then show ?thesis using Cons by simp
qed

lemma loop_skip:
  assumes "linked (h_ptr s) (a # as @ z # bs)" "\<forall>x \<in> set as. h_size s x < n \<and> x \<noteq> freep s"
  shows "malloc_loop G n a (hd (as @ [z])) s = malloc_loop G n (last (a # as)) z s"
  using assms
proof (induction as arbitrary: a)
  case (Cons x as)
  have "h_ptr s x = hd (as @ [z])" using Cons.prems(1) by (cases as) auto
  then have "malloc_loop G n a x s = malloc_loop G n x (hd (as @ [z])) s"
    using Cons.prems(2) by (subst malloc_loop.simps) auto
  then show ?case using Cons.IH [of x] Cons.prems by simp
qed simp

lemma predecessor_unique:
  assumes ok: "body_ok base ns s" and split: "ns = us @ a # z # vs" and x: "x \<in> set ns" "h_ptr s x = z"
  shows "x = a"
proof -
  obtain us' vs' where s': "ns = us' @ x # vs'" using x(1) by (auto dest: split_list)
  have "unat base < unat z" using nodes_at(3,4) [OF ok split] by (auto simp: apart_def)
  then obtain ws where ws: "vs' = z # ws" using nodes_at(1) [OF ok s'] x(2) by (cases vs') auto
  have z: "ns = (us @ [a]) @ z # vs" "ns = (us' @ [x]) @ z # ws" using split s' ws by simp_all
  have "z \<notin> set (us @ [a])" "z \<notin> set vs" using nodes_at(10,11) [OF ok z(1)] by auto
  then have "us @ [a] = us' @ [x]" using z append_Cons_eq_iff [of z "us @ [a]" vs "us' @ [x]" ws] by simp
  then show ?thesis by simp
qed

lemma malloc_loop_fits:
  assumes ok: "heap_ok base ns s" and n: "n \<noteq> 0" "\<exists>x \<in> set ns. n \<le> h_size s x"
  obtains us a p vs where "ns = us @ a # p # vs" "n \<le> h_size s p"
    "malloc_loop G n (freep s) (h_ptr s (freep s)) s = Some (take_block n a p s)"
proof -
  let ?f = "freep s"
  obtain us vs where split: "ns = us @ ?f # vs" using ok by (auto simp: heap_ok_def dest: split_list)
  have b: "body_ok base ns s" using ok by (simp add: heap_ok_def)
  note R = ring_from [OF b split] and D = nodes_at(12) [OF b split]
  have "\<exists>x \<in> set (vs @ us @ [?f]). n \<le> h_size s x" using n(2) split by auto
  then obtain as z bs where z: "vs @ us @ [?f] = as @ z # bs" "n \<le> h_size s z" "\<forall>x \<in> set as. \<not> n \<le> h_size s x"
    by (rule split_list_first_propE)
  have zn: "z \<in> set ns" using arg_cong [OF z(1), of set] split by auto
  have "z \<noteq> base" using z(2) b n(1) by (auto simp: body_ok_def)
  moreover obtain u1 v1 where u1: "ns = u1 @ z # v1" using zn by (auto dest: split_list)
  ultimately have "u1 \<noteq> []" using b by (auto simp: body_ok_def)
  then obtain u2 a where a: "ns = u2 @ a # z # v1" using u1 by (cases u1 rule: rev_cases) auto
  have R': "linked (h_ptr s) (?f # as @ z # bs)" using R unfolding z(1) .
  have "as @ butlast (z # bs) = vs @ us" using arg_cong [OF z(1), of butlast] by (simp add: butlast_append)
  from arg_cong [OF this, of set] have sub: "set as \<subseteq> set vs \<union> set us" by auto
  then have "?f \<notin> set as" using D by auto
  then have "malloc_loop G n ?f (hd (as @ [z])) s = malloc_loop G n (last (?f # as)) z s"
    using z(3) by (intro loop_skip [OF R']) (auto simp: not_le)
  moreover have "h_ptr s ?f = hd (as @ [z])" using R' by (cases as) auto
  moreover have "last (?f # as) = a"
  proof (rule predecessor_unique [OF b a])
    have "set (?f # as) \<subseteq> set ns" unfolding split using sub by auto
    then show "last (?f # as) \<in> set ns" using last_in_set [of "?f # as"] by blast
    have "?f # as @ z # bs = butlast (?f # as) @ last (?f # as) # z # bs" by (metis append_Cons append_butlast_last_id append.assoc append_Nil list.distinct(1))
    then show "h_ptr s (last (?f # as)) = z" using R' linked_next [of "h_ptr s" "butlast (?f # as)"] by metis
  qed
  ultimately have "malloc_loop G n ?f (h_ptr s ?f) s = Some (take_block n a z s)"
    using z(2) by (simp add: malloc_loop.simps [of G n a z])
  with a z(2) show thesis by (rule that)
qed

lemma malloc_loop_none:
  assumes ok: "heap_ok base ns s" and n: "\<forall>x \<in> set ns. h_size s x < n"
  shows "malloc_loop G n (freep s) (h_ptr s (freep s)) s =
    Option.bind (morecore G n s) (\<lambda>(p, s). if p = 0 then Some (0, s) else malloc_loop G n p (h_ptr s p) s)"
proof -
  let ?f = "freep s"
  obtain us vs where split: "ns = us @ ?f # vs" using ok by (auto simp: heap_ok_def dest: split_list)
  have b: "body_ok base ns s" using ok by (simp add: heap_ok_def)
  have R: "linked (h_ptr s) (?f # (vs @ us) @ ?f # [])" using ring_from [OF b split] by simp
  have "?f \<notin> set (vs @ us)" using nodes_at(12) [OF b split] by auto
  then have "malloc_loop G n ?f (hd ((vs @ us) @ [?f])) s = malloc_loop G n (last (?f # vs @ us)) ?f s"
    using n split by (intro loop_skip [OF R]) auto
  moreover have "h_ptr s ?f = hd ((vs @ us) @ [?f])" using R by (cases "vs @ us") auto
  moreover have "h_size s ?f < n" using n split by simp
  ultimately show ?thesis by (subst (asm) (2) malloc_loop.simps) auto
qed

section \<open>Growing the heap\<close>

text \<open>What the kernel guarantees of \<open>sbrk\<close>: a process does not grow beyond \<open>KERNBASE\<close>.\<close>

definition grant_ok :: "grant \<Rightarrow> bool" where
  "grant_ok G \<longleftrightarrow> (\<forall>s n. G s n \<longrightarrow> unat (brk s) + unat n \<le> 0x80000000)"

text \<open>Before the first call \<open>freep\<close> is null, and the static header is zero.\<close>

definition um_inv :: "u32 \<Rightarrow> u32 list \<Rightarrow> uheap \<Rightarrow> bool" where
  "um_inv base ns s \<longleftrightarrow> base \<noteq> 0 \<and> (if freep s = 0 then ns = [base] \<and> h_size s base = 0 else heap_ok base ns s) \<and>
     base < brk s \<and> (\<forall>p \<in> set ns. fin s p \<le> unat (brk s))"

lemma other_size:
  assumes "q \<notin> set ns" "q \<noteq> base"
  shows "heap_ok base ns (set_size q k s) = heap_ok base ns s" "free_mem ns (set_size q k s) = free_mem ns s"
proof -
  have f: "\<forall>x \<in> set ns. fin (set_size q k s) x = fin s x" using assms(1) by auto
  show "free_mem ns (set_size q k s) = free_mem ns s" 
    unfolding free_mem_def by (rule SUP_cong [OF refl]) (use f in \<open>simp only: extent_def\<close>)
  show "heap_ok base ns (set_size q k s) = heap_ok base ns s"
    unfolding heap_ok_def body_ok_def sorted_apart_cong [OF f] using f assms by auto
qed

lemma brk_simps [simp]: "heap_ok base ns (s\<lparr>brk := b\<rparr>) = heap_ok base ns s" "free_mem ns (s\<lparr>brk := b\<rparr>) = free_mem ns s" "fin (s\<lparr>brk := b\<rparr>) = fin s"
proof -
  show f: "fin (s\<lparr>brk := b\<rparr>) = fin s" by (auto simp: fin_def fun_eq_iff)
  then have "apart (s\<lparr>brk := b\<rparr>) = apart s" "extent (s\<lparr>brk := b\<rparr>) = extent s" by (simp_all add: apart_def extent_def fun_eq_iff)
  then show "heap_ok base ns (s\<lparr>brk := b\<rparr>) = heap_ok base ns s" "free_mem ns (s\<lparr>brk := b\<rparr>) = free_mem ns s"
    using f by (simp_all add: heap_ok_def body_ok_def free_mem_def)
qed

lemma um_invI:
  assumes "heap_ok base ns s" "base \<noteq> 0" "base < brk s" "\<forall>x \<in> free_mem ns s. x < unat (brk s)"
  shows "um_inv base ns s" "freep s \<noteq> 0"
proof -
  have b: "body_ok base ns s" using assms(1) by (simp add: heap_ok_def)
  have "freep s \<in> set ns" using assms(1) by (simp add: heap_ok_def)
  then obtain us vs where "ns = us @ freep s # vs" by (auto dest: split_list)
  from nodes_at(4) [OF b this] show f: "freep s \<noteq> 0" using assms(2) by (auto simp: word_unat_eq_iff)
  have "fin s p \<le> unat (brk s)" if p: "p \<in> set ns" for p
  proof (cases "h_size s p = 0")
    case True
    then have "p = base" using b p by (auto simp: body_ok_def)
    then show ?thesis using True assms(3) by (simp add: fin_def word_less_nat_alt)
  next
    case False
    then have "fin s p - 1 \<in> free_mem ns s" "0 < fin s p" using p node_in_extent [OF False] by (auto simp: free_mem_def extent_def intro!: bexI [of _ p])
    then show ?thesis using assms(4) by fastforce
  qed
  then show "um_inv base ns s" using assms f by (simp add: um_inv_def)
qed

lemma free_below_brk:
  assumes "um_inv base ns s"
  shows "\<forall>x \<in> free_mem ns s. x < unat (brk s)"
  using assms unfolding um_inv_def free_mem_def extent_def by fastforce

lemma morecore_ok:
  assumes inv: "um_inv base ns s" "heap_ok base ns s" and G: "grant_ok G" and n: "8 * unat n < 4294967296"
  obtains "morecore G n s = Some (0, s)"
  | u ms where "morecore G n s = Some (freep u, u)" "freep u \<noteq> 0" "um_inv base ms u" "heap_ok base ms u"
    "free_mem ms u = free_mem ns s \<union> {unat (brk s)..<unat (brk u)}" "\<exists>q \<in> set ms. n \<le> h_size u q" "brk s \<le> brk u"
    "\<forall>q. unat q \<notin> free_mem ns s \<union> {unat (brk s)..<unat (brk u)} \<union> {unat base} \<longrightarrow> h_size u q = h_size s q"
proof -
  let ?b = "brk s"
  define k where "k = (if n < 4096 then 4096 else n)"
  have k: "unat (k * 8) = 8 * unat k" "0 < unat k" "n \<le> k"
    using n by (auto simp: k_def unat_word_ariths word_less_nat_alt word_le_nat_alt)
  show thesis
  proof (cases "G s (k * 8)")
    case False
    then show thesis using that(1) by (simp add: morecore_def sbrk_def k_def Let_def)
  next
    case True
    then have g: "unat ?b + 8 * unat k \<le> 0x80000000" using G k(1) unfolding grant_ok_def by metis
    let ?s = "set_size ?b k (s\<lparr>brk := ?b + k * 8\<rparr>)"
    have bk: "unat (brk ?s) = unat ?b + 8 * unat k" using g k(1) by (simp add: unat_word_ariths(1) del: unat_of_nat)
    have base: "base \<noteq> 0" "base < ?b" using inv(1) by (simp_all add: um_inv_def)
    have "?b \<notin> set ns"
    proof
      assume b: "?b \<in> set ns"
      then have "h_size s ?b \<noteq> 0" using inv(2) base(2) by (auto simp: heap_ok_def body_ok_def)
      then have "unat ?b \<in> free_mem ns s" using b node_in_extent by (auto simp: free_mem_def)
      then show False using free_below_brk [OF inv(1)] by auto
    qed
    then have s: "heap_ok base ns ?s" "free_mem ns ?s = free_mem ns s" using inv(2) base(2) other_size [of ?b ns base] by auto
    have e: "extent ?s ?b = {unat ?b..<unat (brk ?s)}" using bk by (simp add: extent_def fin_def)
    have d: "extent ?s ?b \<inter> free_mem ns ?s = {}" unfolding e s(2) using free_below_brk [OF inv(1)] by fastforce
    have z: "h_size ?s ?b \<noteq> 0" "fin ?s ?b < 4294967296" using k(2) g by (auto simp: fin_def)
    obtain u ms where u: "free (?b + 8) ?s = Some u" "heap_ok base ms u" "free_mem ms u = free_mem ns ?s \<union> extent ?s ?b" "brk u = brk ?s"
      "\<forall>q. unat q \<notin> free_mem ns ?s \<union> extent ?s ?b \<union> {unat base} \<longrightarrow> h_size u q = h_size ?s q" "\<exists>q \<in> set ms. h_size ?s ?b \<le> h_size u q"
      by (rule free_ok [OF s(1) base(2) d z])
    have mem: "free_mem ms u = free_mem ns s \<union> {unat ?b..<unat (brk u)}" using u(3,4) s(2) e by simp
    have top: "\<forall>x \<in> free_mem ms u. x < unat (brk u)" using mem free_below_brk [OF inv(1)] bk u(4) by fastforce
    have bu: "base < brk u" using base(2) bk u(4) by (simp add: word_less_nat_alt)
    have "unat (- 1 :: u32) = 4294967295" by (simp add: unsigned_minus_1_eq_mask mask_eq_exp_minus_1)
    then have "?b \<noteq> - 1" using g k(2) by auto
    then have m: "morecore G n s = Some (freep u, u)" using True u(1) by (simp add: morecore_def sbrk_def Let_def flip: k_def)
    have big: "\<exists>q \<in> set ms. n \<le> h_size u q" using u(6) k(3) by (auto intro: order_trans)
    have hdr: "\<forall>q. unat q \<notin> free_mem ns s \<union> {unat ?b..<unat (brk u)} \<union> {unat base} \<longrightarrow> h_size u q = h_size s q"
      using u(5) s(2) e u(4) bk k(2) by auto
    have "?b \<le> brk u" using bk u(4) by (simp add: word_le_nat_alt)
    from that(2) [OF m um_invI(2,1) [OF u(2) base(1) bu top] u(2) mem big this hdr] show thesis .
  qed
qed

section \<open>What \<open>malloc\<close> and \<open>free\<close> do\<close>

lemma units_bounds:
  assumes "unat nbytes \<le> 0x7FFFFFF0"
  shows "8 * unat (units nbytes) < 4294967296" "unat nbytes + 8 \<le> 8 * unat (units nbytes)" "units nbytes \<noteq> 0"
proof -
  have "unat (nbytes + 8 - 1) = unat nbytes + 7" using assms by (simp add: unat_word_ariths(1))
  then have u: "unat (units nbytes) = (unat nbytes + 7) div 8 + 1"
    using assms by (simp add: units_def unat_word_ariths(1) unat_div_distrib)
  show "8 * unat (units nbytes) < 4294967296" "unat nbytes + 8 \<le> 8 * unat (units nbytes)" using u assms by linarith+
  show "units nbytes \<noteq> 0" using u by auto
qed

text \<open>The result of an allocation of \<open>n\<close> units at the header \<open>q\<close>: \<open>ns\<close> and \<open>ms\<close> are the free blocks before and after.\<close>

definition allocated :: "u32 \<Rightarrow> u32 list \<Rightarrow> uheap \<Rightarrow> u32 \<Rightarrow> u32 \<Rightarrow> uheap \<Rightarrow> u32 list \<Rightarrow> bool" where
  "allocated base ns s n q t ms \<longleftrightarrow> um_inv base ms t \<and> freep t \<noteq> 0 \<and> h_size t q = n \<and> base < q \<and> brk s \<le> brk t \<and>
     extent t q \<subseteq> free_mem ns s \<union> {unat (brk s)..<unat (brk t)} \<and>
     free_mem ms t = free_mem ns s \<union> {unat (brk s)..<unat (brk t)} - extent t q \<and>
     (\<forall>x. unat x \<notin> free_mem ns s \<union> {unat (brk s)..<unat (brk t)} \<union> {unat base} \<longrightarrow> h_size t x = h_size s x)"

lemma fits_allocated:
  assumes inv: "um_inv base ns s" "heap_ok base ns s" and n: "n \<noteq> 0" "\<exists>x \<in> set ns. n \<le> h_size s x"
  obtains q t ms where "malloc_loop G n (freep s) (h_ptr s (freep s)) s = Some (q + 8, t)" "allocated base ns s n q t ms"
proof -
  obtain us a p vs where p: "ns = us @ a # p # vs" "n \<le> h_size s p"
    "malloc_loop G n (freep s) (h_ptr s (freep s)) s = Some (take_block n a p s)"
    by (rule malloc_loop_fits [OF inv(2) n])
  have b: "body_ok base ns s" using inv(2) by (simp add: heap_ok_def)
  obtain q t ms where q: "take_block n a p s = (q + 8, t)" "took base ns p s n q t ms" by (rule take_block_ok [OF b p(1,2) n(1)])
  have sub: "extent s p \<subseteq> free_mem ns s" using p(1) by (auto simp: free_mem_def)
  have T: "heap_ok base ms t" "brk t = brk s" "free_mem ms t = free_mem ns s - extent t q" using q(2) by (simp_all add: took_def)
  have c: "base \<noteq> 0" "base < brk t" "\<forall>x \<in> free_mem ms t. x < unat (brk t)"
    using inv(1) T(2,3) free_below_brk [OF inv(1)] by (auto simp: um_inv_def)
  note um_invI [OF T(1) c]
  then have "allocated base ns s n q t ms" using q(2) sub by (auto simp: allocated_def took_def)
  with p(3) q(1) show thesis by (intro that) simp_all
qed

lemma malloc_heap:
  assumes inv: "um_inv base ns s" "heap_ok base ns s" and G: "grant_ok G" and n: "n \<noteq> 0" "8 * unat n < 4294967296"
  obtains "malloc_loop G n (freep s) (h_ptr s (freep s)) s = Some (0, s)" "\<forall>x \<in> set ns. h_size s x < n"
  | q t ms where "malloc_loop G n (freep s) (h_ptr s (freep s)) s = Some (q + 8, t)" "allocated base ns s n q t ms"
proof (cases "\<exists>x \<in> set ns. n \<le> h_size s x")
  case True
  show thesis by (rule fits_allocated [OF inv n(1) True]) (rule that(2))
next
  case False
  then have small: "\<forall>x \<in> set ns. h_size s x < n" by auto
  note L = malloc_loop_none [OF inv(2) small]
  show thesis
  proof (rule morecore_ok [OF inv G n(2)])
    assume "morecore G n s = Some (0, s)"
    then show thesis using L small by (intro that(1)) simp_all
  next
    fix u ms assume u: "morecore G n s = Some (freep u, u)" "freep u \<noteq> 0" "um_inv base ms u" "heap_ok base ms u"
      "free_mem ms u = free_mem ns s \<union> {unat (brk s)..<unat (brk u)}" "\<exists>q \<in> set ms. n \<le> h_size u q" "brk s \<le> brk u"
      "\<forall>q. unat q \<notin> free_mem ns s \<union> {unat (brk s)..<unat (brk u)} \<union> {unat base} \<longrightarrow> h_size u q = h_size s q"
    obtain q t ms' where q: "malloc_loop G n (freep u) (h_ptr u (freep u)) u = Some (q + 8, t)" "allocated base ms u n q t ms'"
      by (rule fits_allocated [OF u(3,4) n(1) u(6)])
    have "{unat (brk s)..<unat (brk u)} \<union> {unat (brk u)..<unat (brk t)} = {unat (brk s)..<unat (brk t)}"
      using u(7) q(2) by (auto simp: allocated_def word_le_nat_alt)
    then have e: "free_mem ms u \<union> {unat (brk u)..<unat (brk t)} = free_mem ns s \<union> {unat (brk s)..<unat (brk t)}"
      unfolding u(5) by (simp add: Un_assoc)
    have "allocated base ns s n q t ms'" unfolding allocated_def e [symmetric] using q(2) u(7,8) unfolding allocated_def by (auto simp: u(5))
    then show thesis using L u(1,2) q(1) by (intro that(2)) simp_all
  qed
qed

text \<open>The first call makes the list that has only the static header.\<close>

definition started :: "u32 \<Rightarrow> uheap \<Rightarrow> uheap" where
  "started base s = (if freep s = 0 then set_size base 0 ((set_ptr base base s)\<lparr>freep := base\<rparr>) else s)"

lemma started_ok:
  assumes "um_inv base ns s"
  shows "heap_ok base ns (started base s)" "um_inv base ns (started base s)" "h_size (started base s) = h_size s" "brk (started base s) = brk s"
    "free_mem ns (started base s) = free_mem ns s"
proof -
  have *: "heap_ok base ns (started base s) \<and> h_size (started base s) = h_size s \<and> brk (started base s) = brk s"
    using assms by (auto simp: um_inv_def started_def heap_ok_def body_ok_def split: if_splits)
  then show "heap_ok base ns (started base s)" "h_size (started base s) = h_size s" "brk (started base s) = brk s" by simp_all
  with * have f: "fin (started base s) = fin s" by (simp add: fin_def fun_eq_iff)
  then show "free_mem ns (started base s) = free_mem ns s" by (simp add: free_mem_def extent_def)
  then show "um_inv base ns (started base s)"
    using * assms free_below_brk [OF assms] by (intro um_invI(1)) (simp_all add: um_inv_def)
qed

lemma malloc_cases:
  assumes inv: "um_inv base ns s" and G: "grant_ok G" and n: "unat nbytes \<le> 0x7FFFFFF0"
  obtains "malloc G base nbytes s = Some (0, started base s)" "\<forall>x \<in> set ns. h_size s x < units nbytes"
  | q t ms where "malloc G base nbytes s = Some (q + 8, t)" "allocated base ns s (units nbytes) q t ms" "q + 8 \<noteq> 0"
proof -
  note S = started_ok [OF inv] and U = units_bounds [OF n]
  have m: "malloc G base nbytes s = malloc_loop G (units nbytes) (freep (started base s)) (h_ptr (started base s) (freep (started base s))) (started base s)"
    by (simp add: malloc_def started_def Let_def)
  show thesis
  proof (rule malloc_heap [OF S(2,1) G U(3,1)])
    assume "malloc_loop G (units nbytes) (freep (started base s)) (h_ptr (started base s) (freep (started base s))) (started base s) = Some (0, started base s)"
      "\<forall>x \<in> set ns. h_size (started base s) x < units nbytes"
    then show thesis using m S(3) by (intro that(1)) simp_all
  next
    fix q t ms assume a: "malloc_loop G (units nbytes) (freep (started base s)) (h_ptr (started base s) (freep (started base s))) (started base s) = Some (q + 8, t)"
      "allocated base ns (started base s) (units nbytes) q t ms"
    then have al: "allocated base ns s (units nbytes) q t ms" using S(3-5) by (simp add: allocated_def)
    have f: "fin t q - 1 \<in> extent t q" using al U(2) by (simp add: allocated_def extent_def fin_def)
    then have "fin t q - 1 < unat (brk t) \<or> fin t q - 1 < unat (brk s)" using al free_below_brk [OF inv] by (auto simp: allocated_def)
    then have "fin t q < 4294967296" using unat_u32_bound [of "brk t"] unat_u32_bound [of "brk s"] by linarith
    then have "unat (q + 8) = unat q + 8" using al U(2) by (simp add: allocated_def fin_def unat_word_ariths(1))
    then have "q + 8 \<noteq> 0" by auto
    with m a(1) al show thesis by (intro that(2)) simp_all
  qed
qed

lemma card_extent: "card (extent t q) = 8 * unat (h_size t q)"
  by (simp add: extent_def fin_def)

text \<open>
  The bound on \<open>nbytes\<close> in the next theorems is needed: the rounding wraps around for requests near \<open>2 ^ 32\<close>, and
  \<open>malloc(0xFFFFFFFF)\<close> asks for a single unit, which is the header alone.
\<close>

lemma units_wrap: "units 0xFFFFFFFF = 1"
  by (simp add: units_def)



text \<open>A process that has not allocated anything yet.\<close>

definition demo_uheap :: uheap where
  "demo_uheap = \<lparr>h_ptr = (\<lambda>_. 0), h_size = (\<lambda>_. 0), freep = 0, brk = 0x4000\<rparr>"

definition demo_grant :: grant where
  "demo_grant s n \<longleftrightarrow> unat (brk s) + unat n \<le> 0x80000000"

lemma demo_uheap_inv: "um_inv 0x1000 [0x1000] demo_uheap" "grant_ok demo_grant" "unat (100 :: u32) \<le> 0x7FFFFFF0"
  by (simp_all add: um_inv_def demo_uheap_def fin_def grant_ok_def demo_grant_def)


lemma demo_malloc: "\<exists>t. malloc demo_grant 0x1000 100 demo_uheap = Some (0xBF98, t)"
  by (simp add: malloc_def units_def demo_uheap_def set_size_def set_ptr_def malloc_loop.simps morecore_def sbrk_def demo_grant_def
      free_def free_find.simps link_next_def link_prev_def h_end_def take_block_def Let_def)


end
