(* ===== verification/Spec2Isabelle.thy ===== *)
theory Spec2Isabelle
  imports Fs_Blocks Pipe Vm_Copy Trap Printf Kbd Grep Wc Sh Mp Console Umalloc
begin

text \<open>
  A verification library for the xv6 teaching kernel.
\<close>

end
